(* ===== verification/Go_Prelude.thy ===== *)
theory Go_Prelude
  imports Main "HOL-Library.Word" "HOL-Library.Sublist" "HOL-Library.Char_ord"
    "HOL-Library.List_Lexorder"
begin

text \<open>
  What the components share: the string functions of the Go library that the core calls, the
  small arithmetic of Go's integers, and generic lemmas on lists and maps.

  A Go string or \<open>[]byte\<close> is a sequence of bytes, so it is a \<open>string\<close> here: a \<open>char\<close> is one of
  256 bytes. Go orders strings bytewise; that is the order of the library theories
  \<open>Char_ord\<close> and \<open>List_Lexorder\<close>.
\<close>

named_theorems go_simps \<open>equations that unfold small operations\<close>
named_theorems go_inv \<open>preservation of a component's invariant\<close>

type_synonym bytes = string
type_synonym u64 = "64 word"
type_synonym u32 = "32 word"
type_synonym i64 = "64 word" \<comment> \<open>read with \<open>sint\<close>\<close>

abbreviation byte_val :: "char \<Rightarrow> nat" where
  "byte_val c \<equiv> of_char c"

subsection \<open>Letter case\<close>

definition is_upper :: "char \<Rightarrow> bool" where
  "is_upper c \<longleftrightarrow> 65 \<le> byte_val c \<and> byte_val c \<le> 90"

definition is_lower :: "char \<Rightarrow> bool" where
  "is_lower c \<longleftrightarrow> 97 \<le> byte_val c \<and> byte_val c \<le> 122"

definition is_digit :: "char \<Rightarrow> bool" where
  "is_digit c \<longleftrightarrow> 48 \<le> byte_val c \<and> byte_val c \<le> 57"

definition is_letter :: "char \<Rightarrow> bool" where
  "is_letter c \<longleftrightarrow> is_upper c \<or> is_lower c"

definition upper_byte :: "char \<Rightarrow> char" where
  "upper_byte c = (if is_lower c then char_of (byte_val c - 32) else c)"

definition lower_byte :: "char \<Rightarrow> char" where
  "lower_byte c = (if is_upper c then char_of (byte_val c + 32) else c)"

text \<open>
  \<open>strings.ToUpper\<close> and \<open>strings.ToLower\<close> map runes. The only non-ASCII runes whose upper-case
  form is ASCII are U+0131 (bytes C4 B1, to \<open>I\<close>) and U+017F (C5 BF, to \<open>S\<close>); the only ones with
  an ASCII lower-case form are U+0130 (C4 B0, to \<open>i\<close>) and U+212A (E2 84 AA, to \<open>k\<close>). Every other
  non-ASCII rune maps to a non-ASCII rune, whose bytes the core never inspects: it compares the
  result with ASCII text only, so those bytes are left as they are.
\<close>

fun to_upper :: "string \<Rightarrow> string" where
  "to_upper (a # b # s) =
     (if a = CHR 0xC4 \<and> b = CHR 0xB1 then CHR ''I'' # to_upper s
      else if a = CHR 0xC5 \<and> b = CHR 0xBF then CHR ''S'' # to_upper s
      else upper_byte a # to_upper (b # s))"
| "to_upper [a] = [upper_byte a]"
| "to_upper [] = []"

fun to_lower :: "string \<Rightarrow> string" where
  "to_lower (a # b # s) =
     (if a = CHR 0xC4 \<and> b = CHR 0xB0 then CHR ''i'' # to_lower s
      else if a = CHR 0xE2 \<and> b = CHR 0x84 \<and> s \<noteq> [] \<and> hd s = CHR 0xAA
        then CHR ''k'' # to_lower (tl s)
      else lower_byte a # to_lower (b # s))"
| "to_lower [a] = [lower_byte a]"
| "to_lower [] = []"

lemma is_upper_upper_byte: "is_lower c \<Longrightarrow> is_upper (upper_byte c)"
proof -
  assume "is_lower c"
  then have "byte_val (upper_byte c) = byte_val c - 32"
    by (auto simp: upper_byte_def is_lower_def)
  with \<open>is_lower c\<close> show ?thesis by (auto simp: is_upper_def is_lower_def)
qed

lemma upper_byte_upper [simp]: "is_upper c \<Longrightarrow> upper_byte c = c"
  by (simp add: is_upper_def is_lower_def upper_byte_def)

lemma is_upper_neq_high: "is_upper c \<Longrightarrow> c \<noteq> CHR 0xC4 \<and> c \<noteq> CHR 0xC5"
  by (auto simp: is_upper_def)

lemma to_upper_upper: "\<forall>c \<in> set s. is_upper c \<Longrightarrow> to_upper s = s"
  by (induction s rule: to_upper.induct) (auto dest: is_upper_neq_high)

subsection \<open>White space: \<open>strings.TrimSpace\<close>\<close>

text \<open>
  The runes \<open>unicode.IsSpace\<close> accepts, in UTF-8. A first byte of one of them is never a
  continuation byte, so stripping whole encodings from either end is what the rune loop does.
\<close>

definition space_runes :: "string list" where
  "space_runes =
     [[CHR 0x09], [CHR 0x0A], [CHR 0x0B], [CHR 0x0C], [CHR 0x0D], [CHR 0x20],
      [CHR 0xC2, CHR 0x85], [CHR 0xC2, CHR 0xA0], [CHR 0xE1, CHR 0x9A, CHR 0x80]]
     @ map (\<lambda>n. [CHR 0xE2, CHR 0x80, char_of (n :: nat)])
         [128, 129, 130, 131, 132, 133, 134, 135, 136, 137, 138, 168, 169, 175]
     @ [[CHR 0xE2, CHR 0x81, CHR 0x9F], [CHR 0xE3, CHR 0x80, CHR 0x80]]"

definition leading_space :: "string list \<Rightarrow> string \<Rightarrow> nat" where
  "leading_space ws s = (case filter (\<lambda>w. prefix w s) ws of [] \<Rightarrow> 0 | w # _ \<Rightarrow> length w)"

function strip_left :: "string list \<Rightarrow> string \<Rightarrow> string" where
  "strip_left ws s =
     (if leading_space ws s = 0 \<or> s = [] then s else strip_left ws (drop (leading_space ws s) s))"
  by pat_completeness auto
termination
  by (relation "measure (\<lambda>(ws, s). length s)") auto

declare strip_left.simps [simp del]

definition trim_space :: "string \<Rightarrow> string" where
  "trim_space s =
     rev (strip_left (map rev space_runes) (rev (strip_left space_runes s)))"

lemma strip_left_id: "leading_space ws s = 0 \<Longrightarrow> strip_left ws s = s"
  by (simp add: strip_left.simps)

lemma suffix_strip_left: "suffix (strip_left ws s) s"
proof (induction ws s rule: strip_left.induct)
  case (1 ws s)
  then show ?case
    by (subst strip_left.simps) (auto intro: suffix_order.trans suffix_drop)
qed

lemma sublist_trim_space: "sublist (trim_space s) s"
proof -
  let ?m = "strip_left space_runes s"
  have "suffix (strip_left (map rev space_runes) (rev ?m)) (rev ?m)"
    by (rule suffix_strip_left)
  then have "prefix (trim_space s) ?m"
    by (simp add: trim_space_def suffix_to_prefix)
  then show ?thesis
    by (meson prefix_imp_sublist suffix_imp_sublist sublist_order.order.trans suffix_strip_left)
qed

lemma set_trim_space: "set (trim_space s) \<subseteq> set s"
  by (rule set_mono_sublist [OF sublist_trim_space])

subsection \<open>Cutting and splitting\<close>

text \<open>\<open>strings.Cut\<close> at a one-byte separator, and \<open>strings.Split\<close> by one.\<close>

fun cut :: "char \<Rightarrow> string \<Rightarrow> string \<times> string \<times> bool" where
  "cut sep [] = ([], [], False)"
| "cut sep (c # s) =
     (if c = sep then ([], s, True)
      else (case cut sep s of (before, after, found) \<Rightarrow> (c # before, after, found)))"

fun split_on :: "char \<Rightarrow> string \<Rightarrow> string list" where
  "split_on sep [] = [[]]"
| "split_on sep (c # s) =
     (if c = sep then [] # split_on sep s
      else (case split_on sep s of [] \<Rightarrow> [[c]] | p # ps \<Rightarrow> (c # p) # ps))"

fun join :: "string \<Rightarrow> string list \<Rightarrow> string" where
  "join sep [] = []"
| "join sep [s] = s"
| "join sep (s # t # ss) = s @ sep @ join sep (t # ss)"

lemma split_on_nonempty [simp]: "split_on sep s \<noteq> []"
  by (induction s) (auto split: list.splits)

lemma join_split_on: "join [sep] (split_on sep s) = s"
proof (induction s)
  case (Cons c s)
  obtain p ps where ps: "split_on sep s = p # ps"
    by (metis list.exhaust split_on_nonempty)
  with Cons show ?case by (cases ps) auto
qed simp

lemma split_on_no_sep: "p \<in> set (split_on sep s) \<Longrightarrow> sep \<notin> set p"
proof (induction s arbitrary: p)
  case (Cons c s)
  then show ?case by (auto split: if_splits list.splits)
qed simp

lemma cut_found: "cut sep s = (b, a, True) \<Longrightarrow> s = b @ sep # a \<and> sep \<notin> set b"
proof (induction s arbitrary: b)
  case (Cons c s)
  obtain b' a' f where eq: "cut sep s = (b', a', f)" by (cases "cut sep s")
  with Cons show ?case by (cases "c = sep") auto
qed simp

lemma cut_not_found: "sep \<notin> set s \<Longrightarrow> cut sep s = (s, [], False)"
  by (induction s) auto

lemma cut_append: "sep \<notin> set b \<Longrightarrow> cut sep (b @ sep # a) = (b, a, True)"
  by (induction b) auto

subsection \<open>Searching\<close>

text \<open>\<open>strings.Contains\<close> is \<open>sublist\<close> of the library; \<open>strings.Index\<close>:\<close>

definition contains :: "string \<Rightarrow> string \<Rightarrow> bool" where
  "contains s needle = sublist needle s"

fun index_of :: "string \<Rightarrow> string \<Rightarrow> nat option" where
  "index_of [] needle = (if needle = [] then Some 0 else None)"
| "index_of (c # s) needle =
     (if prefix needle (c # s) then Some 0 else map_option Suc (index_of s needle))"

lemma index_of_Some:
  "index_of s needle = Some i \<Longrightarrow> i + length needle \<le> length s \<and> take (length needle) (drop i s) = needle"
proof (induction s arbitrary: i)
  case (Cons c s)
  show ?case
  proof (cases "prefix needle (c # s)")
    case True
    then show ?thesis using Cons.prems prefix_length_le [OF True]
      by (auto simp: prefix_def)
  next
    case False
    with Cons show ?thesis by auto
  qed
qed (auto split: if_splits)

lemma index_of_None: "index_of s needle = None \<longleftrightarrow> \<not> contains s needle"
  unfolding contains_def
  by (induction s) (auto simp: sublist_Cons_right)

subsection \<open>Little-endian numbers\<close>

fun le_bytes :: "nat \<Rightarrow> nat \<Rightarrow> bytes" where
  "le_bytes 0 n = []"
| "le_bytes (Suc k) n = char_of n # le_bytes k (n div 256)"

fun le_value :: "bytes \<Rightarrow> nat" where
  "le_value [] = 0"
| "le_value (b # bs) = byte_val b + 256 * le_value bs"

lemma length_le_bytes [simp]: "length (le_bytes k n) = k"
  by (induction k arbitrary: n) auto

lemma le_value_le_bytes: "le_value (le_bytes k n) = n mod 256 ^ k"
  by (induction k arbitrary: n) (auto simp: mod_mult2_eq)

lemma le_bytes_le_value: "le_bytes (length bs) (le_value bs) = bs"
proof (induction bs)
  case (Cons b bs)
  have "char_of (byte_val b + 256 * le_value bs) = (char_of (byte_val b) :: char)"
    by (metis char_of_mod_256 mod_mult_self2 mult.commute)
  moreover have "(byte_val b + 256 * le_value bs) div 256 = le_value bs"
    using nat_of_char_less_256 [of b] by simp
  ultimately show ?case using Cons by simp
qed simp

lemma le_value_bound: "le_value bs < 256 ^ length bs"
proof (induction bs)
  case (Cons b bs)
  then have "256 * le_value bs + 256 \<le> 256 * 256 ^ length bs" by simp
  with nat_of_char_less_256 [of b] have "byte_val b + 256 * le_value bs < 256 * 256 ^ length bs"
    by linarith
  then show ?case by simp
qed simp

subsection \<open>Binary search in a sorted table\<close>

text \<open>
  The halving loop over an index-addressed table, with the position as its result. The locale
  states what the table owes it, and what the loop then promises.
\<close>

function bsearch :: "(nat \<Rightarrow> 'k::linorder) \<Rightarrow> 'k \<Rightarrow> nat \<Rightarrow> nat \<Rightarrow> nat option" where
  "bsearch key k low high =
     (if low < high then
        (let mid = (low + high) div 2
         in if key mid < k then bsearch key k (mid + 1) high
            else if key mid > k then bsearch key k low mid
            else Some mid)
      else None)"
  by pat_completeness auto
termination
  by (relation "measure (\<lambda>(key, k, low, high). high - low)") auto

declare bsearch.simps [simp del]

lemma bsearch_empty: "\<not> low < high \<Longrightarrow> bsearch key k low high = None"
  by (simp add: bsearch.simps)

lemma bsearch_right: "low < high \<Longrightarrow> key ((low + high) div 2) < k \<Longrightarrow>
    bsearch key k low high = bsearch key k ((low + high) div 2 + 1) high"
  by (subst bsearch.simps) (simp add: Let_def)

lemma bsearch_left: "low < high \<Longrightarrow> k < key ((low + high) div 2) \<Longrightarrow>
    bsearch key k low high = bsearch key k low ((low + high) div 2)"
  by (subst bsearch.simps) (auto simp: Let_def)

lemma bsearch_hit: "low < high \<Longrightarrow> key ((low + high) div 2) = k \<Longrightarrow>
    bsearch key k low high = Some ((low + high) div 2)"
  by (subst bsearch.simps) (simp add: Let_def)

lemmas bsearch_steps = bsearch_empty bsearch_right bsearch_left bsearch_hit

lemma bsearch_sound:
  "bsearch key k low high = Some i \<Longrightarrow> low \<le> i \<and> i < high \<and> key i = k"
proof (induction key k low high rule: bsearch.induct)
  case (1 key k low high)
  from "1.prems" have lh: "low < high" by (cases "low < high") (simp_all add: bsearch_empty)
  consider "key ((low + high) div 2) < k" | "k < key ((low + high) div 2)"
    | "key ((low + high) div 2) = k" by fastforce
  then show ?case
  proof cases
    case 1
    with "1.IH"(1) [OF lh refl] "1.prems" lh show ?thesis by (auto simp: bsearch_right)
  next
    case 2
    then have "\<not> key ((low + high) div 2) < k" by simp
    with 2 "1.IH"(2) [OF lh refl] "1.prems" lh show ?thesis by (auto simp: bsearch_left)
  next
    case 3
    with "1.prems" lh show ?thesis by (auto simp: bsearch_hit)
  qed
qed

locale sorted_table =
  fixes key :: "nat \<Rightarrow> 'k::linorder" and size_of :: nat
  assumes ascending: "i < j \<Longrightarrow> j < size_of \<Longrightarrow> key i < key j"
begin

lemma bsearch_complete_range:
  "low \<le> i \<Longrightarrow> i < high \<Longrightarrow> high \<le> size_of \<Longrightarrow> bsearch key (key i) low high = Some i"
proof (induction "high - low" arbitrary: low high rule: less_induct)
  case less
  let ?mid = "(low + high) div 2"
  from less.prems have lh: "low < high" by simp
  consider "?mid < i" | "?mid = i" | "i < ?mid" by (rule linorder_cases)
  then show ?case
  proof cases
    case 1
    with less.prems have "key ?mid < key i" by (intro ascending) auto
    moreover from 1 lh less.prems have "bsearch key (key i) (?mid + 1) high = Some i"
      by (intro less.hyps) auto
    ultimately show ?thesis using lh by (simp add: bsearch_right)
  next
    case 2
    with lh show ?thesis by (simp add: bsearch_hit)
  next
    case 3
    with less.prems have "key i < key ?mid" by (intro ascending) auto
    moreover from 3 lh less.prems have "bsearch key (key i) low ?mid = Some i"
      by (intro less.hyps) auto
    ultimately show ?thesis using lh by (simp add: bsearch_left)
  qed
qed

lemma bsearch_iff: "bsearch key k 0 size_of = Some i \<longleftrightarrow> i < size_of \<and> key i = k"
  using bsearch_sound [of key k 0 size_of i] bsearch_complete_range [of 0 i size_of] by auto

lemma bsearch_none: "bsearch key k 0 size_of = None \<longleftrightarrow> (\<forall>i < size_of. key i \<noteq> k)"
proof (cases "bsearch key k 0 size_of")
  case None
  have "key i \<noteq> k" if "i < size_of" for i
    using that bsearch_iff [of k i] None by simp
  with None show ?thesis by simp
next
  case (Some j)
  then show ?thesis using bsearch_iff [of k j] by auto
qed

end

text \<open>Neighbouring keys in order: the check that is cheap to evaluate.\<close>

fun ascending :: "'a::linorder list \<Rightarrow> bool" where
  "ascending (x # y # zs) \<longleftrightarrow> x < y \<and> ascending (y # zs)"
| "ascending _ \<longleftrightarrow> True"

lemma ascending_sorted_wrt: "ascending xs \<Longrightarrow> sorted_wrt (<) xs"
proof (induction xs rule: ascending.induct)
  case (1 x y zs)
  then show ?case by (auto dest: order.strict_trans)
qed auto

subsection \<open>Maps and lists\<close>

lemma take_prefix_append: "prefix (take n xs) xs"
  by (rule take_is_prefix)

lemma take_drop_sublist: "sublist (take n (drop m xs)) xs"
  by (metis sublist_drop sublist_order.order.trans sublist_take)

subsection \<open>Lists with one entry per key\<close>

text \<open>
  A list that is updated in place: an entry replaces the one with its key, where there is one, and
  is appended otherwise.
\<close>

locale keyed_update =
  fixes key :: "'h \<Rightarrow> 'k" and upd :: "'h list \<Rightarrow> 'h \<Rightarrow> 'h list"
  assumes upd_fresh: "key h \<notin> key ` set hs \<Longrightarrow> upd hs h = hs @ [h]"
    and upd_known: "key g = key h \<Longrightarrow> key h \<notin> key ` set xs \<Longrightarrow> upd (xs @ g # ys) h = xs @ h # ys"
begin

definition held :: "'h list \<Rightarrow> 'k \<Rightarrow> 'h option" where
  "held hs k = find (\<lambda>h. key h = k) hs"

lemma known_split:
  assumes "key h \<in> key ` set hs"
  obtains xs g ys where "hs = xs @ g # ys" "key g = key h" "key h \<notin> key ` set xs"
proof -
  from assms have "\<exists>g \<in> set hs. key g = key h" by auto
  from split_list_first_prop [OF this] show thesis using that by fastforce
qed

lemma held_append: "held (xs @ ys) k = (case held xs k of None \<Rightarrow> held ys k | Some h \<Rightarrow> Some h)"
  by (induction xs) (auto simp: held_def)

lemma held_None: "held hs k = None \<longleftrightarrow> k \<notin> key ` set hs"
  by (auto simp: held_def find_None_iff)

lemma held_Cons: "held (h # hs) k = (if k = key h then Some h else held hs k)"
  by (simp add: held_def)

lemma held_upd: "held (upd hs h) k = (if k = key h then Some h else held hs k)"
proof (cases "key h \<in> key ` set hs")
  case True
  then obtain xs g ys where hs: "hs = xs @ g # ys" "key g = key h" "key h \<notin> key ` set xs"
    by (rule known_split)
  then have "held xs (key h) = None" by (simp add: held_None)
  then show ?thesis using hs
    by (auto simp: upd_known held_append held_Cons split: option.splits)
next
  case False
  moreover have "held [h] k = (if k = key h then Some h else None)" by (simp add: held_def)
  ultimately show ?thesis
    using held_None[of hs "key h"] by (auto simp: upd_fresh held_append split: option.splits)
qed

lemma keys_upd:
  "map key (upd hs h) = (if key h \<in> key ` set hs then map key hs else map key hs @ [key h])"
proof (cases "key h \<in> key ` set hs")
  case True
  then obtain xs g ys where "hs = xs @ g # ys" "key g = key h" "key h \<notin> key ` set xs"
    by (rule known_split)
  with True show ?thesis by (simp add: upd_known)
qed (simp add: upd_fresh)

lemma held_foldl:
  "held (foldl upd hs new) k = (case held (rev new) k of None \<Rightarrow> held hs k | Some h \<Rightarrow> Some h)"
proof (induction new rule: rev_induct)
  case Nil
  then show ?case by (simp add: held_def)
next
  case (snoc h new)
  then show ?case by (simp add: held_upd held_Cons split: option.splits)
qed

lemma keys_foldl_distinct: "distinct (map key hs) \<Longrightarrow> distinct (map key (foldl upd hs new))"
proof (induction new arbitrary: hs)
  case (Cons h new)
  then show ?case by (simp add: keys_upd)
qed simp

lemma keys_foldl: "map key (foldl upd [] new) = rev (remdups (rev (map key new)))"
proof (induction new rule: rev_induct)
  case (snoc h new)
  have "key ` set (foldl upd [] new) = set (map key (foldl upd [] new))" by simp
  also have "\<dots> = set (map key new)" by (simp add: snoc.IH)
  finally show ?case by (auto simp: keys_upd snoc.IH)
qed simp

end

subsection \<open>Fields\<close>

text \<open>\<open>strings.FieldsFunc\<close>: the maximal runs of token characters.\<close>

function fields_of :: "(char \<Rightarrow> bool) \<Rightarrow> string \<Rightarrow> string list" where
  "fields_of tok s =
     (let s1 = dropWhile (\<lambda>c. \<not> tok c) s
      in if s1 = [] then [] else takeWhile tok s1 # fields_of tok (dropWhile tok s1))"
  by pat_completeness auto
termination
proof (relation "measure (\<lambda>(tok, s). length s)")
  fix tok s and x :: string
  assume x: "x = dropWhile (\<lambda>c. \<not> tok c) s" "x \<noteq> []"
  then have "tok (hd x)" using hd_dropWhile[of "\<lambda>c. \<not> tok c" s] by auto
  then have "length (dropWhile tok x) < length x"
    using x(2) by (cases x) (auto simp: le_imp_less_Suc length_dropWhile_le)
  also have "length x \<le> length s" using x(1) by (simp add: length_dropWhile_le)
  finally show "((tok, dropWhile tok x), (tok, s)) \<in> measure (\<lambda>(tok, s). length s)" by simp
qed simp

declare fields_of.simps [simp del]

lemma dropWhile_id: "s = [] \<or> \<not> P (hd s) \<Longrightarrow> dropWhile P s = s"
  by (cases s) auto

lemma fields_of_empty: "\<forall>c \<in> set s. \<not> tok c \<Longrightarrow> fields_of tok s = []"
  by (subst fields_of.simps) (simp add: dropWhile_eq_Nil_conv)

lemma fields_of_token:
  assumes "t \<noteq> []" "\<forall>c \<in> set t. tok c" "post = [] \<or> \<not> tok (hd post)"
  shows "fields_of tok (t @ post) = t # fields_of tok post"
proof -
  have d: "dropWhile (\<lambda>c. \<not> tok c) (t @ post) = t @ post"
    using assms(1,2) by (intro dropWhile_id) auto
  have "takeWhile tok (t @ post) = t" "dropWhile tok (t @ post) = post"
    using assms(2,3) by (cases post; simp add: takeWhile_append dropWhile_append)+
  then show ?thesis using assms(1) by (subst fields_of.simps) (simp add: d Let_def)
qed

lemma fields_of_after:
  assumes "pre = [] \<or> \<not> tok (last pre)"
  shows "set (fields_of tok s) \<subseteq> set (fields_of tok (pre @ s))"
  using assms
proof (induction "length pre" arbitrary: pre rule: less_induct)
  case less
  show ?case
  proof (cases "pre = []")
    case False
    then obtain c cs where pre: "pre = c # cs" by (cases pre) auto
    show ?thesis
    proof (cases "tok c")
      case False
      have "fields_of tok (pre @ s) = fields_of tok (cs @ s)"
        using False pre by (subst (1 2) fields_of.simps) simp
      moreover have "cs = [] \<or> \<not> tok (last cs)"
        using less.prems pre by (cases "cs = []") auto
      ultimately show ?thesis using less.hyps[of cs] pre by simp
    next
      case True
      let ?t = "takeWhile tok pre" and ?d = "dropWhile tok pre"
      have ne: "?d \<noteq> []"
      proof
        assume "?d = []"
        then have "\<forall>x \<in> set pre. tok x" by (simp add: dropWhile_eq_Nil_conv)
        then show False using less.prems pre last_in_set[of pre] by (metis list.discI)
      qed
      have e: "pre @ s = ?t @ (?d @ s)" by (metis append.assoc takeWhile_dropWhile_id)
      have f: "fields_of tok (?t @ (?d @ s)) = ?t # fields_of tok (?d @ s)"
      proof (rule fields_of_token)
        show "?t \<noteq> []" using True pre by simp
        show "\<forall>c \<in> set ?t. tok c" by (auto dest: set_takeWhileD)
        show "?d @ s = [] \<or> \<not> tok (hd (?d @ s))" using ne hd_dropWhile[OF ne] by simp
      qed
      have "fields_of tok (pre @ s) = ?t # fields_of tok (?d @ s)"
        by (rule trans[OF arg_cong[OF e, of "fields_of tok"] f])
      moreover have "length ?d < length pre"
        using True pre by (simp add: le_imp_less_Suc length_dropWhile_le)
      moreover have "?d = [] \<or> \<not> tok (last ?d)"
        using less.prems pre ne by (metis last_appendR list.discI takeWhile_dropWhile_id)
      ultimately show ?thesis using less.hyps[of ?d] by auto
    qed
  qed simp
qed

end
