(* ===== verification/Regions.thy ===== *)
theory Regions
  imports Go_Prelude
begin

text \<open>
  \<open>core/region.go\<close>: the packed ISO 3166 table, the binary search over it and
  \<open>normalizeRegion\<close>, which folds a country code to the two-letter form the host draws a flag
  from. The lemmas show the packed table is sorted, so that the search is the lookup in the table
  read as an association list, and that every answer is empty or two capital letters.
\<close>

subsection \<open>The table\<close>

definition iso3166_packed :: string where
  "iso3166_packed =
   ''ABWAWAFGAFAGOAOAIAAIALAAXALBALANDADAREAEARGARARMAMASMASATAAQ'' @
   ''ATFTFATGAGAUSAUAUTATAZEAZBDIBIBELBEBENBJBESBQBFABFBGDBDBGRBG'' @
   ''BHRBHBHSBSBIHBABLMBLBLRBYBLZBZBMUBMBOLBOBRABRBRBBBBRNBNBTNBT'' @
   ''BVTBVBWABWCAFCFCANCACCKCCCHECHCHLCLCHNCNCIVCICMRCMCODCDCOGCG'' @
   ''COKCKCOLCOCOMKMCPVCVCRICRCUBCUCUWCWCXRCXCYMKYCYPCYCZECZDEUDE'' @
   ''DJIDJDMADMDNKDKDOMDODZADZECUECEGYEGERIERESHEHESPESESTEEETHET'' @
   ''FINFIFJIFJFLKFKFRAFRFROFOFSMFMGABGAGBRGBGEOGEGGYGGGHAGHGIBGI'' @
   ''GINGNGLPGPGMBGMGNBGWGNQGQGRCGRGRDGDGRLGLGTMGTGUFGFGUMGUGUYGY'' @
   ''HKGHKHMDHMHNDHNHRVHRHTIHTHUNHUIDNIDIMNIMINDINIOTIOIRLIEIRNIR'' @
   ''IRQIQISLISISRILITAITJAMJMJEYJEJORJOJPNJPKAZKZKENKEKGZKGKHMKH'' @
   ''KIRKIKNAKNKORKRKWTKWLAOLALBNLBLBRLRLBYLYLCALCLIELILKALKLSOLS'' @
   ''LTULTLUXLULVALVMACMOMAFMFMARMAMCOMCMDAMDMDGMGMDVMVMEXMXMHLMH'' @
   ''MKDMKMLIMLMLTMTMMRMMMNEMEMNGMNMNPMPMOZMZMRTMRMSRMSMTQMQMUSMU'' @
   ''MWIMWMYSMYMYTYTNAMNANCLNCNERNENFKNFNGANGNICNINIUNUNLDNLNORNO'' @
   ''NPLNPNRUNRNZLNZOMNOMPAKPKPANPAPCNPNPERPEPHLPHPLWPWPNGPGPOLPL'' @
   ''PRIPRPRKKPPRTPTPRYPYPSEPSPYFPFQATQAREUREROURORUSRURWARWSAUSA'' @
   ''SDNSDSENSNSGPSGSGSGSSHNSHSJMSJSLBSBSLESLSLVSVSMRSMSOMSOSPMPM'' @
   ''SRBRSSSDSSSTPSTSURSRSVKSKSVNSISWESESWZSZSXMSXSYCSCSYRSYTCATC'' @
   ''TCDTDTGOTGTHATHTJKTJTKLTKTKMTMTLSTLTONTOTTOTTTUNTNTURTRTUVTV'' @
   ''TWNTWTZATZUGAUGUKRUAUMIUMURYUYUSAUSUZBUZVATVAVCTVCVENVEVGBVG'' @
   ''VIRVIVNMVNVUTVUWLFWFWSMWSYEMYEZAFZAZMBZMZWEZW''"

definition is_ascii_upper :: "string \<Rightarrow> bool" where
  "is_ascii_upper value \<longleftrightarrow> list_all is_upper value"

definition region_entry :: "nat \<Rightarrow> string" where
  "region_entry mid = take 3 (drop (mid * 5) iso3166_packed)"

definition region_alpha2 :: "nat \<Rightarrow> string" where
  "region_alpha2 mid = take 2 (drop (mid * 5 + 3) iso3166_packed)"

subsection \<open>The search and the normaliser\<close>

function region_search :: "string \<Rightarrow> nat \<Rightarrow> nat \<Rightarrow> string" where
  "region_search code low high =
     (if low < high then
        (let mid = (low + high) div 2; entry = region_entry mid
         in if entry < code then region_search code (mid + 1) high
            else if entry > code then region_search code low mid
            else region_alpha2 mid)
      else [])"
  by pat_completeness auto
termination
  by (relation "measure (\<lambda>(code, low, high). high - low)") auto

declare region_search.simps [simp del]

definition normalize_region :: "string \<Rightarrow> string" where
  "normalize_region code0 =
     (let code = to_upper (trim_space code0)
      in if length code = 2 then (if is_ascii_upper code then code else [])
         else if length code = 3 then
           (if \<not> is_ascii_upper code then []
            else region_search code 0 (length iso3166_packed div 5))
         else [])"

subsection \<open>The table as an association list\<close>

fun unpack :: "string \<Rightarrow> (string \<times> string) list" where
  "unpack (a # b # c # d # e # s) = ([a, b, c], [d, e]) # unpack s"
| "unpack _ = []"

definition region_table :: "(string \<times> string) list" where
  "region_table = unpack iso3166_packed"

lemma unpack_length: "length s = 5 * n \<Longrightarrow> length (unpack s) = n"
proof (induction s arbitrary: n rule: unpack.induct)
  case (1 a b c d e s)
  then show ?case by (cases n) auto
qed auto

lemma unpack_nth: "length s = 5 * n \<Longrightarrow> i < n \<Longrightarrow>
   unpack s ! i = (take 3 (drop (i * 5) s), take 2 (drop (i * 5 + 3) s))"
proof (induction s arbitrary: n i rule: unpack.induct)
  case (1 a b c d e s)
  show ?case
  proof (cases i)
    case 0
    then show ?thesis by (simp add: numeral_3_eq_3 numeral_2_eq_2)
  next
    case (Suc j)
    from Suc 1 have "unpack s ! j = (take 3 (drop (j * 5) s), take 2 (drop (j * 5 + 3) s))"
      by (intro "1.IH" [of "n - 1"]) auto
    moreover have "drop (i * 5) (a # b # c # d # e # s) = drop (j * 5) s"
      "drop (i * 5 + 3) (a # b # c # d # e # s) = drop (j * 5 + 3) s"
      using Suc by (simp_all add: numeral_eq_Suc)
    ultimately show ?thesis using Suc by simp
  qed
qed auto

lemma packed_length: "length iso3166_packed = 5 * 249"
  unfolding iso3166_packed_def by simp

lemma table_ascending: "ascending (map fst region_table)"
  by code_simp

lemma table_upper: "\<forall>p \<in> set region_table. length (snd p) = 2 \<and> is_ascii_upper (snd p)"
  by code_simp


lemma region_entry_nth: "i < 249 \<Longrightarrow> region_table ! i = (region_entry i, region_alpha2 i)"
  using unpack_nth [OF packed_length] by (simp add: region_table_def region_entry_def region_alpha2_def)

lemma length_region_table: "length region_table = 249"
  by (simp add: region_table_def unpack_length [OF packed_length])

lemma region_entry_fst: "i < 249 \<Longrightarrow> region_entry i = map fst region_table ! i"
  by (simp add: region_entry_nth length_region_table)

interpretation iso: sorted_table region_entry 249
proof
  fix i j :: nat
  assume "i < j" "j < 249"
  then show "region_entry i < region_entry j"
    using sorted_wrt_nth_less [OF ascending_sorted_wrt [OF table_ascending], of i j]
    by (simp add: region_entry_fst length_region_table del: nth_map)
qed

subsection \<open>The search is the lookup\<close>

lemma region_search_bsearch:
  "region_search code low high =
     (case bsearch region_entry code low high of None \<Rightarrow> [] | Some i \<Rightarrow> region_alpha2 i)"
proof (induction code low high rule: region_search.induct)
  case (1 code low high)
  show ?case
    using "1.IH" by (subst region_search.simps, subst bsearch.simps) (auto simp: Let_def)
qed

lemma map_of_region_table:
  "map_of region_table code =
     (case bsearch region_entry code 0 249 of None \<Rightarrow> None | Some i \<Rightarrow> Some (region_alpha2 i))"
proof (cases "bsearch region_entry code 0 249")
  case None
  then have "\<forall>i < 249. fst (region_table ! i) \<noteq> code"
    using iso.bsearch_none by (simp add: region_entry_nth)
  then have "code \<notin> fst ` set region_table"
    by (force simp: in_set_conv_nth length_region_table)
  with None show ?thesis by (simp add: map_of_eq_None_iff)
next
  case (Some i)
  then have i: "i < 249" "region_entry i = code" using iso.bsearch_iff by auto
  have "distinct (map fst region_table)"
    using strict_sorted_iff table_ascending ascending_sorted_wrt by blast
  moreover have "(code, region_alpha2 i) \<in> set region_table"
    using i region_entry_nth [of i] nth_mem [of i region_table] by (simp add: length_region_table)
  ultimately show ?thesis using Some by simp
qed

definition normalize_region_spec :: "string \<Rightarrow> string option" where
  "normalize_region_spec code =
     (if \<not> list_all is_upper code then None
      else if length code = 2 then Some code
      else if length code = 3 then map_of region_table code
      else None)"

lemma normalize_region_is_lookup:
  "normalize_region code =
     (case normalize_region_spec (to_upper (trim_space code)) of None \<Rightarrow> [] | Some r \<Rightarrow> r)"
  by (simp add: normalize_region_def normalize_region_spec_def Let_def is_ascii_upper_def
      packed_length region_search_bsearch map_of_region_table split: option.splits)

lemma normalize_region_spec_Some:
  "normalize_region_spec c = Some r \<Longrightarrow> length r = 2 \<and> (\<forall>x \<in> set r. is_upper x)"
  using table_upper
  by (auto simp: normalize_region_spec_def is_ascii_upper_def list_all_iff split: if_splits
      dest!: map_of_SomeD)

lemma normalize_region_cases:
  "normalize_region code = [] \<or>
   length (normalize_region code) = 2 \<and> (\<forall>x \<in> set (normalize_region code). is_upper x)"
  using normalize_region_spec_Some
  by (fastforce simp: normalize_region_is_lookup split: option.splits)

text \<open>
  C1. \<open>normalizeRegion\<close> is the table lookup: on the trimmed, upper-cased code, a two-letter code is
  itself, a three-letter code is the value the ISO table read as an association list gives it,
  and everything else is the empty string. In particular the binary search loop terminates and
  finds every one of the 249 entries.
\<close>

theorem normalize_region_lookup:
  "normalize_region code =
     (case normalize_region_spec (to_upper (trim_space code)) of None \<Rightarrow> [] | Some r \<Rightarrow> r)"
  by (rule normalize_region_is_lookup)

end
