(* ===== verification/Ipc.thy ===== *)
theory Ipc
  imports Go_Prelude
begin

text \<open>
  \<open>core/server.go\<close>, the desktop transport: length-prefixed frames over one connection to the
  host. A connection is what its \<open>Write\<close> and \<open>SetWriteDeadline\<close> calls answer, an environment of
  the model, and the bytes it has accepted, the wire. Loops that wait for the peer may not return
  at all, so writing is in the option type: None is a call that never comes back.

  The lemmas show that the number a writer reports is what it put on the wire, that a frame is
  read back as it was written, and that the connection the core keeps after a send always carries
  whole frames.
\<close>

subsection \<open>Connections\<close>

datatype write_err = ErrTimeout | ErrShortWrite | ErrFrameSize | ErrConn string

text \<open>
  What call number \<open>k\<close> of \<open>Write\<close> answers (how many bytes it would take and its error), and
  whether call number \<open>k\<close> of \<open>SetWriteDeadline\<close> succeeds. The contract of \<open>io.Writer\<close> bounds the
  count by the length of the data.
\<close>

record ipc_env =
  writes :: "nat \<Rightarrow> nat \<times> write_err option"
  deadlines :: "nat \<Rightarrow> bool"

record sock =
  wire :: bytes
  write_calls :: nat
  deadline_calls :: nat
  written :: nat \<comment> \<open>\<open>resumingWriter.written\<close>\<close>

definition conn_write :: "ipc_env \<Rightarrow> bytes \<Rightarrow> sock \<Rightarrow> (nat \<times> write_err option) \<times> sock" where
  "conn_write env data s =
     (let n = min (fst (writes env (write_calls s))) (length data)
      in ((n, snd (writes env (write_calls s))),
          s\<lparr>wire := wire s @ take n data, write_calls := Suc (write_calls s)\<rparr>))"

definition set_write_deadline :: "ipc_env \<Rightarrow> sock \<Rightarrow> bool \<times> sock" where
  "set_write_deadline env s =
     (deadlines env (deadline_calls s), s\<lparr>deadline_calls := Suc (deadline_calls s)\<rparr>)"

subsection \<open>The resuming writer\<close>

definition is_write_timeout :: "write_err \<Rightarrow> bool" where
  "is_write_timeout e \<longleftrightarrow> e = ErrTimeout"

definition resume :: "ipc_env \<Rightarrow> write_err \<Rightarrow> sock \<Rightarrow> bool \<times> sock" where
  "resume env e s =
     (if written s = 0 \<or> \<not> is_write_timeout e then (False, s) else set_write_deadline env s)"

partial_function (option) resuming_loop ::
  "ipc_env \<Rightarrow> bytes \<Rightarrow> nat \<Rightarrow> sock \<Rightarrow> ((nat \<times> write_err option) \<times> sock) option" where
  "resuming_loop env data accepted s =
     (case conn_write env (drop accepted data) s of ((n, e), s1) \<Rightarrow>
        (case e of
           None \<Rightarrow> Some ((accepted + n, None), s1\<lparr>written := written s1 + n\<rparr>)
         | Some err \<Rightarrow>
             if accepted + n \<ge> length data
             then Some ((accepted + n, Some err), s1\<lparr>written := written s1 + n\<rparr>)
             else (case resume env err (s1\<lparr>written := written s1 + n\<rparr>) of (again, s3) \<Rightarrow>
                     if again then resuming_loop env data (accepted + n) s3
                     else Some ((accepted + n, Some err), s3))))"

definition resuming_write ::
  "ipc_env \<Rightarrow> bytes \<Rightarrow> sock \<Rightarrow> ((nat \<times> write_err option) \<times> sock) option" where
  "resuming_write env data s = resuming_loop env data 0 s"

subsection \<open>Frames\<close>

definition max_ipc_frame_size :: nat where
  "max_ipc_frame_size = 64 * 1024 * 1024"

text \<open>\<open>writeAll\<close> works over any writer \<open>w\<close>.\<close>

partial_function (option) write_all ::
  "(bytes \<Rightarrow> 's \<Rightarrow> ((nat \<times> write_err option) \<times> 's) option) \<Rightarrow> bytes \<Rightarrow> nat \<Rightarrow> 's
   \<Rightarrow> ((nat \<times> write_err option) \<times> 's) option" where
  "write_all w data done_bytes s =
     (if data = [] then Some ((done_bytes, None), s)
      else (case w data s of
          None \<Rightarrow> None
        | Some ((n, e), s1) \<Rightarrow>
            (case e of
               Some err \<Rightarrow> Some ((done_bytes + n, Some err), s1)
             | None \<Rightarrow>
                 if n = 0 then Some ((done_bytes + n, Some ErrShortWrite), s1)
                 else write_all w (drop n data) (done_bytes + n) s1)))"

text \<open>\<open>binary.LittleEndian\<close> on four bytes.\<close>

definition put_uint32 :: "nat \<Rightarrow> bytes" where
  "put_uint32 n = le_bytes 4 n"

definition get_uint32 :: "bytes \<Rightarrow> nat" where
  "get_uint32 bs = le_value bs"

definition write_frame ::
  "(bytes \<Rightarrow> 's \<Rightarrow> ((nat \<times> write_err option) \<times> 's) option) \<Rightarrow> bytes \<Rightarrow> 's
   \<Rightarrow> ((nat \<times> write_err option) \<times> 's) option" where
  "write_frame w data s =
     (if length data > max_ipc_frame_size then Some ((0, Some ErrFrameSize), s)
      else (case write_all w (put_uint32 (length data)) 0 s of
          None \<Rightarrow> None
        | Some ((n, e), s1) \<Rightarrow>
            (case e of
               Some err \<Rightarrow> Some ((n, Some err), s1)
             | None \<Rightarrow>
                 (case write_all w data 0 s1 of
                    None \<Rightarrow> None
                  | Some ((m, e2), s2) \<Rightarrow> Some ((n + m, e2), s2)))))"

datatype read_err = ReadEOF | ReadUnexpectedEOF | ReadFrameSize

text \<open>\<open>io.ReadFull\<close> of \<open>n\<close> bytes from what the peer sent before it closed.\<close>

definition read_full :: "nat \<Rightarrow> bytes \<Rightarrow> read_err + bytes \<times> bytes" where
  "read_full n input =
     (if n \<le> length input then Inr (take n input, drop n input)
      else if input = [] then Inl ReadEOF
      else Inl ReadUnexpectedEOF)"

definition read_frame :: "bytes \<Rightarrow> read_err + bytes \<times> bytes" where
  "read_frame input =
     (case read_full 4 input of
        Inl e \<Rightarrow> Inl e
      | Inr (len_buf, rest) \<Rightarrow>
          (let len = get_uint32 len_buf
           in if len > max_ipc_frame_size then Inl ReadFrameSize else read_full len rest))"

subsection \<open>Sending\<close>

text \<open>
  The transport's variables: \<open>conn\<close>, the connections by number, which of them are closed, and
  \<open>deliveryFailureReported\<close>, with the number of lines \<open>logDeliveryError\<close> put on standard error.
\<close>

record transport =
  conn :: "nat option"
  socks :: "nat \<Rightarrow> sock"
  closed :: "nat set"
  failure_reported :: bool
  reports :: nat

definition log_delivery_error :: "transport \<Rightarrow> transport" where
  "log_delivery_error t =
     (if failure_reported t then t
      else t\<lparr>failure_reported := True, reports := Suc (reports t)\<rparr>)"

text \<open>
  \<open>send\<close> holds \<open>writeMu\<close>, but \<open>connMu\<close> only while it reads or clears \<open>conn\<close>, so \<open>serve\<close> may change
  \<open>conn\<close> while the frame is written: that is the argument \<open>meanwhile\<close>.
\<close>

definition after_write :: "nat \<Rightarrow> nat \<Rightarrow> write_err option \<Rightarrow> sock
   \<Rightarrow> (nat option \<Rightarrow> nat option) \<Rightarrow> transport \<Rightarrow> transport" where
  "after_write c n e s1 meanwhile t0 =
     (let t1 = t0\<lparr>socks := (socks t0)(c := s1), conn := meanwhile (conn t0)\<rparr>
      in case e of
           None \<Rightarrow> t1\<lparr>failure_reported := False\<rparr>
         | Some _ \<Rightarrow>
             if n = 0 then log_delivery_error t1
             else (let t2 = log_delivery_error t1;
                       t3 = (if conn t2 = Some c then t2\<lparr>conn := None\<rparr> else t2)
                   in t3\<lparr>closed := insert c (closed t3)\<rparr>))"

definition send :: "(nat \<Rightarrow> ipc_env) \<Rightarrow> (nat option \<Rightarrow> nat option) \<Rightarrow> bytes \<Rightarrow> transport
   \<Rightarrow> transport option" where
  "send env meanwhile data t =
     (case conn t of
        None \<Rightarrow> Some (log_delivery_error t)
      | Some c \<Rightarrow>
          (case set_write_deadline (env c) (socks t c) of (armed, s0) \<Rightarrow>
             (case write_frame (resuming_write (env c)) data (s0\<lparr>written := 0\<rparr>) of
                None \<Rightarrow> None
              | Some ((n, e), s1) \<Rightarrow>
                  Some (after_write c n e s1 meanwhile
                    (if armed then t else log_delivery_error t)))))"

subsection \<open>Serving\<close>

text \<open>
  The read loop of \<open>serve\<close>: each frame is decoded (\<open>json.Unmarshal\<close> into a \<open>MethodCall\<close> is the
  argument \<open>decode\<close>) and dispatched; a frame that does not decode is skipped; the first read error
  ends the loop.
\<close>

lemma read_frame_shorter: "read_frame input = Inr (data, rest) \<Longrightarrow> length rest < length input"
  by (auto simp: read_frame_def read_full_def Let_def split: sum.splits if_splits)

function serve_loop :: "(bytes \<Rightarrow> 'c option) \<Rightarrow> bytes \<Rightarrow> 'c list \<times> read_err" where
  "serve_loop decode input =
     (case read_frame input of
        Inl e \<Rightarrow> ([], e)
      | Inr (data, rest) \<Rightarrow>
          (let (calls, e) = serve_loop decode rest
           in case decode data of None \<Rightarrow> (calls, e) | Some call \<Rightarrow> (call # calls, e)))"
  by pat_completeness auto
termination
  by (relation "measure (\<lambda>(decode, input). length input)") (auto simp: read_frame_shorter)

declare serve_loop.simps [simp del]

definition serve_start :: "nat \<Rightarrow> transport \<Rightarrow> transport" where
  "serve_start dialed t = t\<lparr>conn := Some dialed, failure_reported := False\<rparr>"

definition serve_end :: "transport \<Rightarrow> transport" where
  "serve_end t =
     (case conn t of
        None \<Rightarrow> t
      | Some c \<Rightarrow> t\<lparr>conn := None, closed := insert c (closed t)\<rparr>)"

subsection \<open>Frames are read back\<close>

definition frame :: "bytes \<Rightarrow> bytes" where
  "frame data = put_uint32 (length data) @ data"

lemma length_put_uint32 [simp]: "length (put_uint32 n) = 4"
  by (simp add: put_uint32_def)

lemma get_put_uint32: "n < 2 ^ 32 \<Longrightarrow> get_uint32 (put_uint32 n) = n"
  by (simp add: get_uint32_def put_uint32_def le_value_le_bytes)

lemma put_get_uint32: "length bs = 4 \<Longrightarrow> put_uint32 (get_uint32 bs) = bs"
  using le_bytes_le_value [of bs] by (simp add: get_uint32_def put_uint32_def)

lemma length_frame [simp]: "length (frame data) = 4 + length data"
  by (simp add: frame_def)

lemma read_frame_frame:
  "length data \<le> max_ipc_frame_size \<Longrightarrow> read_frame (frame data @ rest) = Inr (data, rest)"
  by (simp add: read_frame_def read_full_def frame_def get_put_uint32 max_ipc_frame_size_def)

lemma read_frame_Inr:
  "read_frame input = Inr (data, rest) \<longleftrightarrow>
     input = frame data @ rest \<and> length data \<le> max_ipc_frame_size"
proof
  assume *: "read_frame input = Inr (data, rest)"
  then have len: "4 \<le> length input"
    by (auto simp: read_frame_def read_full_def split: if_splits)
  let ?n = "get_uint32 (take 4 input)"
  from * len have n: "?n \<le> max_ipc_frame_size" "?n \<le> length input - 4"
    "data = take ?n (drop 4 input)" "rest = drop ?n (drop 4 input)"
    by (auto simp: read_frame_def read_full_def Let_def split: if_splits)
  have "put_uint32 ?n = take 4 input" using len by (simp add: put_get_uint32)
  moreover have "length data = ?n" using n by simp
  ultimately have "frame data = take 4 input @ data" by (simp add: frame_def)
  moreover have "data @ rest = drop 4 input" using n(3,4) by (simp only: append_take_drop_id)
  ultimately show "input = frame data @ rest \<and> length data \<le> max_ipc_frame_size"
    using n \<open>length data = ?n\<close> by (metis append.assoc append_take_drop_id)
qed (auto intro: read_frame_frame)

fun frames :: "bytes list \<Rightarrow> bytes" where
  "frames [] = []"
| "frames (d # ds) = frame d @ frames ds"

lemma frames_append [simp]: "frames (xs @ ys) = frames xs @ frames ys"
  by (induction xs) auto

lemma serve_loop_frames:
  "\<forall>d \<in> set ds. length d \<le> max_ipc_frame_size \<Longrightarrow>
   serve_loop decode (frames ds) = (List.map_filter decode ds, ReadEOF)"
proof (induction ds)
  case Nil
  show ?case by (simp add: serve_loop.simps read_frame_def read_full_def)
next
  case (Cons d ds)
  then show ?case
    by (subst serve_loop.simps) (auto simp: read_frame_frame map_filter_simps split: option.splits)
qed

locale byte_writer =
  fixes w :: "bytes \<Rightarrow> 's \<Rightarrow> ((nat \<times> write_err option) \<times> 's) option"
    and out :: "'s \<Rightarrow> bytes"
  assumes accepts: "w data s = Some ((n, e), s') \<Longrightarrow> n \<le> length data \<and> out s' = out s @ take n data"
begin

lemma write_all_accepts:
  "write_all w data k s = Some ((n, e), s') \<Longrightarrow>
   \<exists>m. n = k + m \<and> m \<le> length data \<and> out s' = out s @ take m data \<and> (e = None \<longrightarrow> m = length data)"
proof (induction data arbitrary: k s rule: length_induct)
  case (1 data)
  show ?case
  proof (cases "data = []")
    case True
    with 1 show ?thesis by (auto simp: write_all.simps)
  next
    case False
    with "1.prems" obtain a e1 s1 where w: "w data s = Some ((a, e1), s1)"
      by (subst (asm) write_all.simps) (auto split: option.splits)
    from accepts [OF w] have a: "a \<le> length data" "out s1 = out s @ take a data" by auto
    show ?thesis
    proof (cases "e1 = None \<and> a \<noteq> 0")
      case True
      with "1.prems" False w have "write_all w (drop a data) (k + a) s1 = Some ((n, e), s')"
        by (subst (asm) write_all.simps) auto
      moreover have "length (drop a data) < length data" using True a by auto
      ultimately obtain m where m: "n = k + a + m" "m \<le> length (drop a data)"
        "out s' = out s1 @ take m (drop a data)" "e = None \<longrightarrow> m = length (drop a data)"
        using 1(1) by blast
      then have "out s' = out s @ take (a + m) data" using a by (simp add: take_add)
      with m a show ?thesis by (intro exI [of _ "a + m"]) auto
    next
      case notall: False
      with "1.prems" False w have "n = k + a \<and> s' = s1 \<and> e \<noteq> None"
        by (subst (asm) write_all.simps) (auto split: option.splits if_splits)
      with a show ?thesis by auto
    qed
  qed
qed

lemma write_frame_accepts:
  "write_frame w data s = Some ((n, e), s') \<Longrightarrow>
   n \<le> length (frame data) \<and> out s' = out s @ take n (frame data) \<and>
   (e = None \<longrightarrow> n = length (frame data) \<and> length data \<le> max_ipc_frame_size)"
proof (cases "length data > max_ipc_frame_size")
  case False
  assume wf: "write_frame w data s = Some ((n, e), s')"
  with False obtain k e1 s1 where
    hd: "write_all w (put_uint32 (length data)) 0 s = Some ((k, e1), s1)"
    by (auto simp: write_frame_def split: option.splits)
  from write_all_accepts [OF hd] have k: "k \<le> 4" "out s1 = out s @ take k (put_uint32 (length data))"
    "e1 = None \<longrightarrow> k = 4" by (auto simp: put_uint32_def)
  show ?thesis
  proof (cases e1)
    case (Some err)
    with wf hd False have "n = k \<and> s' = s1 \<and> e = Some err" by (auto simp: write_frame_def)
    with k show ?thesis by (simp add: frame_def put_uint32_def)
  next
    case None
    with wf hd False obtain m where
      "write_all w data 0 s1 = Some ((m, e), s')" "n = 4 + m"
      using k by (auto simp: write_frame_def split: option.splits)
    with write_all_accepts [OF this(1)] k None False show ?thesis
      by (auto simp: frame_def put_uint32_def)
  qed
qed (auto simp: write_frame_def)

end

subsection \<open>The resuming writer puts on the wire what it reports\<close>

lemma resume_wire: "resume env e s = (again, s') \<Longrightarrow> wire s' = wire s \<and> written s' = written s"
  by (auto simp: resume_def set_write_deadline_def split: if_splits)

lemma resuming_loop_wire:
  assumes ret: "resuming_loop env data accepted s = Some ((n, e), s')"
    and "accepted \<le> length data"
  shows "accepted \<le> n \<and> n \<le> length data \<and>
    wire s' = wire s @ take (n - accepted) (drop accepted data)"
proof -
  have "accepted \<le> length data \<longrightarrow> (case r of ((n, e), s') \<Rightarrow> accepted \<le> n \<and> n \<le> length data \<and>
      wire s' = wire s @ take (n - accepted) (drop accepted data))"
    if "resuming_loop env data accepted s = Some r" for r
  proof (rule resuming_loop.raw_induct [OF _ that, where
      P = "\<lambda>env data accepted s r. accepted \<le> length data \<longrightarrow>
        (case r of ((n, e), s') \<Rightarrow> accepted \<le> n \<and> n \<le> length data \<and>
          wire s' = wire s @ take (n - accepted) (drop accepted data))"], goal_cases)
    case (1 loop env data acc s r)
    note IH = 1(1) and eq = 1(2)
    obtain a e1 s1 where w: "conn_write env (drop acc data) s = ((a, e1), s1)"
      by (metis prod.exhaust)
    then have a: "a \<le> length data - acc" "wire s1 = wire s @ take a (drop acc data)"
      by (auto simp: conn_write_def Let_def)
    show ?case
    proof (intro impI)
      assume acc: "acc \<le> length data"
      let ?s2 = "s1\<lparr>written := written s1 + a\<rparr>"
      show "case r of ((n, e), s') \<Rightarrow> acc \<le> n \<and> n \<le> length data \<and>
          wire s' = wire s @ take (n - acc) (drop acc data)"
      proof (cases "\<exists>err s3. e1 = Some err \<and> acc + a < length data \<and> resume env err ?s2 = (True, s3)")
        case False
        with eq w a acc show ?thesis
          by (auto simp: Let_def dest!: resume_wire split: option.splits if_splits prod.splits)
      next
        case True
        then obtain err s3 where t: "e1 = Some err" "acc + a < length data"
          "resume env err ?s2 = (True, s3)" by blast
        with eq w have "loop env data (acc + a) s3 = Some r" by (simp add: Let_def)
        from IH [OF this] t(2) obtain n e' s' where r: "r = ((n, e'), s')" "acc + a \<le> n"
          "n \<le> length data" "wire s' = wire s3 @ take (n - (acc + a)) (drop (acc + a) data)"
          by (auto split: prod.splits)
        have "wire s3 = wire s @ take a (drop acc data)" using a resume_wire [OF t(3)] by simp
        moreover have "take a (drop acc data) @ take (n - (acc + a)) (drop (acc + a) data)
            = take (n - acc) (drop acc data)"
          using r(2) take_add [of a "n - (acc + a)" "drop acc data"] by (simp add: add.commute)
        ultimately show ?thesis using r by simp
      qed
    qed
  qed
  from this [OF ret] assms(2) show ?thesis by simp
qed

interpretation resuming: byte_writer "resuming_write env" wire for env
  by unfold_locales (auto simp: resuming_write_def dest: resuming_loop_wire)

subsection \<open>What a send leaves on the wire\<close>

fun send_all :: "(nat \<Rightarrow> ipc_env) \<Rightarrow> (bytes \<times> (nat option \<Rightarrow> nat option)) list \<Rightarrow> transport
   \<Rightarrow> transport option" where
  "send_all env [] t = Some t"
| "send_all env ((data, meanwhile) # msgs) t =
     Option.bind (send env meanwhile data t) (send_all env msgs)"

lemma log_delivery_error_frame [simp]:
  "conn (log_delivery_error t) = conn t" "socks (log_delivery_error t) = socks t"
  "closed (log_delivery_error t) = closed t" "failure_reported (log_delivery_error t)"
  by (simp_all add: log_delivery_error_def)

definition wire_of :: "transport \<Rightarrow> nat \<Rightarrow> bytes" where
  "wire_of t c = wire (socks t c)"

lemma send_no_conn: "conn t = None \<Longrightarrow> send env meanwhile data t = Some (log_delivery_error t)"
  by (simp add: send_def)

lemma send_conn:
  assumes "conn t = Some c" and "send env meanwhile data t = Some t'"
  obtains n and e :: "write_err option" where "n \<le> length (frame data)"
    and "wire_of t' c = wire_of t c @ take n (frame data)"
    and "\<forall>d. d \<noteq> c \<longrightarrow> socks t' d = socks t d"
    and "e = None \<longrightarrow> n = length (frame data) \<and> length data \<le> max_ipc_frame_size"
    and "closed t' = (if e \<noteq> None \<and> n \<noteq> 0 then insert c (closed t) else closed t)"
    and "conn t' = (if e \<noteq> None \<and> n \<noteq> 0 \<and> meanwhile (Some c) = Some c then None
        else meanwhile (Some c))"
proof -
  obtain armed s0 where arm: "set_write_deadline (env c) (socks t c) = (armed, s0)"
    by fastforce
  then have s0: "wire s0 = wire (socks t c)" by (auto simp: set_write_deadline_def)
  from assms arm obtain n e s1 where
    wf: "write_frame (resuming_write (env c)) data (s0\<lparr>written := 0\<rparr>) = Some ((n, e), s1)"
    by (auto simp: send_def split: option.splits)
  from resuming.write_frame_accepts [OF wf] have
    n: "n \<le> length (frame data)" "wire s1 = wire (socks t c) @ take n (frame data)"
    "e = None \<longrightarrow> n = length (frame data) \<and> length data \<le> max_ipc_frame_size"
    using s0 by auto
  show thesis
  proof (rule that [of n e])
    show "n \<le> length (frame data)" by (rule n(1))
    show "e = None \<longrightarrow> n = length (frame data) \<and> length data \<le> max_ipc_frame_size"
      by (rule n(3))
    show "wire_of t' c = wire_of t c @ take n (frame data)"
      using assms arm wf n(2)
      by (auto simp: send_def after_write_def wire_of_def Let_def split: option.splits if_splits)
    show "\<forall>d. d \<noteq> c \<longrightarrow> socks t' d = socks t d"
      using assms arm wf by (auto simp: send_def after_write_def Let_def split: option.splits if_splits)
    show "closed t' = (if e \<noteq> None \<and> n \<noteq> 0 then insert c (closed t) else closed t)"
      using assms arm wf by (auto simp: send_def after_write_def Let_def split: option.splits if_splits)
    show "conn t' = (if e \<noteq> None \<and> n \<noteq> 0 \<and> meanwhile (Some c) = Some c then None
        else meanwhile (Some c))"
      using assms arm wf by (auto simp: send_def after_write_def Let_def split: option.splits if_splits)
  qed
qed

lemma send_wire:
  assumes "send env meanwhile data t = Some t'" and "c \<notin> closed t'"
  shows "c \<notin> closed t \<and> (wire_of t' c = wire_of t c
    \<or> conn t = Some c \<and> length data \<le> max_ipc_frame_size \<and> wire_of t' c = wire_of t c @ frame data)"
proof (cases "conn t")
  case None
  with assms show ?thesis by (auto simp: send_no_conn wire_of_def)
next
  case (Some k)
  obtain n and e :: "write_err option" where *: "n \<le> length (frame data)"
    "wire_of t' k = wire_of t k @ take n (frame data)"
    "\<forall>d. d \<noteq> k \<longrightarrow> socks t' d = socks t d"
    "e = None \<longrightarrow> n = length (frame data) \<and> length data \<le> max_ipc_frame_size"
    "closed t' = (if e \<noteq> None \<and> n \<noteq> 0 then insert k (closed t) else closed t)"
    "conn t' = (if e \<noteq> None \<and> n \<noteq> 0 \<and> meanwhile (Some k) = Some k then None
      else meanwhile (Some k))"
    by (rule send_conn [OF Some assms(1)])
  show ?thesis
  proof (cases "c = k")
    case True
    with *(5) assms(2) have c: "e = None \<or> n = 0" "c \<notin> closed t" by (auto split: if_splits)
    show ?thesis
    proof (cases "e = None")
      case e: True
      with *(4) have "n = length (frame data)" "length data \<le> max_ipc_frame_size" by simp_all
      with *(2) True Some c(2) show ?thesis by simp
    next
      case False
      with c have "n = 0" by simp
      with *(2) True c(2) show ?thesis by simp
    qed
  next
    case False
    with *(5) assms(2) have "c \<notin> closed t" by (auto split: if_splits)
    moreover have "wire_of t' c = wire_of t c" using *(3) False by (simp add: wire_of_def)
    ultimately show ?thesis by simp
  qed
qed

lemma send_all_wire:
  "send_all env msgs t = Some t' \<Longrightarrow> c \<notin> closed t' \<Longrightarrow>
   c \<notin> closed t \<and> (\<exists>ds. subseq ds (map fst msgs) \<and> (\<forall>d \<in> set ds. length d \<le> max_ipc_frame_size)
     \<and> wire_of t' c = wire_of t c @ frames ds)"
proof (induction msgs arbitrary: t)
  case Nil
  then show ?case by (intro conjI exI [of _ "[]"]) auto
next
  case (Cons m msgs)
  obtain data meanwhile where m: "m = (data, meanwhile)" by fastforce
  with Cons.prems obtain t1 where s: "send env meanwhile data t = Some t1"
    "send_all env msgs t1 = Some t'" by (auto split: bind_splits)
  from Cons.IH [OF s(2) Cons.prems(2)] obtain ds where ds: "c \<notin> closed t1"
    "subseq ds (map fst msgs)" "\<forall>d \<in> set ds. length d \<le> max_ipc_frame_size"
    "wire_of t' c = wire_of t1 c @ frames ds" by blast
  from send_wire [OF s(1) ds(1)] consider "c \<notin> closed t" "wire_of t1 c = wire_of t c"
    | "c \<notin> closed t" "length data \<le> max_ipc_frame_size" "wire_of t1 c = wire_of t c @ frame data"
    by blast
  then show ?case
  proof cases
    case 1
    with ds m show ?thesis by (intro conjI exI [of _ ds]) auto
  next
    case 2
    with ds m show ?thesis by (intro conjI exI [of _ "data # ds"]) auto
  qed
qed

text \<open>Whatever the host's connection answers to each write, partial counts, timeouts and hard
  errors included, and whatever \<open>serve\<close> does to \<open>conn\<close> meanwhile: a connection the core has not
  closed after a run of sends carries whole frames only, and the peer's frame reader gets from it
  exactly a subsequence, in order, of the messages sent.
\<close>

theorem host_reads_whole_messages:
  assumes "send_all env msgs t = Some t'" and "c \<notin> closed t'" and "wire_of t c = []"
  shows "\<exists>ds. subseq ds (map fst msgs) \<and> serve_loop Some (wire_of t' c) = (ds, ReadEOF)"
proof -
  from send_all_wire [OF assms(1,2)] assms(3) obtain ds where ds: "subseq ds (map fst msgs)"
    "\<forall>d \<in> set ds. length d \<le> max_ipc_frame_size" "wire_of t' c = frames ds" by auto
  have "List.map_filter Some ds = ds" by (induction ds) (auto simp: map_filter_simps)
  with ds serve_loop_frames [OF ds(2), of Some] show ?thesis by auto
qed

definition demo_env :: "nat \<Rightarrow> ipc_env" where
  "demo_env c = \<lparr>writes = (\<lambda>k. if k = 0 then (2, Some ErrTimeout) else (9, None)),
     deadlines = (\<lambda>k. True)\<rparr>"

definition demo_transport :: transport where
  "demo_transport = \<lparr>conn = Some 0,
     socks = (\<lambda>c. \<lparr>wire = [], write_calls = 0, deadline_calls = 0, written = 0\<rparr>),
     closed = {}, failure_reported = False, reports = 0\<rparr>"

lemma put_uint32_eval:
  "put_uint32 n = [char_of n, char_of (n div 256), char_of (n div 256 div 256),
     char_of (n div 256 div 256 div 256)]"
proof -
  have "(4 :: nat) = Suc (Suc (Suc (Suc 0)))" by simp
  then show ?thesis by (simp only: put_uint32_def le_bytes.simps)
qed

lemma demo_write:
  "\<exists>s. write_frame (resuming_write (demo_env 0)) ''hi''
     \<lparr>wire = [], write_calls = 0, deadline_calls = 1, written = 0\<rparr> = Some ((6, None), s)"
  by (simp add: demo_env_def write_frame_def
     max_ipc_frame_size_def write_all.simps resuming_write_def resuming_loop.simps conn_write_def
     put_uint32_eval resume_def is_write_timeout_def set_write_deadline_def)

lemma demo_send:
  "\<exists>t'. send_all demo_env [(''hi'', id)] demo_transport = Some t' \<and> 0 \<notin> closed t'"
  using demo_write
  by (auto simp: send_def demo_transport_def set_write_deadline_def after_write_def Let_def
      demo_env_def)

theorem host_reads_whole_messages_witness:
  "\<exists>t' ds. send_all demo_env [(''hi'', id)] demo_transport = Some t' \<and>
     subseq ds [''hi''] \<and> serve_loop Some (wire_of t' 0) = (ds, ReadEOF)"
proof -
  obtain t' where t: "send_all demo_env [(''hi'', id)] demo_transport = Some t'" "0 \<notin> closed t'"
    using demo_send by blast
  have "wire_of demo_transport 0 = []" by (simp add: demo_transport_def wire_of_def)
  with host_reads_whole_messages [OF t] t(1) show ?thesis by simp
qed


subsection \<open>A connection that makes progress is enough\<close>

definition progresses :: "ipc_env \<Rightarrow> bool" where
  "progresses env \<longleftrightarrow> (\<forall>k. 0 < fst (writes env k))"

lemma resuming_loop_returns:
  assumes "progresses env"
  shows "accepted \<le> length data \<Longrightarrow> \<exists>n e s'. resuming_loop env data accepted s = Some ((n, e), s')
    \<and> (e = None \<longrightarrow> accepted < length data \<longrightarrow> accepted < n)"
proof (induction "length data - accepted" arbitrary: accepted s rule: less_induct)
  case less
  obtain a e1 s1 where w: "conn_write env (drop accepted data) s = ((a, e1), s1)"
    by (metis prod.exhaust)
  then have a: "a = min (fst (writes env (write_calls s))) (length data - accepted)"
    by (simp add: conn_write_def Let_def)
  have pos: "0 < fst (writes env (write_calls s))" using assms by (simp add: progresses_def)
  obtain again s3 where r: "resume env (the e1) (s1\<lparr>written := written s1 + a\<rparr>) = (again, s3)"
    by fastforce
  show ?case
  proof (cases "e1 \<noteq> None \<and> accepted + a < length data \<and> again")
    case True
    with a pos have "length data - (accepted + a) < length data - accepted"
      "accepted + a \<le> length data" by auto
    from less.hyps [OF this] obtain n e s' where
      rec: "resuming_loop env data (accepted + a) s3 = Some ((n, e), s')"
      "e = None \<longrightarrow> accepted + a < length data \<longrightarrow> accepted + a < n" by blast
    then have "resuming_loop env data accepted s = Some ((n, e), s')"
      using True w r by (subst resuming_loop.simps) auto
    with rec True show ?thesis by auto
  next
    case False
    with w r a pos show ?thesis
      by (subst resuming_loop.simps) (auto split: option.splits)
  qed
qed

lemma write_all_returns:
  assumes "\<And>data s. data \<noteq> [] \<Longrightarrow> \<exists>n e s'. w data s = Some ((n, e), s') \<and> (e = None \<longrightarrow> 0 < n)"
  shows "\<exists>r. write_all w data k s = Some r"
proof (induction data arbitrary: k s rule: length_induct)
  case (1 data)
  show ?case
  proof (cases "data = []")
    case False
    then obtain n e s' where w: "w data s = Some ((n, e), s')" "e = None \<longrightarrow> 0 < n"
      using assms by blast
    show ?thesis
    proof (cases e)
      case None
      with w False have "length (drop n data) < length data" by auto
      with 1 obtain r where "write_all w (drop n data) (k + n) s' = Some r" by blast
      with w None False show ?thesis by (subst write_all.simps) auto
    qed (use w False in \<open>subst write_all.simps, auto\<close>)
  qed (simp add: write_all.simps)
qed

text \<open>
  C3. If every write of the connection takes at least one byte, whatever errors come with it,
  then \<open>send\<close> returns: neither the resuming loop nor \<open>writeAll\<close> can spin.
\<close>

theorem send_returns:
  assumes "\<forall>c. progresses (env c)"
  shows "\<exists>t'. send env meanwhile data t = Some t'"
proof (cases "conn t")
  case None
  then show ?thesis by (simp add: send_no_conn)
next
  case (Some c)
  have w: "\<exists>n e s'. resuming_write (env c) d s = Some ((n, e), s') \<and> (e = None \<longrightarrow> 0 < n)"
    if "d \<noteq> []" for d s
    using that resuming_loop_returns [of "env c" 0 d s] assms by (auto simp: resuming_write_def)
  have all: "(write_all (resuming_write (env c)) d k s = None) = False" for d k s
    using write_all_returns [of "resuming_write (env c)" d k s] w by fastforce
  have frm: "(write_frame (resuming_write (env c)) data s = None) = False" for s
    by (auto simp: write_frame_def all split: option.splits)
  with Some show ?thesis by (auto simp: send_def frm split: prod.splits option.splits)
qed

theorem send_returns_witness:
  "(\<forall>c. progresses (demo_env c)) \<and> (\<exists>t'. send demo_env id ''hi'' demo_transport = Some t')"
proof -
  have "\<forall>c. progresses (demo_env c)" by (simp add: progresses_def demo_env_def)
  then show ?thesis using send_returns [of demo_env] by blast
qed

end
