(* ===== verification/Messages.thy ===== *)
theory Messages
  imports Go_Prelude
begin

text \<open>
  \<open>core/message.go\<close>: the event queues to the host and the batcher that drains them. Three bounded
  channels; a producer either gives up on a full one or evicts its oldest entry; one goroutine
  takes messages, state first, then priority, then bulk, and sends them in batches.

  The producers' policies are interpretations of one locale. The batcher is an executable step
  function; with the moves of its environment it is a step relation, whose invariants say that
  nothing the batcher takes is lost or reordered, that batches are bounded, and that a waiting
  bulk message is overtaken by a bounded number of priority messages.
\<close>

subsection \<open>Messages and their classes\<close>

datatype message_type =
    LogMessage | DelayMessage | RequestMessage | DnsMessage | LoadedMessage | GeoUpdateMessage
  | RouteChangedMessage | DialerLoopMessage | RequestTrafficMessage | OtherMessage string

record 'd message =
  msg_type :: message_type
  msg_data :: 'd

datatype message_class =
  StateMessageClass | PriorityMessageClass | BulkMessageClass | YieldingBulkMessageClass

fun class_of_type :: "message_type \<Rightarrow> message_class" where
  "class_of_type LoadedMessage = StateMessageClass"
| "class_of_type GeoUpdateMessage = StateMessageClass"
| "class_of_type RouteChangedMessage = StateMessageClass"
| "class_of_type LogMessage = BulkMessageClass"
| "class_of_type RequestMessage = BulkMessageClass"
| "class_of_type DnsMessage = YieldingBulkMessageClass"
| "class_of_type RequestTrafficMessage = YieldingBulkMessageClass"
| "class_of_type _ = PriorityMessageClass"

definition class_of_message :: "'d message \<Rightarrow> message_class" where
  "class_of_message m = class_of_type (msg_type m)"

definition message_batch_size :: nat where "message_batch_size = 32"
definition message_queue_size :: nat where "message_queue_size = 256"
definition message_priority_burst :: nat where "message_priority_burst = 8"
definition message_evict_attempts :: nat where "message_evict_attempts = 4"

lemmas message_limits [go_simps] = message_batch_size_def message_queue_size_def
  message_priority_burst_def message_evict_attempts_def

subsection \<open>Producers\<close>

definition enqueue_state :: "'m \<Rightarrow> 'm list \<Rightarrow> bool \<times> 'm list" where
  "enqueue_state m q = (if length q < message_queue_size then (True, q @ [m]) else (False, q))"

text \<open>
  \<open>enqueueLatest\<close> tries to send and, when the channel is full, drops its oldest entry, four times
  at most. Other goroutines run between its two selects; \<open>others k\<close> is what they do to the channel
  before select number \<open>k\<close>.
\<close>

fun enqueue_latest_loop ::
  "(nat \<Rightarrow> 'm list \<Rightarrow> 'm list) \<Rightarrow> nat \<Rightarrow> nat \<Rightarrow> 'm \<Rightarrow> 'm list \<Rightarrow> bool \<times> 'm list" where
  "enqueue_latest_loop others k 0 m q = (False, q)"
| "enqueue_latest_loop others k (Suc attempts) m q =
     (let q1 = others k q
      in if length q1 < message_queue_size then (True, q1 @ [m])
         else enqueue_latest_loop others (k + 2) attempts m (tl (others (k + 1) q1)))"

definition enqueue_latest ::
  "(nat \<Rightarrow> 'm list \<Rightarrow> 'm list) \<Rightarrow> 'm \<Rightarrow> 'm list \<Rightarrow> bool \<times> 'm list" where
  "enqueue_latest others m q = enqueue_latest_loop others 0 message_evict_attempts m q"

abbreviation alone :: "nat \<Rightarrow> 'm list \<Rightarrow> 'm list" where
  "alone \<equiv> \<lambda>_ q. q"

record 'm queues =
  state_queue :: "'m list"
  priority_queue :: "'m list"
  bulk_queue :: "'m list"

definition send_message :: "bool \<Rightarrow> 'd message \<Rightarrow> 'd message queues \<Rightarrow> bool \<times> 'd message queues" where
  "send_message has_listener m qs =
     (if \<not> has_listener then (False, qs)
      else (case class_of_message m of
          StateMessageClass \<Rightarrow>
            (case enqueue_state m (state_queue qs) of (ok, q) \<Rightarrow> (ok, qs\<lparr>state_queue := q\<rparr>))
        | BulkMessageClass \<Rightarrow>
            (case enqueue_latest alone m (bulk_queue qs) of (ok, q) \<Rightarrow> (ok, qs\<lparr>bulk_queue := q\<rparr>))
        | YieldingBulkMessageClass \<Rightarrow>
            (case enqueue_state m (bulk_queue qs) of (ok, q) \<Rightarrow> (ok, qs\<lparr>bulk_queue := q\<rparr>))
        | PriorityMessageClass \<Rightarrow>
            (case enqueue_latest alone m (priority_queue qs) of (ok, q) \<Rightarrow>
               (ok, qs\<lparr>priority_queue := q\<rparr>))))"

subsection \<open>The batcher\<close>

datatype chan = StateQ | PriorityQ | BulkQ

text \<open>Where the loop stands: its head, and the three selects that follow.\<close>

datatype batcher_pc = AtTop | AtBulk | AtPriority | AtSelect | Finished

text \<open>
  The loop's variables, with the channels it reads. \<open>live c\<close> says the loop's own variable for the
  channel is not nil, \<open>closed_ch c\<close> that the producers closed it, \<open>armed\<close> that \<open>deadline\<close> is not
  nil. \<open>sent\<close> are the arguments \<open>send\<close> was called with; \<open>consumed\<close> is a history variable, the
  messages taken so far with the channel each came from.
\<close>

record 'm batcher =
  queue :: "chan \<Rightarrow> 'm list"
  closed_ch :: "chan \<Rightarrow> bool"
  live :: "chan \<Rightarrow> bool"
  batch :: "'m list"
  armed :: bool
  burst :: nat
  pc :: batcher_pc
  sent :: "'m list list"
  consumed :: "(chan \<times> 'm) list"

definition flush :: "'m batcher \<Rightarrow> 'm batcher" where
  "flush s =
     (if batch s = [] then s
      else s\<lparr>armed := False, batch := [], sent := sent s @ [batch s]\<rparr>)"

text \<open>
  \<open>ready\<close>: the receive on the channel would not block. \<open>take_from\<close> is the receive and the closure
  \<open>take\<close>; its first component is what \<open>take\<close> returns.
\<close>

definition ready :: "'m batcher \<Rightarrow> chan \<Rightarrow> bool" where
  "ready s c \<longleftrightarrow> live s c \<and> (queue s c \<noteq> [] \<or> closed_ch s c)"

definition take_from :: "chan \<Rightarrow> 'm batcher \<Rightarrow> bool \<times> 'm batcher" where
  "take_from c s =
     (case queue s c of
        [] \<Rightarrow> (False, s\<lparr>live := (live s)(c := False)\<rparr>)
      | m # rest \<Rightarrow>
          (let s1 = s\<lparr>queue := (queue s)(c := rest), consumed := consumed s @ [(c, m)]\<rparr>;
               s2 = (if batch s1 = [] then s1\<lparr>armed := True\<rparr> else s1);
               s3 = s2\<lparr>batch := batch s2 @ [m]\<rparr>
           in (True, if length (batch s3) \<ge> message_batch_size then flush s3 else s3)))"

definition take_priority :: "'m batcher \<Rightarrow> 'm batcher" where
  "take_priority s =
     (case take_from PriorityQ s of (taken, s1) \<Rightarrow>
        if taken then s1\<lparr>burst := Suc (burst s1)\<rparr> else s1)"

text \<open>Which ready case the blocking select picks.\<close>

datatype choice = Receive chan | Deadline

definition select_step :: "choice \<Rightarrow> 'm batcher \<Rightarrow> 'm batcher option" where
  "select_step ch s =
     (case ch of
        Deadline \<Rightarrow> if armed s then Some (flush s) else None
      | Receive c \<Rightarrow>
          if \<not> ready s c then None
          else (case c of
              StateQ \<Rightarrow> Some (snd (take_from StateQ s))
            | PriorityQ \<Rightarrow> Some (take_priority s)
            | BulkQ \<Rightarrow> Some ((snd (take_from BulkQ s))\<lparr>burst := 0\<rparr>)))"

definition batcher_next :: "choice \<Rightarrow> 'm batcher \<Rightarrow> 'm batcher option" where
  "batcher_next ch s =
     (case pc s of
        AtTop \<Rightarrow>
          if \<not> (live s StateQ \<or> live s PriorityQ \<or> live s BulkQ)
          then Some ((flush s)\<lparr>pc := Finished\<rparr>)
          else if ready s StateQ then Some ((snd (take_from StateQ s))\<lparr>pc := AtTop\<rparr>)
          else Some (s\<lparr>pc := AtBulk\<rparr>)
      | AtBulk \<Rightarrow>
          if burst s \<ge> message_priority_burst \<and> live s BulkQ then
            (let s1 = s\<lparr>burst := 0\<rparr>
             in if ready s1 BulkQ then Some ((snd (take_from BulkQ s1))\<lparr>pc := AtTop\<rparr>)
                else Some (s1\<lparr>pc := AtPriority\<rparr>))
          else Some (s\<lparr>pc := AtPriority\<rparr>)
      | AtPriority \<Rightarrow>
          if ready s PriorityQ then Some ((take_priority s)\<lparr>pc := AtTop\<rparr>)
          else Some (s\<lparr>pc := AtSelect\<rparr>)
      | AtSelect \<Rightarrow> map_option (\<lambda>s1. s1\<lparr>pc := AtTop\<rparr>) (select_step ch s)
      | Finished \<Rightarrow> None)"

definition batcher_start :: "'m batcher" where
  "batcher_start = \<lparr>queue = (\<lambda>_. []), closed_ch = (\<lambda>_. False), live = (\<lambda>_. True), batch = [],
     armed = False, burst = 0, pc = AtTop, sent = [], consumed = []\<rparr>"

text \<open>
  The batcher among the producers: a producer sends to an open channel with room, evicts its
  oldest entry, or the channel is closed.
\<close>

inductive batcher_step :: "'m batcher \<Rightarrow> 'm batcher \<Rightarrow> bool" where
  own: "batcher_next ch s = Some s' \<Longrightarrow> batcher_step s s'"
| produce: "\<not> closed_ch s c \<Longrightarrow> length (queue s c) < message_queue_size \<Longrightarrow>
     batcher_step s (s\<lparr>queue := (queue s)(c := queue s c @ [m])\<rparr>)"
| evict: "c \<noteq> StateQ \<Longrightarrow> batcher_step s (s\<lparr>queue := (queue s)(c := tl (queue s c))\<rparr>)"
| close: "batcher_step s (s\<lparr>closed_ch := (closed_ch s)(c := True)\<rparr>)"

inductive batcher_reachable :: "'m batcher \<Rightarrow> bool" where
  start: "batcher_reachable batcher_start"
| step: "batcher_reachable s \<Longrightarrow> batcher_step s s' \<Longrightarrow> batcher_reachable s'"

inductive_cases batcher_stepE: "batcher_step s s'"


subsection \<open>The producers' policies\<close>

locale queue_policy =
  fixes put :: "'m \<Rightarrow> 'm list \<Rightarrow> bool \<times> 'm list" and cap :: nat
  assumes put_result: "length q \<le> cap \<Longrightarrow>
      \<exists>k. snd (put m q) = drop k q @ (if fst (put m q) then [m] else [])"
    and put_bound: "length q \<le> cap \<Longrightarrow> length (snd (put m q)) \<le> cap"
begin

lemma put_subseq: "length q \<le> cap \<Longrightarrow> subseq (snd (put m q)) (q @ [m])"
proof -
  assume "length q \<le> cap"
  from put_result [OF this] obtain k where
    k: "snd (put m q) = drop k q @ (if fst (put m q) then [m] else [])" by blast
  have "subseq (drop k q) q" by (rule suffix_imp_subseq) (rule suffix_drop)
  then show ?thesis by (cases "fst (put m q)") (auto simp: k)
qed

fun put_all :: "'m list \<Rightarrow> 'm list \<Rightarrow> 'm list" where
  "put_all [] q = q"
| "put_all (m # ms) q = put_all ms (snd (put m q))"

lemma put_all_fifo: "length q \<le> cap \<Longrightarrow>
    length (put_all ms q) \<le> cap \<and> subseq (put_all ms q) (q @ ms)"
proof (induction ms arbitrary: q)
  case (Cons m ms)
  then have "length (snd (put m q)) \<le> cap" by (intro put_bound)
  from Cons.IH [OF this] have "length (put_all (m # ms) q) \<le> cap"
    "subseq (put_all (m # ms) q) (snd (put m q) @ ms)" by simp_all
  moreover have "subseq (snd (put m q) @ ms) ((q @ [m]) @ ms)"
    unfolding subseq_append by (rule put_subseq [OF Cons.prems])
  ultimately show ?case by (auto intro: subseq_order.order_trans)
qed simp

end

locale keeping_policy = queue_policy +
  assumes put_keeps: "put m q = (True, q @ [m]) \<or> put m q = (False, q)"
begin

lemma put_all_keeps: "prefix q (put_all ms q)"
proof (induction ms arbitrary: q)
  case (Cons m ms)
  have "prefix q (snd (put m q))" using put_keeps [of m q] by auto
  with Cons [of "snd (put m q)"] show ?case by (auto intro: prefix_order.trans)
qed simp

end

locale accepting_policy = queue_policy +
  assumes put_accepts: "length q \<le> cap \<Longrightarrow> fst (put m q)"
begin

lemma put_last: "length q \<le> cap \<Longrightarrow> snd (put m q) \<noteq> [] \<and> last (snd (put m q)) = m"
  using put_result [of q m] put_accepts [of q m] by auto

end

interpretation yielding: keeping_policy enqueue_state message_queue_size
  by unfold_locales (auto simp: enqueue_state_def intro: exI [of _ 0])

lemma enqueue_latest_alone:
  "length q \<le> message_queue_size \<Longrightarrow>
   enqueue_latest alone m q = (True, (if length q < message_queue_size then q else tl q) @ [m])"
proof -
  assume q: "length q \<le> message_queue_size"
  have four: "message_evict_attempts = Suc (Suc (Suc (Suc 0)))"
    by (simp add: message_evict_attempts_def)
  have "length (tl q) < message_queue_size"
    using q by (simp add: message_queue_size_def)
  then show ?thesis by (simp add: enqueue_latest_def four Let_def)
qed

interpretation evicting: accepting_policy "enqueue_latest alone" message_queue_size
proof
  fix q :: "'a list" and m
  assume q: "length q \<le> message_queue_size"
  show "\<exists>k. snd (enqueue_latest alone m q) = drop k q @ (if fst (enqueue_latest alone m q) then [m] else [])"
    using q by (cases "length q < message_queue_size")
      (auto simp: enqueue_latest_alone intro: exI [of _ 0] exI [of _ 1] simp: drop_Suc)
  show "length (snd (enqueue_latest alone m q)) \<le> message_queue_size"
    using q by (auto simp: enqueue_latest_alone go_simps)
  show "fst (enqueue_latest alone m q)"
    using q by (simp add: enqueue_latest_alone)
qed

text \<open>
  With other goroutines at work on the channel \<open>enqueueLatest\<close> may give up, but only after it has
  found the channel full at each of its four attempts.
\<close>

lemma enqueue_latest_loop_fails:
  "enqueue_latest_loop others k attempts m q = (False, q') \<Longrightarrow> 0 < attempts \<Longrightarrow>
   length (others k q) \<ge> message_queue_size"
  by (cases attempts) (auto simp: Let_def split: if_splits)

definition queues_bounded :: "'m queues \<Rightarrow> bool" where
  "queues_bounded qs \<longleftrightarrow> length (state_queue qs) \<le> message_queue_size \<and>
     length (priority_queue qs) \<le> message_queue_size \<and> length (bulk_queue qs) \<le> message_queue_size"




subsection \<open>Invariants of the batcher\<close>

definition batch_inv :: "'m batcher \<Rightarrow> bool" where
  "batch_inv s \<longleftrightarrow>
     concat (sent s) @ batch s = map snd (consumed s) \<and>
     (\<forall>b \<in> set (sent s). b \<noteq> [] \<and> length b \<le> message_batch_size) \<and>
     length (batch s) < message_batch_size \<and>
     (armed s \<longleftrightarrow> batch s \<noteq> []) \<and>
     (pc s = Finished \<longrightarrow> batch s = [])"

lemma batch_inv_flush: "batch_inv s \<Longrightarrow> batch_inv (flush s) \<and> batch (flush s) = []"
  unfolding batch_inv_def flush_def message_batch_size_def
  by (cases "batch s = []") simp_all

lemma batch_inv_finished: "batch_inv s \<Longrightarrow> batch s = [] \<Longrightarrow> batch_inv (s\<lparr>pc := p\<rparr>)"
  by (simp add: batch_inv_def)

lemma flush_fields [simp]:
  "queue (flush s) = queue s" "closed_ch (flush s) = closed_ch s" "live (flush s) = live s"
  "burst (flush s) = burst s" "pc (flush s) = pc s" "consumed (flush s) = consumed s"
  by (simp_all add: flush_def)

lemma take_from_fields:
  assumes "take_from c s = (ok, s')"
  shows "closed_ch s' = closed_ch s" "burst s' = burst s" "pc s' = pc s"
    "ok \<longleftrightarrow> queue s c \<noteq> []"
    "live s' = (if ok then live s else (live s)(c := False))"
    "queue s' = (if ok then (queue s)(c := tl (queue s c)) else queue s)"
    "consumed s' = (if ok then consumed s @ [(c, hd (queue s c))] else consumed s)"
  using assms by (auto simp: take_from_def Let_def split: list.splits if_splits)

lemma batch_inv_take: "batch_inv s \<Longrightarrow> pc s \<noteq> Finished \<Longrightarrow> batch_inv (snd (take_from c s))"
  unfolding batch_inv_def take_from_def flush_def Let_def message_batch_size_def
  by (cases "queue s c"; cases "batch s = []") simp_all

lemma batch_inv_pc: "batch_inv s \<Longrightarrow> p \<noteq> Finished \<Longrightarrow> batch_inv (s\<lparr>pc := p\<rparr>)"
  and batch_inv_burst [simp]: "batch_inv (s\<lparr>burst := n\<rparr>) = batch_inv s"
  and batch_inv_env [simp]: "batch_inv (s\<lparr>queue := f\<rparr>) = batch_inv s"
    "batch_inv (s\<lparr>closed_ch := g\<rparr>) = batch_inv s"
  by (auto simp: batch_inv_def)

lemma batch_inv_take_priority: "batch_inv s \<Longrightarrow> pc s \<noteq> Finished \<Longrightarrow> batch_inv (take_priority s)"
  using batch_inv_take [of s PriorityQ]
  by (auto simp: take_priority_def split: prod.splits)

lemma batch_inv_next: "batch_inv s \<Longrightarrow> batcher_next ch s = Some s' \<Longrightarrow> batch_inv s'"
proof (cases "pc s")
  case AtTop
  assume "batch_inv s" "batcher_next ch s = Some s'"
  with AtTop show ?thesis
    using batch_inv_flush [of s] batch_inv_take [of s StateQ]
    by (auto simp: batcher_next_def intro: batch_inv_pc batch_inv_finished split: if_splits)
next
  case AtBulk
  assume "batch_inv s" "batcher_next ch s = Some s'"
  with AtBulk show ?thesis
    by (auto simp: batcher_next_def Let_def intro!: batch_inv_pc batch_inv_take split: if_splits)
next
  case AtPriority
  assume "batch_inv s" "batcher_next ch s = Some s'"
  with AtPriority show ?thesis
    by (auto simp: batcher_next_def intro!: batch_inv_pc batch_inv_take_priority split: if_splits)
next
  case AtSelect
  assume "batch_inv s" "batcher_next ch s = Some s'"
  with AtSelect show ?thesis
    using batch_inv_flush [of s]
    by (auto simp: batcher_next_def select_step_def
        intro!: batch_inv_pc batch_inv_take batch_inv_take_priority
        split: choice.splits if_splits chan.splits)
qed (simp add: batcher_next_def)

lemma batch_inv_reachable: "batcher_reachable s \<Longrightarrow> batch_inv s"
proof (induction rule: batcher_reachable.induct)
  case start
  show ?case by (simp add: batch_inv_def batcher_start_def message_batch_size_def)
next
  case (step s s')
  from step.hyps(2) step.IH show ?case
    by (cases rule: batcher_step.cases) (auto intro: batch_inv_next)
qed



definition demo_busy :: "nat batcher" where
  "demo_busy = batcher_start\<lparr>queue := (\<lambda>_. [])(StateQ := [7])\<rparr>"

lemma demo_busy_reachable: "batcher_reachable demo_busy"
proof -
  have "batcher_step (batcher_start :: nat batcher)
      (batcher_start\<lparr>queue := (queue batcher_start)(StateQ := queue batcher_start StateQ @ [7])\<rparr>)"
    by (rule batcher_step.produce) (simp_all add: batcher_start_def message_queue_size_def)
  from batcher_reachable.step [OF batcher_reachable.start this] show ?thesis
    by (simp add: demo_busy_def batcher_start_def)
qed


subsection \<open>No starvation of bulk messages\<close>

text \<open>
  An observer of the run counts the priority messages taken while a bulk message waits: the count
  restarts when the bulk queue is empty after a step or a bulk message was taken.
\<close>

definition overtaking :: "'m batcher \<Rightarrow> 'm batcher \<Rightarrow> nat \<Rightarrow> nat" where
  "overtaking s s' n =
     (case drop (length (consumed s)) (consumed s') of
        (BulkQ, m) # _ \<Rightarrow> 0
      | (PriorityQ, m) # _ \<Rightarrow> if queue s' BulkQ = [] then 0 else Suc n
      | _ \<Rightarrow> if queue s' BulkQ = [] then 0 else n)"

inductive observed :: "'m batcher \<Rightarrow> nat \<Rightarrow> bool" where
  start: "observed batcher_start 0"
| step: "observed s n \<Longrightarrow> batcher_step s s' \<Longrightarrow> observed s' (overtaking s s' n)"

definition burst_inv :: "'m batcher \<Rightarrow> nat \<Rightarrow> bool" where
  "burst_inv s n \<longleftrightarrow>
     (\<forall>c. \<not> live s c \<longrightarrow> queue s c = [] \<and> closed_ch s c) \<and>
     (queue s BulkQ = [] \<longrightarrow> n = 0) \<and>
     (live s BulkQ \<longrightarrow> n \<le> burst s \<and> burst s \<le> message_priority_burst \<and>
        (pc s = AtPriority \<or> pc s = AtSelect \<longrightarrow> burst s < message_priority_burst))"

lemma take_from_Nil: "queue s c = [] \<Longrightarrow> take_from c s = (False, s\<lparr>live := (live s)(c := False)\<rparr>)"
  by (simp add: take_from_def)

lemma take_from_Cons: "queue s c = m # rest \<Longrightarrow> \<exists>s'. take_from c s = (True, s') \<and>
   closed_ch s' = closed_ch s \<and> burst s' = burst s \<and> live s' = live s \<and>
   queue s' = (queue s)(c := rest) \<and> consumed s' = consumed s @ [(c, m)]"
  by (simp add: take_from_def Let_def)

lemma burst_inv_quiet:
  "burst_inv s n \<Longrightarrow> queue s' = queue s \<Longrightarrow> closed_ch s' = closed_ch s \<Longrightarrow> live s' = live s \<Longrightarrow>
   consumed s' = consumed s \<Longrightarrow>
   (live s BulkQ \<Longrightarrow> n \<le> burst s' \<and> burst s' \<le> message_priority_burst \<and>
        (pc s' = AtPriority \<or> pc s' = AtSelect \<longrightarrow> burst s' < message_priority_burst)) \<Longrightarrow>
   burst_inv s' (overtaking s s' n)"
  by (auto simp: burst_inv_def overtaking_def)

lemma burst_inv_taken:
  assumes inv: "burst_inv s n" and live: "live s c"
    and "queue s c = m # rest" "closed_ch s' = closed_ch s" "live s' = live s"
      "queue s' = (queue s)(c := rest)" "consumed s' = consumed s @ [(c, m)]" "pc s' = AtTop"
    and burst: "burst s' = (if c = BulkQ then 0 else if c = PriorityQ then Suc (burst s) else burst s)"
    and prio: "c = PriorityQ \<Longrightarrow> pc s = AtPriority \<or> pc s = AtSelect"
  shows "burst_inv s' (overtaking s s' n)"
proof -
  have over: "overtaking s s' n = (if c = BulkQ \<or> queue s' BulkQ = [] then 0
      else if c = PriorityQ then Suc n else n)"
    using assms(7) by (cases c) (simp_all add: overtaking_def)
  have "\<forall>d. \<not> live s' d \<longrightarrow> queue s' d = [] \<and> closed_ch s' d"
    using assms(3-6) inv by (auto simp: burst_inv_def)
  moreover have "live s' BulkQ \<longrightarrow> overtaking s s' n \<le> burst s' \<and> burst s' \<le> message_priority_burst"
    using inv prio over burst assms(5,8) by (cases c) (auto simp: burst_inv_def)
  ultimately show ?thesis using over assms(8) by (auto simp: burst_inv_def)
qed

lemma burst_inv_ended:
  assumes inv: "burst_inv s n" and live: "live s c"
    and "queue s c = []" "closed_ch s c" "closed_ch s' = closed_ch s"
      "live s' = (live s)(c := False)" "queue s' = queue s" "consumed s' = consumed s"
      "pc s' = AtTop" and burst: "burst s' = (if c = BulkQ then 0 else burst s)"
  shows "burst_inv s' (overtaking s s' n)"
proof -
  have over: "overtaking s s' n = n"
    using assms(7,8) inv by (simp add: overtaking_def burst_inv_def)
  have "\<forall>d. \<not> live s' d \<longrightarrow> queue s' d = [] \<and> closed_ch s' d"
    using assms(3-7) inv by (auto simp: burst_inv_def)
  moreover have "live s' BulkQ \<longrightarrow> n \<le> burst s' \<and> burst s' \<le> message_priority_burst"
    using inv burst assms(6) by (auto simp: burst_inv_def)
  ultimately show ?thesis using over assms(7,9) inv by (auto simp: burst_inv_def)
qed

lemma burst_inv_take:
  assumes "burst_inv s n" "ready s c" "take_from c s0 = (ok, s1)"
    and "queue s0 = queue s" "closed_ch s0 = closed_ch s" "live s0 = live s" "consumed s0 = consumed s"
    and "queue s' = queue s1" "closed_ch s' = closed_ch s1" "live s' = live s1"
      "consumed s' = consumed s1" "pc s' = AtTop"
    and "burst s' = (if c = BulkQ then 0 else if c = PriorityQ \<and> ok then Suc (burst s) else burst s)"
    and "c = PriorityQ \<Longrightarrow> pc s = AtPriority \<or> pc s = AtSelect"
  shows "burst_inv s' (overtaking s s' n)"
proof (cases "queue s c")
  case Nil
  show ?thesis
  proof (rule burst_inv_ended [OF assms(1), of c])
    show "live s c" "closed_ch s c" using assms(2) Nil by (auto simp: ready_def)
  qed (use assms Nil take_from_fields [OF assms(3)] in auto)
next
  case (Cons m rest)
  show ?thesis
  proof (rule burst_inv_taken [OF assms(1) _ Cons])
    show "live s c" using assms(2) by (auto simp: ready_def)
  qed (use assms Cons take_from_fields [OF assms(3)] in auto)
qed

lemma burst_inv_take_priority:
  assumes "burst_inv s n" "ready s PriorityQ" "pc s = AtPriority \<or> pc s = AtSelect"
    and "s' = (take_priority s)\<lparr>pc := AtTop\<rparr>"
  shows "burst_inv s' (overtaking s s' n)"
proof -
  obtain ok s1 where t: "take_from PriorityQ s = (ok, s1)" by fastforce
  have s': "s' = (if ok then s1\<lparr>burst := Suc (burst s1), pc := AtTop\<rparr> else s1\<lparr>pc := AtTop\<rparr>)"
    using assms(4) t by (simp add: take_priority_def)
  show ?thesis
    by (rule burst_inv_take [OF assms(1,2) t])
      (use s' assms(3) take_from_fields(2) [OF t] in auto)
qed

lemma burst_inv_next: "burst_inv s n \<Longrightarrow> batcher_next ch s = Some s' \<Longrightarrow> burst_inv s' (overtaking s s' n)"
proof (cases "pc s")
  case AtTop
  assume inv: "burst_inv s n" and nx: "batcher_next ch s = Some s'"
  obtain ok s1 where t: "take_from StateQ s = (ok, s1)" by fastforce
  show ?thesis
  proof (cases "(live s StateQ \<or> live s PriorityQ \<or> live s BulkQ) \<and> ready s StateQ")
    case True
    with AtTop nx t have "s' = s1\<lparr>pc := AtTop\<rparr>" by (auto simp: batcher_next_def)
    with True take_from_fields(2) [OF t] show ?thesis
      by (intro burst_inv_take [OF inv _ t]) auto
  next
    case False
    with AtTop nx have "s' = (flush s)\<lparr>pc := Finished\<rparr> \<or> s' = s\<lparr>pc := AtBulk\<rparr>"
      by (auto simp: batcher_next_def split: if_splits)
    with inv show ?thesis by (intro burst_inv_quiet) (auto simp: burst_inv_def)
  qed
next
  case AtBulk
  assume inv: "burst_inv s n" and nx: "batcher_next ch s = Some s'"
  obtain ok s1 where t: "take_from BulkQ (s\<lparr>burst := 0\<rparr>) = (ok, s1)" by fastforce
  have r: "ready (s\<lparr>burst := 0\<rparr>) BulkQ = ready s BulkQ" by (simp add: ready_def)
  show ?thesis
  proof (cases "burst s \<ge> message_priority_burst \<and> live s BulkQ")
    case polled: True
    show ?thesis
    proof (cases "ready s BulkQ")
      case True
      with polled AtBulk nx t r have "s' = s1\<lparr>pc := AtTop\<rparr>" by (simp add: batcher_next_def Let_def)
      with True take_from_fields(2) [OF t] show ?thesis
        by (intro burst_inv_take [OF inv _ t]) auto
    next
      case False
      with polled AtBulk nx r have "s' = s\<lparr>burst := 0, pc := AtPriority\<rparr>"
        by (simp add: batcher_next_def Let_def)
      moreover have "n = 0" using False polled inv by (auto simp: ready_def burst_inv_def)
      ultimately show ?thesis
        using inv by (intro burst_inv_quiet) (auto simp: message_priority_burst_def)
    qed
  next
    case False
    with AtBulk nx have "s' = s\<lparr>pc := AtPriority\<rparr>" by (auto simp: batcher_next_def)
    with False inv show ?thesis by (intro burst_inv_quiet) (auto simp: burst_inv_def)
  qed
next
  case AtPriority
  assume inv: "burst_inv s n" and nx: "batcher_next ch s = Some s'"
  show ?thesis
  proof (cases "ready s PriorityQ")
    case True
    with AtPriority nx have "s' = (take_priority s)\<lparr>pc := AtTop\<rparr>" by (simp add: batcher_next_def)
    with True AtPriority show ?thesis by (intro burst_inv_take_priority [OF inv]) auto
  next
    case False
    with AtPriority nx have "s' = s\<lparr>pc := AtSelect\<rparr>" by (simp add: batcher_next_def)
    with AtPriority inv show ?thesis by (intro burst_inv_quiet) (auto simp: burst_inv_def)
  qed
next
  case AtSelect
  assume inv: "burst_inv s n" and nx: "batcher_next ch s = Some s'"
  show ?thesis
  proof (cases ch)
    case Deadline
    with AtSelect nx have "s' = (flush s)\<lparr>pc := AtTop\<rparr>"
      by (auto simp: batcher_next_def select_step_def split: if_splits)
    with AtSelect inv show ?thesis by (intro burst_inv_quiet) (auto simp: burst_inv_def)
  next
    case (Receive c)
    with AtSelect nx have r: "ready s c"
      by (auto simp: batcher_next_def select_step_def split: if_splits)
    obtain ok s1 where t: "take_from c s = (ok, s1)" by fastforce
    show ?thesis
    proof (cases "c = PriorityQ")
      case True
      with Receive AtSelect nx r have "s' = (take_priority s)\<lparr>pc := AtTop\<rparr>"
        by (simp add: batcher_next_def select_step_def)
      with True r AtSelect show ?thesis by (intro burst_inv_take_priority [OF inv]) auto
    next
      case False
      with Receive AtSelect nx r t have
        "s' = (if c = BulkQ then s1\<lparr>burst := 0, pc := AtTop\<rparr> else s1\<lparr>pc := AtTop\<rparr>)"
        by (cases c) (simp_all add: batcher_next_def select_step_def)
      with False r take_from_fields(2) [OF t] show ?thesis
        by (intro burst_inv_take [OF inv r t]) auto
    qed
  qed
qed (simp add: batcher_next_def)

lemma observed_burst_inv: "observed s n \<Longrightarrow> burst_inv s n"
proof (induction rule: observed.induct)
  case start
  show ?case by (simp add: burst_inv_def batcher_start_def)
next
  case (step s n s')
  from step.hyps(2) show ?case
  proof (cases rule: batcher_step.cases)
    case (own ch)
    with step.IH show ?thesis by (blast intro: burst_inv_next)
  qed (use step.IH in \<open>auto simp: burst_inv_def overtaking_def\<close>)
qed




subsection \<open>Closing the queues drains them\<close>

definition own_step :: "'m batcher \<Rightarrow> 'm batcher \<Rightarrow> bool" where
  "own_step s s' \<longleftrightarrow> (\<exists>ch. batcher_next ch s = Some s')"

definition taken :: "chan \<Rightarrow> 'm batcher \<Rightarrow> 'm list" where
  "taken c s = map snd (filter (\<lambda>p. fst p = c) (consumed s))"

fun pc_rank :: "batcher_pc \<Rightarrow> nat" where
  "pc_rank AtTop = 3"
| "pc_rank AtBulk = 2"
| "pc_rank AtPriority = 1"
| "pc_rank _ = 0"

definition chan_work :: "'m batcher \<Rightarrow> chan \<Rightarrow> nat" where
  "chan_work s c = length (queue s c) + (if live s c then 1 else 0)"

definition batcher_work :: "'m batcher \<Rightarrow> nat" where
  "batcher_work s = 8 * (chan_work s StateQ + chan_work s PriorityQ + chan_work s BulkQ)
     + (if armed s then 4 else 0) + pc_rank (pc s)"

lemma batcher_work_take:
  assumes "ready s c" "take_from c s0 = (ok, s1)" "queue s0 = queue s" "live s0 = live s"
    and "queue s' = queue s1" "live s' = live s1" "pc s' = AtTop"
  shows "batcher_work s' < batcher_work s"
proof -
  have c: "chan_work s' c < chan_work s c"
    using assms take_from_fields [OF assms(2)] by (auto simp: chan_work_def ready_def)
  have "chan_work s' d = chan_work s d" if "d \<noteq> c" for d
    using that assms take_from_fields [OF assms(2)] by (auto simp: chan_work_def)
  with c have less: "chan_work s' StateQ + chan_work s' PriorityQ + chan_work s' BulkQ
      < chan_work s StateQ + chan_work s PriorityQ + chan_work s BulkQ"
    by (cases c) auto
  have step: "x' < x \<Longrightarrow> r = 3 \<Longrightarrow> a' \<le> 4 \<Longrightarrow> 8 * x' + a' + r < 8 * x + a + (b :: nat)"
    for x' x r a' a b by linarith
  show ?thesis
    unfolding batcher_work_def by (rule step [OF less]) (simp_all add: assms(7))
qed

text \<open>Every own step, whatever its kind, is one of four.\<close>

lemma batcher_next_kinds:
  assumes "batcher_next ch s = Some s'"
  obtains (taken) c s0 ok s1 where "ready s c" "take_from c s0 = (ok, s1)" "queue s0 = queue s"
      "closed_ch s0 = closed_ch s" "live s0 = live s" "consumed s0 = consumed s"
      "queue s' = queue s1" "closed_ch s' = closed_ch s1" "live s' = live s1"
      "consumed s' = consumed s1" "pc s' = AtTop"
  | (moved) p b where "s' = s\<lparr>burst := b, pc := p\<rparr>" "pc_rank p < pc_rank (pc s)" "p \<noteq> Finished"
      "live s StateQ \<or> live s PriorityQ \<or> live s BulkQ \<or> pc s \<noteq> AtTop" "p \<noteq> AtTop"
  | (expired) "s' = (flush s)\<lparr>pc := AtTop\<rparr>" "armed s" "pc s = AtSelect"
  | (ended) "s' = (flush s)\<lparr>pc := Finished\<rparr>" "pc s = AtTop"
      "\<not> (live s StateQ \<or> live s PriorityQ \<or> live s BulkQ)"
proof (cases "pc s")
  case AtTop
  obtain ok s1 where t: "take_from StateQ s = (ok, s1)" by fastforce
  from AtTop assms t consider "s' = (flush s)\<lparr>pc := Finished\<rparr>"
      "\<not> (live s StateQ \<or> live s PriorityQ \<or> live s BulkQ)"
    | "ready s StateQ" "s' = s1\<lparr>pc := AtTop\<rparr>"
    | "s' = s\<lparr>pc := AtBulk\<rparr>" "live s StateQ \<or> live s PriorityQ \<or> live s BulkQ"
    by (auto simp: batcher_next_def split: if_splits)
  then show ?thesis
  proof cases
    case 1
    with AtTop show ?thesis by (intro ended) auto
  next
    case 2
    with t show ?thesis by (intro taken [of StateQ s]) auto
  next
    case 3
    with AtTop show ?thesis by (intro moved [of AtBulk "burst s"]) auto
  qed
next
  case AtBulk
  obtain ok s1 where t: "take_from BulkQ (s\<lparr>burst := 0\<rparr>) = (ok, s1)" by fastforce
  have r: "ready (s\<lparr>burst := 0\<rparr>) BulkQ = ready s BulkQ" by (simp add: ready_def)
  from AtBulk assms t r consider "ready s BulkQ" "s' = s1\<lparr>pc := AtTop\<rparr>"
    | "s' = s\<lparr>burst := 0, pc := AtPriority\<rparr>" | "s' = s\<lparr>pc := AtPriority\<rparr>"
    by (auto simp: batcher_next_def Let_def split: if_splits)
  then show ?thesis
  proof cases
    case 1
    with t show ?thesis by (intro taken [of BulkQ "s\<lparr>burst := 0\<rparr>"]) auto
  next
    case 2
    with AtBulk show ?thesis by (intro moved [of AtPriority 0]) auto
  next
    case 3
    with AtBulk show ?thesis by (intro moved [of AtPriority "burst s"]) auto
  qed
next
  case AtPriority
  obtain ok s1 where t: "take_from PriorityQ s = (ok, s1)" by fastforce
  from AtPriority assms t consider "ready s PriorityQ"
      "s' = (if ok then s1\<lparr>burst := Suc (burst s1)\<rparr> else s1)\<lparr>pc := AtTop\<rparr>"
    | "s' = s\<lparr>pc := AtSelect\<rparr>"
    by (auto simp: batcher_next_def take_priority_def split: if_splits)
  then show ?thesis
  proof cases
    case 1
    with t show ?thesis by (intro taken [of PriorityQ s ok s1]) auto
  next
    case 2
    with AtPriority show ?thesis by (intro moved [of AtSelect "burst s"]) auto
  qed
next
  case AtSelect
  show ?thesis
  proof (cases ch)
    case Deadline
    with AtSelect assms show ?thesis
      by (intro expired) (auto simp: batcher_next_def select_step_def split: if_splits)
  next
    case (Receive c)
    with AtSelect assms have r: "ready s c"
      by (auto simp: batcher_next_def select_step_def split: if_splits)
    obtain ok s1 where t: "take_from c s = (ok, s1)" by fastforce
    with Receive AtSelect assms r have
      "queue s' = queue s1 \<and> closed_ch s' = closed_ch s1 \<and> live s' = live s1 \<and>
       consumed s' = consumed s1 \<and> pc s' = AtTop"
      by (cases c) (auto simp: batcher_next_def select_step_def take_priority_def)
    with t r show ?thesis by (intro taken [of c s ok s1]) auto
  qed
qed (use assms in \<open>simp add: batcher_next_def\<close>)

lemma own_step_decreases: "batch_inv s \<Longrightarrow> own_step s s' \<Longrightarrow> batcher_work s' < batcher_work s"
proof -
  assume inv: "batch_inv s" and "own_step s s'"
  then obtain ch where "batcher_next ch s = Some s'" by (auto simp: own_step_def)
  then show ?thesis
  proof (cases rule: batcher_next_kinds)
    case (taken c s0 ok s1)
    then show ?thesis by (intro batcher_work_take [of s c s0 ok s1]) auto
  next
    case (moved p b)
    then show ?thesis by (simp add: batcher_work_def chan_work_def)
  next
    case expired
    with inv show ?thesis
      by (auto simp: batch_inv_def batcher_work_def chan_work_def flush_def)
  next
    case ended
    then show ?thesis by (auto simp: batcher_work_def chan_work_def flush_def)
  qed
qed

lemma own_step_taken:
  assumes "own_step s s'"
  shows "taken c s' @ queue s' c = taken c s @ queue s c" and "closed_ch s' = closed_ch s"
proof -
  from assms obtain ch where ch: "batcher_next ch s = Some s'" by (auto simp: own_step_def)
  then have "taken c s' @ queue s' c = taken c s @ queue s c \<and> closed_ch s' = closed_ch s"
  proof (cases rule: batcher_next_kinds)
    case (taken d s0 ok s1)
    with take_from_fields [OF taken(2)] show ?thesis
      by (auto simp: taken_def ready_def)
  qed (simp_all add: taken_def)
  then show "taken c s' @ queue s' c = taken c s @ queue s c" "closed_ch s' = closed_ch s" by auto
qed

definition select_inv :: "'m batcher \<Rightarrow> bool" where
  "select_inv s \<longleftrightarrow>
     (\<forall>c. \<not> live s c \<longrightarrow> queue s c = [] \<and> closed_ch s c) \<and>
     (if pc s = Finished then \<forall>c. \<not> live s c
      else pc s \<noteq> AtTop \<longrightarrow> live s StateQ \<or> live s PriorityQ \<or> live s BulkQ)"

lemma all_chans: "(\<forall>c. P c) \<longleftrightarrow> P StateQ \<and> P PriorityQ \<and> P BulkQ"
  by (metis chan.exhaust)

lemma select_inv_step: "batcher_step s s' \<Longrightarrow> select_inv s \<Longrightarrow> select_inv s'"
proof (induction rule: batcher_step.induct)
  case (own ch s s')
  from own.hyps show ?case
  proof (cases rule: batcher_next_kinds)
    case (taken c s0 ok s1)
    with own.prems take_from_fields [OF taken(2)] show ?thesis
      by (auto simp: select_inv_def ready_def)
  next
    case (moved p b)
    with own.prems show ?thesis by (auto simp: select_inv_def split: if_splits)
  next
    case expired
    with own.prems show ?thesis by (simp add: select_inv_def)
  next
    case ended
    with own.prems show ?thesis by (simp add: select_inv_def all_chans)
  qed
qed (auto simp: select_inv_def split: if_splits)

lemma batcher_reachable_select_inv: "batcher_reachable s \<Longrightarrow> select_inv s"
proof (induction rule: batcher_reachable.induct)
  case start
  show ?case by (simp add: select_inv_def batcher_start_def)
next
  case (step s s')
  then show ?case by (blast intro: select_inv_step)
qed

lemma not_stuck:
  assumes "select_inv s" "\<forall>c. closed_ch s c" "pc s \<noteq> Finished"
  shows "\<exists>s'. own_step s s'"
proof (cases "pc s")
  case AtSelect
  with assms obtain c where "live s c" by (auto simp: select_inv_def)
  with assms AtSelect have "batcher_next (Receive c) s \<noteq> None"
    by (cases c) (auto simp: batcher_next_def select_step_def ready_def)
  then show ?thesis by (auto simp: own_step_def)
qed (use assms in \<open>auto simp: own_step_def batcher_next_def Let_def intro: exI [of _ Deadline]\<close>)

lemma own_steps_keep:
  "own_step\<^sup>*\<^sup>* s s' \<Longrightarrow> batcher_reachable s \<Longrightarrow>
   batcher_reachable s' \<and> closed_ch s' = closed_ch s \<and>
   taken c s' @ queue s' c = taken c s @ queue s c"
proof (induction rule: rtranclp_induct)
  case (step t u)
  from step.hyps(2) obtain ch where "batcher_next ch t = Some u" by (auto simp: own_step_def)
  with step own_step_taken [OF step.hyps(2)] show ?case
    by (auto intro: batcher_reachable.step batcher_step.own)
qed simp

text \<open>
  C7. Once the producers have closed all three channels the batcher ends: it cannot run for ever,
  and a run that can go no further has left the loop with every message that was still queued
  taken, each channel's in order, and sent.
\<close>

theorem batcher_drains:
  fixes s :: "'m batcher"
  assumes "batcher_reachable s" and "\<forall>c. closed_ch s c"
  shows "wfp (\<lambda>t' t :: 'm batcher. batcher_reachable t \<and> own_step t t') \<and>
    (\<forall>s'. own_step\<^sup>*\<^sup>* s s' \<and> \<not> (\<exists>u. own_step s' u) \<longrightarrow>
       pc s' = Finished \<and> concat (sent s') = map snd (consumed s') \<and>
       (\<forall>c. taken c s' = taken c s @ queue s c))"
proof (intro conjI allI impI)
  show "wfp (\<lambda>t' t :: 'm batcher. batcher_reachable t \<and> own_step t t')"
    by (rule wfp_if_convertible_to_nat [of _ batcher_work])
      (auto intro: own_step_decreases batch_inv_reachable)
next
  fix s'
  assume "own_step\<^sup>*\<^sup>* s s' \<and> \<not> (\<exists>u. own_step s' u)"
  then have run: "own_step\<^sup>*\<^sup>* s s'" and stuck: "\<not> (\<exists>u. own_step s' u)" by auto
  from own_steps_keep [OF run assms(1)] have r: "batcher_reachable s'" "closed_ch s' = closed_ch s"
    "taken c s' @ queue s' c = taken c s @ queue s c" for c by blast+
  have sel: "select_inv s'" by (rule batcher_reachable_select_inv [OF r(1)])
  with stuck not_stuck [of s'] assms(2) r(2) show fin: "pc s' = Finished" by auto
  with sel have "queue s' c = []" for c by (auto simp: select_inv_def)
  with r(3) show "taken c s' = taken c s @ queue s c" for c by simp
  show "concat (sent s') = map snd (consumed s')"
  proof -
    from batch_inv_reachable [OF r(1)] fin
    have "concat (sent s') @ batch s' = map snd (consumed s')" "batch s' = []"
      unfolding batch_inv_def by blast+
    then show ?thesis by simp
  qed
qed

definition demo_closed :: "nat batcher" where
  "demo_closed = batcher_start\<lparr>closed_ch := (\<lambda>_. True)\<rparr>"

lemma demo_closed_reachable: "batcher_reachable demo_closed"
proof -
  define close where "close c s = s\<lparr>closed_ch := (closed_ch s)(c := True)\<rparr>" for c and s :: "nat batcher"
  have close: "batcher_reachable s \<Longrightarrow> batcher_reachable (close c s)" for c and s :: "nat batcher"
    unfolding close_def by (blast intro: batcher_reachable.step batcher_step.close)
  have "demo_closed = close BulkQ (close PriorityQ (close StateQ batcher_start))"
    using chan.exhaust
    by (auto simp: demo_closed_def close_def batcher_start_def fun_eq_iff intro: chan.exhaust)
  moreover have "batcher_reachable (close BulkQ (close PriorityQ (close StateQ batcher_start)))"
    by (intro close batcher_reachable.start)
  ultimately show ?thesis by simp
qed

theorem batcher_drains_witness:
  "batcher_reachable demo_closed \<and> (\<forall>c. closed_ch demo_closed c) \<and>
   wfp (\<lambda>t' t :: nat batcher. batcher_reachable t \<and> own_step t t')"
proof -
  have "\<forall>c. closed_ch demo_closed c" by (simp add: demo_closed_def)
  with batcher_drains [OF demo_closed_reachable this] demo_closed_reachable show ?thesis by simp
qed

end
