(* ===== verification/Routes.thy ===== *)
theory Routes
  imports Go_Prelude
begin

text \<open>
  \<open>core/route.go\<close>: the route tracker, which numbers the states of the routing and tells the host
  when one was left, and the exits, by which the host's answers are checked against the current
  routes.

  The routing itself is mihomo's and is an argument: what the tunnel answers when it is read.
  The lemmas show when the epoch and the version move and are published, that the newest watch
  request wins in whatever order the goroutines run, that the memo of \<open>handleCheckRoutes\<close> is
  transparent, and that the exit read off a connection's chain is the one found by following
  the groups.
\<close>

subsection \<open>What mihomo answers\<close>

datatype adapter_type =
  Selector | URLTest | Fallback | Relay | LoadBalance | OtherAdapter string

text \<open>
  \<open>'p\<close> are the proxies, \<open>'m\<close> connection metadata, \<open>'s\<close> rule-set strategies. \<open>tn_picks p\<close> is \<open>Some\<close>
  of \<open>Now()\<close> exactly when \<open>p\<close> is a \<open>pickableGroup\<close>. \<open>tn_quote\<close> is the \<open>%q\<close> of \<open>fmt\<close>.
\<close>

record ('p, 'm, 's) tunnel =
  tn_proxies :: "string \<rightharpoonup> 'p"
  tn_name :: "'p \<Rightarrow> string"
  tn_type :: "'p \<Rightarrow> adapter_type"
  tn_type_string :: "adapter_type \<Rightarrow> string"
  tn_addr :: "'p \<Rightarrow> string"
  tn_picks :: "'p \<Rightarrow> string option"
  tn_unwrap :: "'p \<Rightarrow> 'm option \<Rightarrow> 'p option"
  tn_metadata :: "string \<Rightarrow> 'm option"
  tn_resolve :: "'m \<Rightarrow> 'p option"
  tn_provider_versions :: "string \<rightharpoonup> u32"
  tn_rule_sets :: "string \<rightharpoonup> 's"
  tn_quote :: "string \<Rightarrow> string"

definition lookup_proxy :: "('p, 'm, 's) tunnel \<Rightarrow> string \<Rightarrow> 'p option" where
  "lookup_proxy tn name = tn_proxies tn name"

subsection \<open>The tracker\<close>

datatype route_change = RouteUnchanged | RouteMoved | RouteReset

fun change_rank :: "route_change \<Rightarrow> nat" where
  "change_rank RouteUnchanged = 0"
| "change_rank RouteMoved = 1"
| "change_rank RouteReset = 2"

definition max_change :: "route_change \<Rightarrow> route_change \<Rightarrow> route_change" where
  "max_change a b = (if change_rank a \<le> change_rank b then b else a)"

record route_state =
  core_epoch :: u64
  route_version :: u64

text \<open>
  A nil map of the tracker is None where the code tests for nil; \<open>picks\<close> is only compared, and a
  nil map equals an empty one. \<open>stopPoll\<close> is the number of the running poll. The last three fields
  are what the tracker does to the outside: the states published, the polls started and those
  cancelled.
\<close>

record 's route_tracker =
  rt_epoch :: u64
  rt_version :: u64
  rt_picks :: "string \<rightharpoonup> string"
  rt_providers :: "(string \<rightharpoonup> u32) option"
  rt_rule_sets :: "(string \<rightharpoonup> 's) option"
  rt_watched :: bool
  rt_watch_seq :: u64
  rt_stop_poll :: "nat option"
  rt_published :: "route_state list"
  rt_polls :: nat
  rt_cancelled :: "nat set"

definition initial_tracker :: "'s route_tracker" where
  "initial_tracker = \<lparr>rt_epoch = 0, rt_version = 0, rt_picks = Map.empty, rt_providers = None,
     rt_rule_sets = None, rt_watched = False, rt_watch_seq = 0, rt_stop_poll = None,
     rt_published = [], rt_polls = 0, rt_cancelled = {}\<rparr>"

definition route_state_locked :: "'s route_tracker \<Rightarrow> route_state" where
  "route_state_locked rt = \<lparr>core_epoch = rt_epoch rt, route_version = rt_version rt\<rparr>"

definition route_stamp :: "'s route_tracker \<Rightarrow> u64 \<times> u64" where
  "route_stamp rt = (rt_epoch rt, rt_version rt)"

definition read_picks :: "('p, 'm, 's) tunnel \<Rightarrow> string \<rightharpoonup> string" where
  "read_picks tn = (\<lambda>name. Option.bind (tn_proxies tn name) (tn_picks tn))"

definition route_differs :: "('p, 'm, 's) tunnel \<Rightarrow> 's route_tracker \<Rightarrow> bool" where
  "route_differs tn rt \<longleftrightarrow>
     (case rt_providers rt of None \<Rightarrow> False | Some v \<Rightarrow> tn_provider_versions tn \<noteq> v) \<or>
     (case rt_rule_sets rt of None \<Rightarrow> False | Some r \<Rightarrow> tn_rule_sets tn \<noteq> r) \<or>
     read_picks tn \<noteq> rt_picks rt"

definition refresh_route_locked ::
  "('p, 'm, 's) tunnel \<Rightarrow> route_change \<Rightarrow> 's route_tracker \<Rightarrow> 's route_tracker" where
  "refresh_route_locked tn change0 rt =
     (let change = (if route_differs tn rt then max_change change0 RouteMoved else change0);
          rt1 = rt\<lparr>rt_providers := Some (tn_provider_versions tn),
                   rt_rule_sets := Some (tn_rule_sets tn), rt_picks := read_picks tn\<rparr>;
          rt2 = (if change = RouteReset then rt1\<lparr>rt_epoch := rt_epoch rt1 + 1\<rparr> else rt1)
      in if change = RouteUnchanged then rt2
         else (let rt3 = rt2\<lparr>rt_version := rt_version rt2 + 1\<rparr>
               in if \<not> rt_watched rt3 then rt3
                  else rt3\<lparr>rt_published := rt_published rt3 @ [route_state_locked rt3]\<rparr>))"

text \<open>\<open>changeRoute\<close> is this under \<open>selectMu\<close>, \<open>refreshRoute\<close> and \<open>bumpRouteEpoch\<close> its two uses.\<close>

definition change_route ::
  "('p, 'm, 's) tunnel \<Rightarrow> route_change \<Rightarrow> 's route_tracker \<Rightarrow> 's route_tracker" where
  "change_route tn change rt = refresh_route_locked tn change rt"

definition refresh_route :: "('p, 'm, 's) tunnel \<Rightarrow> 's route_tracker \<Rightarrow> 's route_tracker" where
  "refresh_route tn rt = change_route tn RouteUnchanged rt"

definition bump_route_epoch :: "('p, 'm, 's) tunnel \<Rightarrow> 's route_tracker \<Rightarrow> 's route_tracker" where
  "bump_route_epoch tn rt = change_route tn RouteReset rt"

subsection \<open>Watching\<close>

definition stop_route_poll_locked :: "'s route_tracker \<Rightarrow> 's route_tracker" where
  "stop_route_poll_locked rt =
     (case rt_stop_poll rt of
        None \<Rightarrow> rt
      | Some poll \<Rightarrow> rt\<lparr>rt_cancelled := insert poll (rt_cancelled rt), rt_stop_poll := None\<rparr>)"

definition set_route_watch :: "bool \<Rightarrow> u64 \<Rightarrow> 's route_tracker \<Rightarrow> 's route_tracker" where
  "set_route_watch watch seq rt =
     (if seq < rt_watch_seq rt then rt
      else (let rt1 = rt\<lparr>rt_watch_seq := seq, rt_watched := watch\<rparr>;
                rt2 = (if watch \<and> rt_stop_poll rt1 = None
                       then rt1\<lparr>rt_stop_poll := Some (rt_polls rt1), rt_polls := Suc (rt_polls rt1)\<rparr>
                       else rt1)
            in if \<not> watch then stop_route_poll_locked rt2 else rt2))"

definition handle_watch_route ::
  "('p, 'm, 's) tunnel \<Rightarrow> bool \<Rightarrow> u64 \<Rightarrow> 's route_tracker \<Rightarrow> route_state \<times> 's route_tracker" where
  "handle_watch_route tn watch seq rt =
     (let rt1 = set_route_watch watch seq (refresh_route tn rt)
      in (route_state_locked rt1, rt1))"

text \<open>\<open>stopRouteWatch\<close> draws the next number of \<open>methodCallSeq\<close>.\<close>

definition stop_route_watch :: "u64 \<Rightarrow> 's route_tracker \<Rightarrow> u64 \<times> 's route_tracker" where
  "stop_route_watch call_seq rt =
     (let seq = call_seq + 1
      in (seq, stop_route_poll_locked
                 (rt\<lparr>rt_watch_seq := max (rt_watch_seq rt) seq, rt_watched := False\<rparr>)))"

text \<open>One tick of \<open>pollRoute\<close>, for the poll with that number.\<close>

definition poll_tick ::
  "('p, 'm, 's) tunnel \<Rightarrow> bool \<Rightarrow> nat \<Rightarrow> 's route_tracker \<Rightarrow> 's route_tracker" where
  "poll_tick tn is_running poll rt =
     (if poll \<in> rt_cancelled rt then rt
      else if is_running then refresh_route tn rt
      else rt)"

subsection \<open>Exits\<close>

definition exit_name :: "('p, 'm, 's) tunnel \<Rightarrow> 'p \<Rightarrow> string" where
  "exit_name tn p =
     tn_quote tn (tn_name tn p) @ '' '' @ tn_type_string tn (tn_type tn p) @ '' '' @ tn_addr tn p"

text \<open>The loop follows \<open>Unwrap\<close>; it may go on for ever over a cycle of groups.\<close>

partial_function (option) exit_through ::
  "('p, 'm, 's) tunnel \<Rightarrow> 'm option \<Rightarrow> 'p option \<Rightarrow> string option" where
  "exit_through tn md proxy =
     (case proxy of
        None \<Rightarrow> Some []
      | Some p \<Rightarrow>
          if tn_type tn p = LoadBalance then Some (exit_name tn p)
          else (case tn_unwrap tn p md of
                  None \<Rightarrow> Some (exit_name tn p)
                | Some next \<Rightarrow> exit_through tn md (Some next)))"

definition resolve_exit :: "('p, 'm, 's) tunnel \<Rightarrow> string \<Rightarrow> string \<Rightarrow> string option" where
  "resolve_exit tn host proxy_name =
     (let md = tn_metadata tn host
      in if proxy_name \<noteq> [] then exit_through tn md (lookup_proxy tn proxy_name)
         else (case md of
             None \<Rightarrow> Some []
           | Some m \<Rightarrow>
               (case tn_resolve tn m of
                  None \<Rightarrow> Some []
                | Some p \<Rightarrow> exit_through tn md (Some p))))"

fun outermost_balancer :: "('p, 'm, 's) tunnel \<Rightarrow> string list \<Rightarrow> 'p option" where
  "outermost_balancer tn [] = None"
| "outermost_balancer tn (name # names) =
     (case tn_proxies tn name of
        Some p \<Rightarrow> if tn_type tn p = LoadBalance then Some p else outermost_balancer tn names
      | None \<Rightarrow> outermost_balancer tn names)"

definition exit_of_chains :: "('p, 'm, 's) tunnel \<Rightarrow> string list \<Rightarrow> string" where
  "exit_of_chains tn hops =
     (case hops of
        [] \<Rightarrow> []
      | leaf # others \<Rightarrow>
          (case outermost_balancer tn (rev others) of
             Some p \<Rightarrow> exit_name tn p
           | None \<Rightarrow>
               (case tn_proxies tn leaf of Some p \<Rightarrow> exit_name tn p | None \<Rightarrow> [])))"

subsection \<open>Checking routes\<close>

record route_hit =
  hit_host :: string
  hit_proxy :: string
  hit_exit :: string

type_synonym exit_memo = "(string \<times> string) \<rightharpoonup> string"

text \<open>One route of \<open>handleCheckRoutes\<close>, threading the memo; None when an exit does not return.\<close>

fun check_route ::
  "(string \<Rightarrow> string \<Rightarrow> string option) \<Rightarrow> route_hit list \<Rightarrow> exit_memo \<Rightarrow> (bool \<times> exit_memo) option" where
  "check_route resolve [] memo = Some (True, memo)"
| "check_route resolve (hit # hits) memo =
     (case (case memo (hit_host hit, hit_proxy hit) of
              Some e \<Rightarrow> Some (e, memo)
            | None \<Rightarrow>
                map_option (\<lambda>e. (e, memo((hit_host hit, hit_proxy hit) \<mapsto> e)))
                  (resolve (hit_host hit) (hit_proxy hit))) of
        None \<Rightarrow> None
      | Some (e, memo1) \<Rightarrow>
          if e \<noteq> hit_exit hit then Some (False, memo1) else check_route resolve hits memo1)"

fun check_routes ::
  "(string \<Rightarrow> string \<Rightarrow> string option) \<Rightarrow> route_hit list list \<Rightarrow> exit_memo \<Rightarrow> bool list option" where
  "check_routes resolve [] memo = Some []"
| "check_routes resolve (route # routes) memo =
     (case check_route resolve route memo of
        None \<Rightarrow> None
      | Some (held, memo1) \<Rightarrow>
          map_option (\<lambda>hs. (route \<noteq> [] \<and> held) # hs) (check_routes resolve routes memo1))"

record route_check =
  chk_epoch :: u64
  chk_version :: u64
  chk_held :: "bool list"

definition handle_check_routes ::
  "('p, 'm, 's) tunnel \<Rightarrow> 's route_tracker \<Rightarrow> route_hit list list \<Rightarrow> route_check option" where
  "handle_check_routes tn rt routes =
     map_option (\<lambda>held. \<lparr>chk_epoch = fst (route_stamp rt), chk_version = snd (route_stamp rt),
         chk_held = held\<rparr>)
       (check_routes (resolve_exit tn) routes Map.empty)"

subsection \<open>What a refresh does\<close>

lemma refresh_route_differs [simp]: "\<not> route_differs tn (refresh_route_locked tn c rt)"
  by (auto simp: refresh_route_locked_def route_differs_def Let_def)

lemma refresh_route_watch [simp]:
  "rt_watched (refresh_route_locked tn c rt) = rt_watched rt"
  "rt_watch_seq (refresh_route_locked tn c rt) = rt_watch_seq rt"
  "rt_stop_poll (refresh_route_locked tn c rt) = rt_stop_poll rt"
  "rt_polls (refresh_route_locked tn c rt) = rt_polls rt"
  "rt_cancelled (refresh_route_locked tn c rt) = rt_cancelled rt"
  by (simp_all add: refresh_route_locked_def Let_def)

lemma refresh_route_settled:
  assumes "\<not> route_differs tn rt" "rt_providers rt \<noteq> None" "rt_rule_sets rt \<noteq> None"
  shows "refresh_route tn rt = rt"
  using assms
  by (auto simp: refresh_route_def change_route_def refresh_route_locked_def route_differs_def
      Let_def split: option.splits)

definition moves :: "('p, 'm, 's) tunnel \<Rightarrow> route_change \<Rightarrow> 's route_tracker \<Rightarrow> bool" where
  "moves tn c rt \<longleftrightarrow> c \<noteq> RouteUnchanged \<or> route_differs tn rt"

lemma max_change_moved:
  "max_change c RouteMoved = (if c = RouteReset then RouteReset else RouteMoved)"
  by (cases c) (simp_all add: max_change_def)

lemma change_route_effects:
  "rt_epoch (change_route tn c rt) = rt_epoch rt + (if c = RouteReset then 1 else 0)"
  "rt_version (change_route tn c rt) = rt_version rt + (if moves tn c rt then 1 else 0)"
  "rt_published (change_route tn c rt) = rt_published rt @
     (if moves tn c rt \<and> rt_watched rt then [route_state_locked (change_route tn c rt)] else [])"
  by (cases c; simp add: change_route_def refresh_route_locked_def moves_def Let_def
      max_change_moved route_state_locked_def)+

text \<open>C8. A refresh after any change of the route is a no-op while mihomo answers the same:
  the change itself moved the version by one exactly when it was asked for or an answer differed,
  moved the epoch exactly on a reset, and published its new state exactly when it moved under a
  watch.\<close>

theorem change_route_settles:
  "refresh_route tn (change_route tn c rt) = change_route tn c rt \<and>
   rt_epoch (change_route tn c rt) = rt_epoch rt + (if c = RouteReset then 1 else 0) \<and>
   rt_version (change_route tn c rt) =
     rt_version rt + (if c = RouteUnchanged \<and> \<not> route_differs tn rt then 0 else 1) \<and>
   rt_published (change_route tn c rt) = rt_published rt @
     (if c = RouteUnchanged \<and> \<not> route_differs tn rt then [] else if rt_watched rt
      then [\<lparr>core_epoch = rt_epoch (change_route tn c rt),
             route_version = rt_version (change_route tn c rt)\<rparr>] else [])"
proof -
  have "refresh_route tn (change_route tn c rt) = change_route tn c rt"
    by (rule refresh_route_settled) (simp_all add: change_route_def, simp_all add: refresh_route_locked_def Let_def)
  then show ?thesis
    by (simp add: change_route_effects moves_def route_state_locked_def)
qed

subsection \<open>Watches in any order\<close>

text \<open>
  The dispatcher numbers each watch call as it arrives (\<open>methodCallSeq\<close> in \<open>core/method.go\<close>) and
  runs it on its own goroutine, so the waiting calls may run in any order, between refreshes,
  polls and the stop of a shutdown. \<open>rs_newest\<close> is the executed call with the greatest number.
\<close>

record 's route_system =
  rs_rt :: "'s route_tracker"
  rs_seq :: u64
  rs_waiting :: "(u64 \<times> bool) set"
  rs_newest :: "u64 \<times> bool"

definition route_start :: "'s route_system" where
  "route_start = \<lparr>rs_rt = initial_tracker, rs_seq = 0, rs_waiting = {}, rs_newest = (0, False)\<rparr>"

definition newer :: "u64 \<times> bool \<Rightarrow> u64 \<times> bool \<Rightarrow> u64 \<times> bool" where
  "newer old new = (if fst new < fst old then old else new)"

inductive route_step :: "('p, 'm, 's) tunnel set \<Rightarrow> 's route_system \<Rightarrow> 's route_system \<Rightarrow> bool"
  for world where
  route_dispatch: "rs_seq s < - 1 \<Longrightarrow>
     route_step world s (s\<lparr>rs_seq := rs_seq s + 1, rs_waiting := insert (rs_seq s + 1, w) (rs_waiting s)\<rparr>)"
| route_watch: "(n, w) \<in> rs_waiting s \<Longrightarrow> tn \<in> world \<Longrightarrow>
     route_step world s (s\<lparr>rs_rt := snd (handle_watch_route tn w n (rs_rt s)),
       rs_waiting := rs_waiting s - {(n, w)}, rs_newest := newer (rs_newest s) (n, w)\<rparr>)"
| route_stop: "rs_seq s < - 1 \<Longrightarrow> stop_route_watch (rs_seq s) (rs_rt s) = (n, rt') \<Longrightarrow>
     route_step world s (s\<lparr>rs_rt := rt', rs_seq := n, rs_newest := newer (rs_newest s) (n, False)\<rparr>)"
| route_changed: "tn \<in> world \<Longrightarrow> route_step world s (s\<lparr>rs_rt := change_route tn c (rs_rt s)\<rparr>)"
| route_tick: "tn \<in> world \<Longrightarrow> route_step world s (s\<lparr>rs_rt := poll_tick tn running poll (rs_rt s)\<rparr>)"

inductive_cases route_stepE: "route_step world s s'"

inductive route_reachable :: "('p, 'm, 's) tunnel set \<Rightarrow> 's route_system \<Rightarrow> bool"
  for world where
  route_reach_start: "route_reachable world route_start"
| route_reach_step: "route_reachable world s \<Longrightarrow> route_step world s s' \<Longrightarrow> route_reachable world s'"

definition poll_inv :: "'s route_tracker \<Rightarrow> bool" where
  "poll_inv rt \<longleftrightarrow> (rt_stop_poll rt \<noteq> None \<longleftrightarrow> rt_watched rt) \<and>
     {p. p < rt_polls rt \<and> p \<notin> rt_cancelled rt} = set_option (rt_stop_poll rt) \<and>
     rt_cancelled rt \<subseteq> {..<rt_polls rt}"

lemma poll_inv_change [simp]: "poll_inv (refresh_route_locked tn c rt) = poll_inv rt"
  by (simp add: poll_inv_def)

lemma poll_inv_watch: "poll_inv rt \<Longrightarrow> poll_inv (set_route_watch w n rt)"
  unfolding poll_inv_def set_route_watch_def stop_route_poll_locked_def
  by (cases "rt_stop_poll rt"; cases "rt_watched rt"; cases w; simp add: Let_def)
     (auto simp: less_Suc_eq)

lemma poll_inv_stop: "poll_inv rt \<Longrightarrow> stop_route_watch k rt = (n, rt') \<Longrightarrow> poll_inv rt'"
  unfolding poll_inv_def stop_route_watch_def stop_route_poll_locked_def
  by (cases "rt_stop_poll rt"; cases "rt_watched rt"; simp add: Let_def) auto

lemma poll_inv_handle: "poll_inv rt \<Longrightarrow> poll_inv (snd (handle_watch_route tn w n rt))"
  by (simp add: handle_watch_route_def Let_def refresh_route_def change_route_def poll_inv_watch)

lemma poll_inv_tick: "poll_inv rt \<Longrightarrow> poll_inv (poll_tick tn running poll rt)"
  by (simp add: poll_tick_def refresh_route_def change_route_def)

definition system_inv :: "'s route_system \<Rightarrow> bool" where
  "system_inv s \<longleftrightarrow> poll_inv (rs_rt s) \<and> rt_watch_seq (rs_rt s) = fst (rs_newest s) \<and>
     rt_watched (rs_rt s) = snd (rs_newest s) \<and> fst (rs_newest s) \<le> rs_seq s \<and>
     (\<forall>call \<in> rs_waiting s. fst call \<le> rs_seq s)"

lemma watch_fields:
  "rt_watch_seq (snd (handle_watch_route tn w n rt)) = (if n < rt_watch_seq rt then rt_watch_seq rt else n)"
  "rt_watched (snd (handle_watch_route tn w n rt)) = (if n < rt_watch_seq rt then rt_watched rt else w)"
  by (simp_all add: handle_watch_route_def refresh_route_def change_route_def set_route_watch_def
      stop_route_poll_locked_def Let_def split: option.splits)

lemma stop_fields:
  assumes "stop_route_watch k rt = (n, rt')"
  shows "n = k + 1" "rt_watch_seq rt' = max (rt_watch_seq rt) n" "\<not> rt_watched rt'"
  using assms by (auto simp: stop_route_watch_def stop_route_poll_locked_def Let_def split: option.splits)

lemma tick_fields:
  "rt_watch_seq (poll_tick tn running poll rt) = rt_watch_seq rt"
  "rt_watched (poll_tick tn running poll rt) = rt_watched rt"
  "rt_watch_seq (change_route tn c rt) = rt_watch_seq rt"
  "rt_watched (change_route tn c rt) = rt_watched rt"
  by (simp_all add: poll_tick_def refresh_route_def change_route_def)

lemma below_max:
  fixes k :: u64
  assumes "k < - 1" shows "k < k + 1" "m \<le> k \<Longrightarrow> m < k + 1"
proof -
  have "unat k + 1 < 2 ^ 64"
    using assms by (simp add: word_less_nat_alt unsigned_minus_1_eq_mask mask_eq_exp_minus_1)
  then have "unat (k + 1) = unat k + 1" by (simp add: unat_word_ariths(1))
  then show *: "k < k + 1" by (simp add: word_less_nat_alt)
  show "m \<le> k \<Longrightarrow> m < k + 1" by (rule le_less_trans[OF _ *])
qed

lemma below_max_word: "(0::u64) < - 1" "(1::u64) < - 1" "(2::u64) < - 1"
  by (simp_all add: word_less_nat_alt unsigned_minus_1_eq_mask mask_eq_exp_minus_1)

lemma system_inv_step:
  assumes "route_step world s s'" "system_inv s" shows "system_inv s'"
  using assms(1)
proof (cases rule: route_step.cases)
  case (route_dispatch w)
  then show ?thesis using assms(2) below_max[of "rs_seq s"]
    by (auto simp: system_inv_def intro: order.strict_implies_order)
next
  case (route_watch n w tn)
  then have "n \<le> rs_seq s" using assms(2) by (fastforce simp: system_inv_def)
  then show ?thesis using route_watch assms(2)
    by (auto simp: system_inv_def watch_fields newer_def poll_inv_handle)
next
  case (route_stop n rt')
  note f = stop_fields[OF route_stop(3)]
  have lt: "fst (rs_newest s) < n" "\<forall>call \<in> rs_waiting s. fst call \<le> n"
    using assms(2) f(1) below_max[OF route_stop(2)]
    by (auto simp: system_inv_def intro: order.strict_implies_order)
  then show ?thesis
    using route_stop assms(2) f poll_inv_stop[OF _ route_stop(3)]
    by (auto simp: system_inv_def newer_def max_def)
next
  case (route_changed tn c)
  then show ?thesis using assms(2)
    by (simp add: system_inv_def tick_fields) (simp add: change_route_def)
next
  case (route_tick tn running poll)
  then show ?thesis using assms(2) by (simp add: system_inv_def tick_fields poll_inv_tick)
qed

lemma system_inv_reachable: "route_reachable world s \<Longrightarrow> system_inv s"
proof (induction rule: route_reachable.induct)
  case route_reach_start
  then show ?case
    by (simp add: system_inv_def route_start_def initial_tracker_def poll_inv_def)
next
  case (route_reach_step s s')
  then show ?case by (blast intro: system_inv_step)
qed

text \<open>C9. However the goroutines of the dispatched watch calls, the refreshes, the polls and the
  stops interleave, the tracker is watched exactly when the executed call with the greatest number
  asked for it; a poll is running exactly while it is watched, it is the only poll not cancelled,
  and no poll is ever lost uncancelled.\<close>

theorem newest_watch_wins:
  assumes "route_reachable world s"
  shows "rt_watched (rs_rt s) = snd (rs_newest s) \<and> rt_watch_seq (rs_rt s) = fst (rs_newest s) \<and>
    (rt_stop_poll (rs_rt s) \<noteq> None \<longleftrightarrow> rt_watched (rs_rt s)) \<and>
    {p. p < rt_polls (rs_rt s) \<and> p \<notin> rt_cancelled (rs_rt s)} = set_option (rt_stop_poll (rs_rt s)) \<and>
    (\<forall>call \<in> rs_waiting s. fst call \<le> rs_seq s)"
  using system_inv_reachable[OF assms] by (simp add: system_inv_def poll_inv_def)

definition after_stop :: "u64 \<Rightarrow> 's route_system \<Rightarrow> bool" where
  "after_stop k s \<longleftrightarrow> system_inv s \<and> k \<le> fst (rs_newest s) \<and>
     (fst (rs_newest s) = k \<longrightarrow> \<not> snd (rs_newest s)) \<and>
     (\<forall>call \<in> rs_waiting s. fst call \<noteq> k)"

lemma after_stop_step:
  assumes "route_step world s s'" "after_stop k s" shows "after_stop k s'"
proof -
  have inv: "system_inv s'"
    using assms system_inv_step by (auto simp: after_stop_def)
  have k: "k \<le> rs_seq s" "k \<le> fst (rs_newest s)"
    using assms(2) by (auto simp: after_stop_def system_inv_def)
  show ?thesis
    using assms(1)
  proof (cases rule: route_step.cases)
    case (route_dispatch w)
    then show ?thesis using inv assms(2) k(1) below_max(2)[of "rs_seq s" k]
      by (auto simp: after_stop_def)
  next
    case (route_watch n w tn)
    then show ?thesis using inv assms(2) by (fastforce simp: after_stop_def newer_def)
  next
    case (route_stop n rt')
    then have "k < n" using k below_max(2)[OF route_stop(2)] stop_fields(1) by blast
    then show ?thesis using route_stop inv assms(2) by (auto simp: after_stop_def newer_def)
  next
    case route_changed
    then show ?thesis using inv assms(2) by (simp add: after_stop_def)
  next
    case route_tick
    then show ?thesis using inv assms(2) by (simp add: after_stop_def)
  qed
qed

lemma after_stop_steps:
  "(route_step world)\<^sup>*\<^sup>* s s' \<Longrightarrow> after_stop k s \<Longrightarrow> after_stop k s'"
  by (induction rule: rtranclp_induct) (auto intro: after_stop_step)

text \<open>A stop of the route watch outlives every watch call dispatched before it, whether it has
  run or is still waiting: from the stop on, whatever steps follow, the tracker is watched only on
  behalf of a call numbered after the stop.\<close>

theorem stop_outlives_waiting:
  assumes "route_reachable world s" "rs_seq s < - 1"
    "stop_route_watch (rs_seq s) (rs_rt s) = (n, rt')"
    "(route_step world)\<^sup>*\<^sup>* (s\<lparr>rs_rt := rt', rs_seq := n, rs_newest := newer (rs_newest s) (n, False)\<rparr>) s'"
  shows "\<not> rt_watched rt' \<and> (rt_watched (rs_rt s') \<longrightarrow> n < rt_watch_seq (rs_rt s'))"
proof -
  let ?s = "s\<lparr>rs_rt := rt', rs_seq := n, rs_newest := newer (rs_newest s) (n, False)\<rparr>"
  have inv: "system_inv s" by (rule system_inv_reachable[OF assms(1)])
  have n: "n = rs_seq s + 1" using stop_fields(1)[OF assms(3)] .
  have lt: "fst (rs_newest s) < n" "\<forall>call \<in> rs_waiting s. fst call < n"
    using inv below_max(2)[OF assms(2)] by (auto simp: system_inv_def n)
  have "system_inv ?s" by (rule system_inv_step[OF route_stop[OF assms(2,3)] inv])
  then have "after_stop n ?s"
    using lt by (auto simp: after_stop_def newer_def)
  from after_stop_steps[OF assms(4) this] show ?thesis
    using stop_fields(3)[OF assms(3)] by (auto simp: after_stop_def system_inv_def)
qed

text \<open>A tunnel over three proxies: the balancer 2 over the group 1 over the server 0.\<close>

definition demo_tunnel :: "(nat, unit, nat) tunnel" where
  "demo_tunnel = \<lparr>
     tn_proxies = [''a'' \<mapsto> 0, ''b'' \<mapsto> 1, ''c'' \<mapsto> 2],
     tn_name = (\<lambda>p. if p = 0 then ''a'' else if p = 1 then ''b'' else ''c''),
     tn_type = (\<lambda>p. if p = 2 then LoadBalance else if p = 1 then Selector else OtherAdapter ''Vless''),
     tn_type_string = (\<lambda>_. ''T''), tn_addr = (\<lambda>_. []),
     tn_picks = (\<lambda>p. if p = 1 then Some ''a'' else None),
     tn_unwrap = (\<lambda>p _. if p = 0 then None else Some (p - 1)),
     tn_metadata = (\<lambda>_. Some ()), tn_resolve = (\<lambda>_. Some 1),
     tn_provider_versions = Map.empty, tn_rule_sets = Map.empty, tn_quote = (\<lambda>s. s)\<rparr>"

definition demo_waiting :: "nat route_system" where
  "demo_waiting = route_start\<lparr>rs_seq := 1, rs_waiting := {(1, True)}\<rparr>"

lemma demo_waiting_reachable: "route_reachable {demo_tunnel} demo_waiting"
proof -
  have "route_step {demo_tunnel} route_start demo_waiting"
    using route_dispatch[of "route_start :: nat route_system" "{demo_tunnel}" True]
    by (simp add: demo_waiting_def route_start_def below_max_word)
  then show ?thesis by (blast intro: route_reachable.intros)
qed

definition demo_watched :: "nat route_system" where
  "demo_watched = demo_waiting\<lparr>rs_rt := snd (handle_watch_route demo_tunnel True 1 (rs_rt demo_waiting)),
     rs_waiting := {}, rs_newest := (1, True)\<rparr>"

lemma demo_watched_reachable: "route_reachable {demo_tunnel} demo_watched"
proof -
  have "route_step {demo_tunnel} demo_waiting demo_watched"
    using route_watch[of 1 True demo_waiting demo_tunnel "{demo_tunnel}"]
    by (simp add: demo_watched_def demo_waiting_def route_start_def newer_def)
  then show ?thesis using demo_waiting_reachable by (blast intro: route_reachable.intros)
qed

theorem newest_watch_wins_witness:
  "rt_watched (rs_rt demo_watched) \<and> rt_stop_poll (rs_rt demo_watched) \<noteq> None"
  using newest_watch_wins[OF demo_watched_reachable] by (simp add: demo_watched_def)

theorem stop_outlives_waiting_witness:
  "\<exists>n rt' s'. stop_route_watch (rs_seq demo_waiting) (rs_rt demo_waiting) = (n, rt') \<and>
     s' = demo_waiting\<lparr>rs_rt := snd (handle_watch_route demo_tunnel True 1 rt'),
       rs_seq := n, rs_waiting := {}, rs_newest := (n, False)\<rparr> \<and>
     \<not> rt_watched (rs_rt s')"
proof -
  obtain n rt' where st: "stop_route_watch (rs_seq demo_waiting) (rs_rt demo_waiting) = (n, rt')"
    by fastforce
  have n: "n = 2" using stop_fields(1)[OF st] by (simp add: demo_waiting_def)
  let ?a = "demo_waiting\<lparr>rs_rt := rt', rs_seq := n, rs_newest := newer (rs_newest demo_waiting) (n, False)\<rparr>"
  let ?b = "demo_waiting\<lparr>rs_rt := snd (handle_watch_route demo_tunnel True 1 rt'),
       rs_seq := n, rs_waiting := {}, rs_newest := (n, False)\<rparr>"
  have "route_step {demo_tunnel} ?a ?b"
    using route_watch[of 1 True ?a demo_tunnel "{demo_tunnel}"]
    by (simp add: demo_waiting_def route_start_def newer_def n)
  then have "(route_step {demo_tunnel})\<^sup>*\<^sup>* ?a ?b" by blast
  from stop_outlives_waiting[OF demo_waiting_reachable _ st this]
  have "rt_watched (rs_rt ?b) \<longrightarrow> n < rt_watch_seq (rs_rt ?b)"
    by (simp add: demo_waiting_def below_max_word)
  moreover have "rt_watch_seq (rs_rt ?b) = n"
    using stop_fields(2)[OF st]
    by (simp add: watch_fields n demo_waiting_def route_start_def initial_tracker_def)
  ultimately have "\<not> rt_watched (rs_rt ?b)" by simp
  then show ?thesis using st by blast
qed

subsection \<open>Checking is reading every exit\<close>

lemma check_route_memo:
  assumes "\<forall>h p. resolve h p \<noteq> None"
    and "\<forall>h p e. memo (h, p) = Some e \<longrightarrow> resolve h p = Some e"
  shows "\<exists>memo'. check_route resolve hits memo =
      Some (\<forall>hit \<in> set hits. resolve (hit_host hit) (hit_proxy hit) = Some (hit_exit hit), memo') \<and>
    (\<forall>h p e. memo' (h, p) = Some e \<longrightarrow> resolve h p = Some e)"
  using assms(2)
proof (induction hits arbitrary: memo)
  case Nil
  then show ?case by simp
next
  case (Cons hit hits)
  obtain e where e: "resolve (hit_host hit) (hit_proxy hit) = Some e"
    using assms(1) by blast
  let ?key = "(hit_host hit, hit_proxy hit)"
  define memo1 where "memo1 = memo(?key \<mapsto> e)"
  have sound: "\<forall>h p e. memo1 (h, p) = Some e \<longrightarrow> resolve h p = Some e"
    using Cons.prems e by (simp add: memo1_def)
  have same: "memo ?key = Some e' \<Longrightarrow> e' = e \<and> memo1 = memo" for e'
    using Cons.prems e by (auto simp: memo1_def fun_upd_idem)
  have "check_route resolve (hit # hits) memo =
      (if e \<noteq> hit_exit hit then Some (False, memo1) else check_route resolve hits memo1)"
    using e same by (cases "memo ?key") (auto simp: memo1_def)
  then show ?case using Cons.IH[OF sound] sound e by auto
qed

lemma check_routes_memo:
  assumes "\<forall>h p. resolve h p \<noteq> None"
    and "\<forall>h p e. memo (h, p) = Some e \<longrightarrow> resolve h p = Some e"
  shows "check_routes resolve routes memo =
    Some (map (\<lambda>route. route \<noteq> [] \<and>
      (\<forall>hit \<in> set route. resolve (hit_host hit) (hit_proxy hit) = Some (hit_exit hit))) routes)"
  using assms(2)
proof (induction routes arbitrary: memo)
  case (Cons route routes)
  show ?case
    using check_route_memo[OF assms(1) Cons.prems, of route] Cons.IH by auto
qed simp

definition unwraps :: "('p, 'm, 's) tunnel \<Rightarrow> ('p \<times> 'p) set" where
  "unwraps tn = {(q, p). \<exists>md. tn_unwrap tn p md = Some q}"

lemma exit_through_None: "exit_through tn md None = Some []"
  by (simp add: exit_through.simps)

lemma exit_through_Some:
  "exit_through tn md (Some p) =
     (if tn_type tn p = LoadBalance then Some (exit_name tn p)
      else (case tn_unwrap tn p md of
              None \<Rightarrow> Some (exit_name tn p)
            | Some q \<Rightarrow> exit_through tn md (Some q)))"
  by (subst exit_through.simps) simp

lemma exit_through_returns:
  assumes "wf (unwraps tn)" shows "exit_through tn md proxy \<noteq> None"
proof (cases proxy)
  case (Some p)
  have "exit_through tn md (Some p) \<noteq> None" for p
    using assms
  proof (induction p rule: wf_induct_rule)
    case (less p)
    then show ?case
      by (subst exit_through_Some) (auto simp: unwraps_def split: option.splits)
  qed
  then show ?thesis by (simp add: Some)
qed (simp add: exit_through_None)

lemma resolve_exit_returns:
  "wf (unwraps tn) \<Longrightarrow> \<forall>h p. resolve_exit tn h p \<noteq> None"
  by (auto simp: resolve_exit_def Let_def dest: exit_through_returns split: option.splits)

text \<open>C10. While no chain of groups unwraps for ever, a check of the host's routes returns, under
  the stamp of the tracker, and holds a route exactly when it has a hit and every hit resolves now
  to the exit it was reached by: neither the memo of the exits nor the early \<open>break\<close> shows.\<close>

theorem check_routes_holds:
  assumes "wf (unwraps tn)"
  shows "handle_check_routes tn rt routes = Some \<lparr>chk_epoch = rt_epoch rt, chk_version = rt_version rt,
    chk_held = map (\<lambda>route. route \<noteq> [] \<and>
      (\<forall>hit \<in> set route. resolve_exit tn (hit_host hit) (hit_proxy hit) = Some (hit_exit hit))) routes\<rparr>"
  using check_routes_memo[OF resolve_exit_returns[OF assms], of Map.empty routes]
  by (simp add: handle_check_routes_def route_stamp_def)

subsection \<open>Exits of connections\<close>

text \<open>A connection's walk: the groups it passed, outermost first, down to the hop that dialed.\<close>

fun exit_walk :: "('p, 'm, 's) tunnel \<Rightarrow> 'm option \<Rightarrow> 'p list \<Rightarrow> bool" where
  "exit_walk tn md [] = False"
| "exit_walk tn md (p # ps) =
     (tn_type tn p = LoadBalance \<or>
      (case ps of [] \<Rightarrow> tn_unwrap tn p md = None
       | q # _ \<Rightarrow> tn_unwrap tn p md = Some q \<and> exit_walk tn md ps))"

definition hops_of :: "('p, 'm, 's) tunnel \<Rightarrow> 'p list \<Rightarrow> string list" where
  "hops_of tn ps = rev (map (tn_name tn) ps)"

definition walk_exit :: "('p, 'm, 's) tunnel \<Rightarrow> 'p list \<Rightarrow> string" where
  "walk_exit tn ps = (case filter (\<lambda>p. tn_type tn p = LoadBalance) ps of
     p # _ \<Rightarrow> exit_name tn p | [] \<Rightarrow> exit_name tn (last ps))"

lemma exit_through_walk:
  "exit_walk tn md ps \<Longrightarrow> exit_through tn md (Some (hd ps)) = Some (walk_exit tn ps)"
proof (induction ps)
  case (Cons p ps)
  show ?case
  proof (cases "tn_type tn p = LoadBalance")
    case True
    then show ?thesis by (simp add: exit_through_Some walk_exit_def)
  next
    case False
    show ?thesis
    proof (cases ps)
      case Nil
      with False Cons.prems show ?thesis by (simp add: exit_through_Some walk_exit_def)
    next
      case (Cons q qs)
      with False \<open>exit_walk tn md (p # ps)\<close>
      have u: "tn_unwrap tn p md = Some q" "exit_walk tn md ps" by auto
      have "exit_through tn md (Some p) = exit_through tn md (Some (hd ps))"
        using False u(1) Cons by (subst exit_through_Some) simp
      also have "\<dots> = Some (walk_exit tn ps)" by (rule Cons.IH[OF u(2)])
      finally show ?thesis using False Cons by (simp add: walk_exit_def split: list.splits)
    qed
  qed
qed simp

lemma outermost_balancer_map:
  "\<forall>p \<in> set ps. tn_proxies tn (tn_name tn p) = Some p \<Longrightarrow>
   outermost_balancer tn (map (tn_name tn) ps) =
     (case filter (\<lambda>p. tn_type tn p = LoadBalance) ps of [] \<Rightarrow> None | p # _ \<Rightarrow> Some p)"
  by (induction ps) auto

lemma exit_of_hops:
  assumes "ps \<noteq> []" "\<forall>p \<in> set ps. tn_proxies tn (tn_name tn p) = Some p"
  shows "exit_of_chains tn (hops_of tn ps) = walk_exit tn ps"
proof -
  obtain qs q where ps: "ps = qs @ [q]" using assms(1) by (cases ps rule: rev_cases) auto
  have "outermost_balancer tn (map (tn_name tn) qs) =
     (case filter (\<lambda>p. tn_type tn p = LoadBalance) qs of [] \<Rightarrow> None | p # _ \<Rightarrow> Some p)"
    using assms(2) by (simp add: outermost_balancer_map ps)
  then show ?thesis using assms(2)
    by (simp add: exit_of_chains_def hops_of_def walk_exit_def ps split: list.splits)
qed

text \<open>The exit read off a connection's chain of hop names is the one that following the groups
  from the outermost one finds, a load balancer ending both, wherever the connection went below it:
  so a probe's recorded exit and a later route check agree while the route stands.\<close>

theorem chain_exit_is_route_exit:
  assumes "exit_walk tn md ps" "\<forall>p \<in> set ps. tn_proxies tn (tn_name tn p) = Some p"
  shows "exit_through tn md (Some (hd ps)) = Some (exit_of_chains tn (hops_of tn ps))"
proof -
  have "ps \<noteq> []" using assms(1) by auto
  then show ?thesis using exit_through_walk[OF assms(1)] exit_of_hops[OF _ assms(2)] by simp
qed

text \<open>A tunnel over three proxies: the group 2 over the balancer 1 over the server 0.\<close>

definition walk_tunnel :: "(nat, unit, nat) tunnel" where
  "walk_tunnel = \<lparr>
     tn_proxies = [''a'' \<mapsto> 0, ''b'' \<mapsto> 1, ''c'' \<mapsto> 2],
     tn_name = (\<lambda>p. if p = 0 then ''a'' else if p = 1 then ''b'' else ''c''),
     tn_type = (\<lambda>p. if p = 1 then LoadBalance else if p = 2 then Selector else OtherAdapter ''Vless''),
     tn_type_string = (\<lambda>_. ''T''), tn_addr = (\<lambda>_. []),
     tn_picks = (\<lambda>p. if p = 2 then Some ''b'' else None),
     tn_unwrap = (\<lambda>p _. if p = 0 then None else Some (p - 1)),
     tn_metadata = (\<lambda>_. Some ()), tn_resolve = (\<lambda>_. Some 0),
     tn_provider_versions = Map.empty, tn_rule_sets = Map.empty, tn_quote = (\<lambda>s. s)\<rparr>"

lemma walk_tunnel_wf: "wf (unwraps walk_tunnel)"
proof (rule wf_subset)
  show "wf (measure (\<lambda>n::nat. n))" by simp
  show "unwraps walk_tunnel \<subseteq> measure (\<lambda>n. n)"
    by (auto simp: unwraps_def walk_tunnel_def split: if_splits)
qed

theorem check_routes_holds_witness:
  "map_option chk_held (handle_check_routes walk_tunnel initial_tracker
     [[\<lparr>hit_host = ''h'', hit_proxy = ''c'', hit_exit = ''b T ''\<rparr>,
       \<lparr>hit_host = ''h'', hit_proxy = [], hit_exit = ''a T ''\<rparr>],
      [\<lparr>hit_host = ''h'', hit_proxy = ''c'', hit_exit = ''a T ''\<rparr>], []]) = Some [True, False, False]"
proof -
  have c: "resolve_exit walk_tunnel ''h'' ''c'' = Some ''b T ''"
    by (simp add: resolve_exit_def walk_tunnel_def lookup_proxy_def exit_through_Some exit_name_def)
  have d: "resolve_exit walk_tunnel ''h'' [] = Some ''a T ''"
    by (simp add: resolve_exit_def walk_tunnel_def exit_through_Some exit_name_def)
  show ?thesis using c d by (subst check_routes_holds[OF walk_tunnel_wf]) simp
qed

theorem chain_exit_is_route_exit_witness:
  "exit_through walk_tunnel None (Some 2) = Some (exit_of_chains walk_tunnel [''a'', ''b'', ''c''])"
  using chain_exit_is_route_exit[of walk_tunnel None "[2, 1, 0]"]
  by (simp add: walk_tunnel_def hops_of_def)

end
