(* ===== verification/Slots.thy ===== *)
theory Slots
  imports Go_Prelude
begin

text \<open>
  \<open>core/slots.go\<close>: the counting semaphores that bound the probes and the service checks, and the
  timeouts the host gives in milliseconds. The steps are those of the goroutines that ask for a slot,
  get one or give up, and release it.
\<close>

text \<open>The channel's capacity, how many tokens are in it, and the goroutines that wait and hold.\<close>

record slots =
  sl_capacity :: nat
  sl_tokens :: nat
  sl_waiting :: "nat set"
  sl_holders :: "nat set"

definition new_slots :: "nat \<Rightarrow> slots" where
  "new_slots n = \<lparr>sl_capacity = n, sl_tokens = 0, sl_waiting = {}, sl_holders = {}\<rparr>"

text \<open>
  \<open>acquire\<close>: a context that is done is refused before the select; then the select, which may take a
  free slot or see the context end.
\<close>

definition acquire_enter :: "bool \<Rightarrow> nat \<Rightarrow> slots \<Rightarrow> bool option \<times> slots" where
  "acquire_enter ctx_done g s =
     (if ctx_done then (Some False, s) else (None, s\<lparr>sl_waiting := insert g (sl_waiting s)\<rparr>))"

definition acquire_select :: "bool \<Rightarrow> bool \<Rightarrow> nat \<Rightarrow> slots \<Rightarrow> bool option \<times> slots" where
  "acquire_select prefer_slot ctx_done g s =
     (if sl_tokens s < sl_capacity s \<and> (prefer_slot \<or> \<not> ctx_done)
      then (Some True, s\<lparr>sl_tokens := Suc (sl_tokens s), sl_waiting := sl_waiting s - {g},
                         sl_holders := insert g (sl_holders s)\<rparr>)
      else if ctx_done then (Some False, s\<lparr>sl_waiting := sl_waiting s - {g}\<rparr>)
      else (None, s))"

definition slots_release :: "nat \<Rightarrow> slots \<Rightarrow> slots" where
  "slots_release g s = s\<lparr>sl_tokens := sl_tokens s - 1, sl_holders := sl_holders s - {g}\<rparr>"

inductive slots_step :: "slots \<Rightarrow> slots \<Rightarrow> bool" where
  slots_enter: "g \<notin> sl_waiting s \<Longrightarrow> g \<notin> sl_holders s \<Longrightarrow>
     slots_step s (snd (acquire_enter ctx_done g s))"
| slots_select: "g \<in> sl_waiting s \<Longrightarrow> slots_step s (snd (acquire_select prefer_slot ctx_done g s))"
| slots_leave: "g \<in> sl_holders s \<Longrightarrow> slots_step s (slots_release g s)"

inductive slots_reachable :: "nat \<Rightarrow> slots \<Rightarrow> bool" for n where
  slots_start: "slots_reachable n (new_slots n)"
| slots_more: "slots_reachable n s \<Longrightarrow> slots_step s s' \<Longrightarrow> slots_reachable n s'"

definition slots_inv :: "nat \<Rightarrow> slots \<Rightarrow> bool" where
  "slots_inv n s \<longleftrightarrow> sl_capacity s = n \<and> finite (sl_holders s) \<and> card (sl_holders s) = sl_tokens s \<and>
     sl_tokens s \<le> n \<and> sl_waiting s \<inter> sl_holders s = {}"

lemma slots_inv_step: "slots_step s s' \<Longrightarrow> slots_inv n s \<Longrightarrow> slots_inv n s'"
proof (induction rule: slots_step.induct)
  case (slots_enter g s ctx_done)
  then show ?case by (auto simp: slots_inv_def acquire_enter_def)
next
  case (slots_select g s prefer_slot ctx_done)
  then have "g \<notin> sl_holders s" by (auto simp: slots_inv_def)
  then show ?case using slots_select by (auto simp: slots_inv_def acquire_select_def)
next
  case (slots_leave g s)
  then show ?case by (auto simp: slots_inv_def slots_release_def)
qed

lemma slots_inv_reachable: "slots_reachable n s \<Longrightarrow> slots_inv n s"
proof (induction rule: slots_reachable.induct)
  case slots_start
  then show ?case by (simp add: slots_inv_def new_slots_def)
next
  case (slots_more s s')
  then show ?case by (blast intro: slots_inv_step)
qed

text \<open>C15. A semaphore of \<open>n\<close> slots never has more than \<open>n\<close> holders and its tokens count them, so a
  holder's release finds a token and does not block; and a goroutine whose context still runs gets a
  slot at once exactly while one is free, and is never refused.\<close>

theorem slots_bounded:
  assumes "slots_reachable n s"
  shows "card (sl_holders s) \<le> n \<and> sl_tokens s = card (sl_holders s) \<and>
    (\<forall>g \<in> sl_holders s. 0 < sl_tokens s) \<and>
    (fst (acquire_select prefer_slot False g s) = Some True \<longleftrightarrow> card (sl_holders s) < n) \<and>
    fst (acquire_select prefer_slot False g s) \<noteq> Some False"
  using slots_inv_reachable[OF assms]
  by (auto simp: slots_inv_def acquire_select_def card_gt_0_iff)

definition one_slot_taken :: slots where
  "one_slot_taken = \<lparr>sl_capacity = 1, sl_tokens = 1, sl_waiting = {}, sl_holders = {7}\<rparr>"

lemma one_slot_taken_reachable: "slots_reachable 1 one_slot_taken"
proof -
  let ?a = "snd (acquire_enter False 7 (new_slots 1))"
  have a: "slots_reachable 1 ?a"
    by (rule slots_more[OF slots_start slots_enter]) (simp_all add: new_slots_def)
  have "slots_reachable 1 (snd (acquire_select True False 7 ?a))"
    by (rule slots_more[OF a slots_select]) (simp add: acquire_enter_def)
  then show ?thesis
    by (simp add: acquire_enter_def acquire_select_def new_slots_def one_slot_taken_def)
qed

theorem slots_bounded_witness:
  "sl_tokens one_slot_taken = 1 \<and> fst (acquire_select True False 8 one_slot_taken) \<noteq> Some True"
  using slots_bounded[OF one_slot_taken_reachable, of True 8] by (simp add: one_slot_taken_def)

subsection \<open>Timeouts\<close>

text \<open>In nanoseconds; the product of an \<open>int64\<close> wraps.\<close>

definition timeout_from_millis :: "int \<Rightarrow> int \<Rightarrow> int" where
  "timeout_from_millis millis fallback =
     (if millis \<le> 0 then fallback else sint (word_of_int (millis * 1000000) :: i64))"

lemma sint_word_of_int_id:
  "- (2 ^ 63) \<le> x \<Longrightarrow> x < 2 ^ 63 \<Longrightarrow> sint (word_of_int x :: i64) = x"
  by (subst sint_sbintrunc') (simp add: signed_take_bit_int_eq_self)

text \<open>
  The host's timeouts are exact up to about 292 years; past that the product wraps, and may even
  become negative, which \<open>runProbe\<close> then takes for its default.
\<close>

lemma timeout_from_millis_exact:
  assumes "millis \<le> 9223372036854" "0 < millis"
  shows "timeout_from_millis millis fallback = millis * 1000000"
  using assms sint_word_of_int_id[of "millis * 1000000"]
  by (simp add: timeout_from_millis_def del: of_int_mult)

lemma timeout_from_millis_wraps:
  "timeout_from_millis 9223372036855 fallback = - 9223372036854551616"
  by (simp add: timeout_from_millis_def)

end
