(* ===== verification/Probes.thy ===== *)
theory Probes
  imports Routes Slots
begin

text \<open>
  \<open>core/probe.go\<close>: probes, HTTP requests the core sends through a proxy or through the tunnel, with
  the exits their connections took, and the bounded, scanned reading of the answer.

  The HTTP client, the TLS settings and the slot queue are arguments: what they answer, and for the
  client which addresses it dials. The lemmas show what the recorded hits are, that the body is
  bounded, and that scanning for a marker loses nothing at the borders of the chunks.
\<close>

subsection \<open>Hits\<close>

fun with_hit :: "route_hit list \<Rightarrow> route_hit \<Rightarrow> route_hit list" where
  "with_hit [] hit = [hit]"
| "with_hit (h # hits) hit =
     (if hit_host h = hit_host hit \<and> hit_proxy h = hit_proxy hit then hit # hits
      else h # with_hit hits hit)"

definition hit_key :: "route_hit \<Rightarrow> string \<times> string" where
  "hit_key h = (hit_host h, hit_proxy h)"

lemma with_hit_fresh: "hit_key h \<notin> hit_key ` set hs \<Longrightarrow> with_hit hs h = hs @ [h]"
  by (induction hs) (auto simp: hit_key_def)

lemma with_hit_known:
  "hit_key g = hit_key h \<Longrightarrow> hit_key h \<notin> hit_key ` set xs \<Longrightarrow>
   with_hit (xs @ g # ys) h = xs @ h # ys"
  by (induction xs) (auto simp: hit_key_def)

interpretation hits: keyed_update hit_key with_hit
  by unfold_locales (auto intro: with_hit_fresh with_hit_known)

text \<open>A \<open>hitRecorder\<close> is its list; a nil recorder is None.\<close>

definition recorder_add :: "route_hit list option \<Rightarrow> route_hit list \<Rightarrow> route_hit list option" where
  "recorder_add r hs = map_option (\<lambda>held. foldl with_hit held hs) r"

subsection \<open>Dialing\<close>

record probe_route =
  pr_chains :: "string list"
  pr_rule :: string
  pr_rule_payload :: string

record routed_conn =
  rc_address :: string
  rc_route :: "probe_route option"

text \<open>
  The dials of one \<open>probeDialer\<close> in order, the number of the latest connection that was opened, and
  which of them wait in \<open>pendingProbeRoutes\<close> for the tunnel to settle their route.
\<close>

record probe_dialer =
  pd_pinned :: bool
  pd_dials :: "routed_conn list"
  pd_last :: "nat option"
  pd_pending :: "nat set"

definition new_dialer :: "bool \<Rightarrow> probe_dialer" where
  "new_dialer pinned = \<lparr>pd_pinned = pinned, pd_dials = [], pd_last = None, pd_pending = {}\<rparr>"

text \<open>What a dial meets: a pinned proxy's chain or failure, or the tunnel leaving its suspension.\<close>

datatype dial_answer = DialFailed | DialedVia "string list"

definition settle :: "probe_route \<Rightarrow> nat \<Rightarrow> probe_dialer \<Rightarrow> probe_dialer" where
  "settle route i d = d\<lparr>pd_dials := (pd_dials d)[i := (pd_dials d ! i)\<lparr>rc_route := Some route\<rparr>]\<rparr>"

definition dial :: "('p, 'm, 's) tunnel \<Rightarrow> string \<Rightarrow> dial_answer \<Rightarrow> probe_dialer \<Rightarrow> bool \<times> probe_dialer" where
  "dial tn address answer d =
     (case tn_metadata tn address of
        None \<Rightarrow> (False, d)
      | Some _ \<Rightarrow>
          (let i = length (pd_dials d);
               d1 = d\<lparr>pd_dials := pd_dials d @ [\<lparr>rc_address = address, rc_route = None\<rparr>]\<rparr>
           in case answer of
                DialFailed \<Rightarrow> (False, d1)
              | DialedVia hops \<Rightarrow>
                  if pd_pinned d
                  then (True, (settle \<lparr>pr_chains = hops, pr_rule = [], pr_rule_payload = []\<rparr> i d1)
                                \<lparr>pd_last := Some i\<rparr>)
                  else (True, d1\<lparr>pd_pending := insert i (pd_pending d1), pd_last := Some i\<rparr>)))"

text \<open>The tunnel announces a connection (\<open>notifyProbeRoute\<close>), and the client closes one.\<close>

definition notify_probe_route :: "probe_route \<Rightarrow> nat \<Rightarrow> probe_dialer \<Rightarrow> probe_dialer" where
  "notify_probe_route route i d =
     (if i \<notin> pd_pending d then d
      else settle route i (d\<lparr>pd_pending := pd_pending d - {i}\<rparr>))"

definition close_conn :: "nat \<Rightarrow> probe_dialer \<Rightarrow> probe_dialer" where
  "close_conn i d = d\<lparr>pd_pending := pd_pending d - {i}\<rparr>"

definition dialer_route :: "probe_dialer \<Rightarrow> probe_route option" where
  "dialer_route d = Option.bind (pd_last d) (\<lambda>i. rc_route (pd_dials d ! i))"

definition exit_of_dial :: "('p, 'm, 's) tunnel \<Rightarrow> string \<Rightarrow> routed_conn \<Rightarrow> string option" where
  "exit_of_dial tn proxy_name c =
     (case rc_route c of
        Some route \<Rightarrow> Some (exit_of_chains tn (pr_chains route))
      | None \<Rightarrow> resolve_exit tn (rc_address c) proxy_name)"

fun hits_loop :: "('p, 'm, 's) tunnel \<Rightarrow> string \<Rightarrow> routed_conn list \<Rightarrow> route_hit list
   \<Rightarrow> route_hit list option" where
  "hits_loop tn proxy_name [] hs = Some hs"
| "hits_loop tn proxy_name (c # cs) hs =
     (case exit_of_dial tn proxy_name c of
        None \<Rightarrow> None
      | Some e \<Rightarrow> hits_loop tn proxy_name cs
          (with_hit hs \<lparr>hit_host = rc_address c, hit_proxy = proxy_name, hit_exit = e\<rparr>))"

definition dialer_hits :: "('p, 'm, 's) tunnel \<Rightarrow> string \<Rightarrow> probe_dialer \<Rightarrow> route_hit list option" where
  "dialer_hits tn proxy_name d = hits_loop tn proxy_name (pd_dials d) []"

subsection \<open>Reading the body\<close>

definition probe_scan_chunk :: nat where "probe_scan_chunk = 32 * 1024"
definition probe_scan_overlap :: nat where "probe_scan_overlap = 256"

text \<open>
  The answer's body arrives in pieces: a read takes what fits of the first piece. \<open>eager\<close> bodies
  report their end together with the last bytes, the others in a read of its own. The result is the
  bytes, whether an error (the end) came with them, and the rest.
\<close>

definition read_piece :: "bool \<Rightarrow> nat \<Rightarrow> bytes list \<Rightarrow> bytes \<times> bool \<times> bytes list" where
  "read_piece eager n pieces =
     (case pieces of
        [] \<Rightarrow> ([], True, [])
      | p # ps \<Rightarrow>
          if length p \<le> n then (p, eager \<and> ps = [], ps) else (take n p, False, drop n p # ps))"

text \<open>\<open>io.LimitReader\<close>: nothing after \<open>left\<close> bytes, and no read asks for more.\<close>

definition limited_read :: "bool \<Rightarrow> nat \<Rightarrow> nat \<Rightarrow> bytes list \<Rightarrow> bytes \<times> bool \<times> nat \<times> bytes list" where
  "limited_read eager left n pieces =
     (if left = 0 then ([], True, 0, pieces)
      else (case read_piece eager (min n left) pieces of
              (bs, ended, rest) \<Rightarrow> (bs, ended, left - length bs, rest)))"

definition pieces_size :: "bytes list \<Rightarrow> nat" where
  "pieces_size ps = length ps + length (concat ps)"

lemma limited_read_smaller:
  "limited_read eager left n pieces = (bs, False, left', rest) \<Longrightarrow> 0 < n \<Longrightarrow>
   pieces_size rest < pieces_size pieces"
  by (auto simp: limited_read_def read_piece_def pieces_size_def split: list.splits if_splits prod.splits)

function scan_loop ::
  "(string \<Rightarrow> bool) \<Rightarrow> bool \<Rightarrow> nat \<Rightarrow> bytes list \<Rightarrow> bytes \<Rightarrow> bytes" where
  "scan_loop until eager left pieces buffer =
     (case limited_read eager left probe_scan_chunk pieces of
        (bs, ended, left', rest) \<Rightarrow>
          (let start = length buffer - probe_scan_overlap; buffer' = buffer @ bs
           in if bs \<noteq> [] \<and> until (drop start buffer') then buffer'
              else if ended then buffer'
              else scan_loop until eager left' rest buffer'))"
  by pat_completeness auto
termination
  by (relation "measure (\<lambda>(until, eager, left, pieces, buffer). pieces_size pieces)")
     (auto simp: probe_scan_chunk_def dest: limited_read_smaller[OF sym])

declare scan_loop.simps [simp del]

definition read_probe_body :: "(string \<Rightarrow> bool) option \<Rightarrow> bool \<Rightarrow> nat \<Rightarrow> bytes list \<Rightarrow> string" where
  "read_probe_body until eager max_body pieces =
     (case until of
        None \<Rightarrow> take max_body (concat pieces)
      | Some f \<Rightarrow> scan_loop f eager max_body pieces [])"

subsection \<open>Running a probe\<close>

record go_error =
  ge_deadline :: bool \<comment> \<open>\<open>errors.Is(err, context.DeadlineExceeded)\<close>\<close>
  ge_net_timeout :: bool \<comment> \<open>a \<open>net.Error\<close> whose \<open>Timeout()\<close> holds\<close>
  ge_text :: string

definition probe_error_kind :: "go_error \<Rightarrow> string" where
  "probe_error_kind e = (if ge_deadline e \<or> ge_net_timeout e then ''timeout'' else ''failed'')"

record probe_request =
  pq_method :: string
  pq_url :: string
  pq_proxy :: string
  pq_headers :: "string \<rightharpoonup> string"
  pq_body :: bytes
  pq_timeout :: int
  pq_max_body :: int
  pq_no_redirect :: bool
  pq_until :: "(string \<Rightarrow> bool) option"

record probe_result =
  res_status :: int
  res_delay :: int
  res_body :: string
  res_url :: string
  res_chains :: "string list"
  res_rule :: string
  res_rule_payload :: string
  res_error :: string
  res_message :: string
  res_epoch :: u64
  res_version :: u64
  res_header :: "(string \<Rightarrow> string) option"
  res_hits :: "route_hit list"

text \<open>What happens around the client while it works, and what it answers.\<close>

datatype client_event =
  ClientDial string dial_answer | TunnelNotify nat probe_route | ClientClose nat

record response =
  rsp_status :: int
  rsp_header :: "string \<Rightarrow> string"
  rsp_url :: string
  rsp_delay :: int
  rsp_eager :: bool
  rsp_pieces :: "bytes list"
  rsp_later :: "client_event list" \<comment> \<open>while the body is read\<close>

record probe_env =
  pe_tls :: "go_error option"
  pe_slot :: bool
  pe_new_request :: "string \<Rightarrow> string \<Rightarrow> go_error option"
  pe_client :: "probe_request \<Rightarrow> client_event list \<times> (go_error + response)"

fun client_step :: "('p, 'm, 's) tunnel \<Rightarrow> client_event \<Rightarrow> probe_dialer \<Rightarrow> probe_dialer" where
  "client_step tn (ClientDial address answer) d = snd (dial tn address answer d)"
| "client_step tn (TunnelNotify i route) d = notify_probe_route route i d"
| "client_step tn (ClientClose i) d = close_conn i d"

definition default_probe_timeout :: int where
  "default_probe_timeout = 10 * 1000000000"

definition blank_result :: "string \<Rightarrow> u64 \<times> u64 \<Rightarrow> probe_result" where
  "blank_result url stamp = \<lparr>res_status = 0, res_delay = 0, res_body = [], res_url = url,
     res_chains = [], res_rule = [], res_rule_payload = [], res_error = [], res_message = [],
     res_epoch = fst stamp, res_version = snd stamp, res_header = None, res_hits = []\<rparr>"

definition fail_probe :: "go_error \<Rightarrow> probe_result \<Rightarrow> probe_result" where
  "fail_probe e r = r\<lparr>res_error := probe_error_kind e, res_message := ge_text e\<rparr>"

definition unknown_proxy :: "('p, 'm, 's) tunnel \<Rightarrow> string \<Rightarrow> go_error" where
  "unknown_proxy tn name = \<lparr>ge_deadline = False, ge_net_timeout = False,
     ge_text = ''proxy '' @ tn_quote tn name @ '' is not part of the applied config''\<rparr>"

definition take_response ::
  "probe_request \<Rightarrow> response \<Rightarrow> probe_dialer \<Rightarrow> probe_result \<Rightarrow> probe_result" where
  "take_response req rsp d r =
     (let r1 = r\<lparr>res_delay := rsp_delay rsp, res_status := rsp_status rsp,
                 res_header := Some (rsp_header rsp), res_url := rsp_url rsp\<rparr>;
          r2 = (case dialer_route d of
                  None \<Rightarrow> r1
                | Some route \<Rightarrow> r1\<lparr>res_chains := pr_chains route, res_rule := pr_rule route,
                                   res_rule_payload := pr_rule_payload route\<rparr>)
      in if pq_max_body req > 0
         then r2\<lparr>res_body := read_probe_body (pq_until req) (rsp_eager rsp) (nat (pq_max_body req))
                               (rsp_pieces rsp)\<rparr>
         else r2)"

text \<open>The request as it is sent, and the outcome with the dialer as the deferred read finds it.\<close>

definition outgoing :: "probe_request \<Rightarrow> probe_request" where
  "outgoing req = req\<lparr>
     pq_method := (if pq_method req = [] then ''GET'' else pq_method req),
     pq_timeout := (if pq_timeout req \<le> 0 then default_probe_timeout else pq_timeout req)\<rparr>"

definition send_probe ::
  "('p, 'm, 's) tunnel \<Rightarrow> probe_env \<Rightarrow> probe_request \<Rightarrow> probe_result \<Rightarrow> probe_result option \<times> probe_dialer" where
  "send_probe tn env req result =
     (let d0 = new_dialer (pq_proxy req \<noteq> [])
      in case pe_tls env of
           Some e \<Rightarrow> (Some (fail_probe e result), d0)
         | None \<Rightarrow>
             if \<not> pe_slot env then (None, d0)
             else (case pe_new_request env (pq_method (outgoing req)) (pq_url req) of
                 Some e \<Rightarrow> (Some (fail_probe e result), d0)
               | None \<Rightarrow>
                   (case pe_client env (outgoing req) of
                      (events, answer) \<Rightarrow>
                        (let d1 = fold (client_step tn) events d0
                         in case answer of
                              Inl e \<Rightarrow> (Some (fail_probe e result), d1)
                            | Inr rsp \<Rightarrow> (Some (take_response req rsp d1 result),
                                          fold (client_step tn) (rsp_later rsp) d1)))))"

text \<open>None when following an exit does not return; the inner None is the nil result.\<close>

definition run_probe ::
  "('p, 'm, 's) tunnel \<Rightarrow> probe_env \<Rightarrow> u64 \<times> u64 \<Rightarrow> probe_request \<Rightarrow> route_hit list option
   \<Rightarrow> (probe_result option \<times> route_hit list option) option" where
  "run_probe tn env stamp req recorder =
     (let result = blank_result (pq_url req) stamp
      in if pq_proxy req \<noteq> [] \<and> lookup_proxy tn (pq_proxy req) = None
         then (let hs = [\<lparr>hit_host = [], hit_proxy = pq_proxy req, hit_exit = []\<rparr>]
               in Some (Some (fail_probe (unknown_proxy tn (pq_proxy req)) (result\<lparr>res_hits := hs\<rparr>)),
                        recorder_add recorder hs))
         else (case send_probe tn env req result of
             (outcome, d) \<Rightarrow>
               (case dialer_hits tn (pq_proxy req) d of
                  None \<Rightarrow> None
                | Some hs \<Rightarrow> Some (map_option (\<lambda>r. r\<lparr>res_hits := hs\<rparr>) outcome,
                                   recorder_add recorder hs))))"

record probe_params =
  pp_url :: string
  pp_proxy :: string
  pp_headers :: "string \<rightharpoonup> string"
  pp_timeout :: int
  pp_max_body :: int

definition handle_probe ::
  "('p, 'm, 's) tunnel \<Rightarrow> probe_env \<Rightarrow> u64 \<times> u64 \<Rightarrow> probe_params \<Rightarrow> probe_result option option" where
  "handle_probe tn env stamp params =
     map_option fst (run_probe tn env stamp
       \<lparr>pq_method = ''GET'', pq_url = pp_url params, pq_proxy = pp_proxy params,
        pq_headers = pp_headers params, pq_body = [],
        pq_timeout = timeout_from_millis (pp_timeout params) default_probe_timeout,
        pq_max_body = pp_max_body params, pq_no_redirect = False, pq_until = None\<rparr> None)"

subsection \<open>Scanning loses nothing\<close>

lemma take_split: "n \<le> left \<Longrightarrow> take left xs = take n xs @ take (left - n) (drop n xs)"
  by (metis le_add_diff_inverse take_add)

lemma limited_read_split:
  assumes "limited_read eager left n pieces = (bs, ended, left', rest)" "0 < n"
  shows "take left (concat pieces) = bs @ take left' (concat rest)"
    and "ended \<Longrightarrow> take left' (concat rest) = []"
  using assms
  by (auto simp: limited_read_def read_piece_def min_def simp: take_split[symmetric]
      split: list.splits if_splits prod.splits)

lemma scan_loop_prefix:
  "prefix (scan_loop until eager left pieces buffer) (buffer @ take left (concat pieces)) \<and>
   prefix buffer (scan_loop until eager left pieces buffer)"
proof (induction until eager left pieces buffer rule: scan_loop.induct)
  case (1 until eager left pieces buffer)
  obtain bs ended left' rest where
    r: "limited_read eager left probe_scan_chunk pieces = (bs, ended, left', rest)"
    by (metis prod_cases4)
  have n: "0 < probe_scan_chunk" by (simp add: probe_scan_chunk_def)
  note sp = limited_read_split[OF r n]
  show ?case
  proof (cases "bs \<noteq> [] \<and> until (drop (length buffer - probe_scan_overlap) (buffer @ bs)) \<or> ended")
    case True
    then show ?thesis using sp r by (subst (1 2) scan_loop.simps) (auto simp: Let_def)
  next
    case False
    then have "scan_loop until eager left pieces buffer = scan_loop until eager left' rest (buffer @ bs)"
      using r by (subst scan_loop.simps) (auto simp: Let_def)
    moreover have "prefix (scan_loop until eager left' rest (buffer @ bs))
        ((buffer @ bs) @ take left' (concat rest)) \<and>
      prefix (buffer @ bs) (scan_loop until eager left' rest (buffer @ bs))"
      using "1.IH"[OF r[symmetric] refl refl refl refl] False by auto
    ultimately show ?thesis using sp(1) by (auto dest: append_prefixD)
  qed
qed


definition has_marker :: "string set \<Rightarrow> string \<Rightarrow> bool" where
  "has_marker markers s \<longleftrightarrow> (\<exists>w \<in> markers. contains s w)"

lemma has_marker_mono: "sublist s t \<Longrightarrow> has_marker markers s \<Longrightarrow> has_marker markers t"
  unfolding has_marker_def contains_def by (blast intro: sublist_order.order.trans)

lemma window_enough:
  assumes "\<forall>w \<in> markers. length w \<le> Suc probe_scan_overlap" "\<not> has_marker markers buffer"
  shows "has_marker markers (drop (length buffer - probe_scan_overlap) (buffer @ bs)) =
    has_marker markers (buffer @ bs)"
proof
  assume "has_marker markers (buffer @ bs)"
  then obtain w u v where w: "w \<in> markers" "buffer @ bs = u @ w @ v"
    by (auto simp: has_marker_def contains_def sublist_def)
  let ?k = "length buffer - probe_scan_overlap"
  have "?k \<le> length u"
  proof (rule ccontr)
    assume "\<not> ?k \<le> length u"
    then have "length (u @ w) \<le> length buffer" using w(1) assms(1) by fastforce
    then have "prefix (u @ w) buffer"
      using w(2) by (metis append.assoc prefixI prefix_length_prefix)
    then have "sublist w buffer" by (auto simp: prefix_def sublist_def)
    then show False using assms(2) w(1) by (auto simp: has_marker_def contains_def)
  qed
  then have "drop ?k (buffer @ bs) = drop ?k u @ w @ v" using w(2) by simp
  then show "has_marker markers (drop ?k (buffer @ bs))"
    using w(1) by (auto simp: has_marker_def contains_def sublist_def)
next
  assume "has_marker markers (drop (length buffer - probe_scan_overlap) (buffer @ bs))"
  then show "has_marker markers (buffer @ bs)"
    by (rule has_marker_mono[rotated]) (rule sublist_drop)
qed

lemma scan_loop_marker:
  assumes "\<forall>w \<in> markers. length w \<le> Suc probe_scan_overlap"
  shows "(\<forall>t. until t = has_marker markers t) \<Longrightarrow> \<not> has_marker markers buffer \<Longrightarrow>
    has_marker markers (scan_loop until eager left pieces buffer) =
    has_marker markers (buffer @ take left (concat pieces))"
proof (induction until eager left pieces buffer rule: scan_loop.induct)
  case (1 until eager left pieces buffer)
  obtain bs ended left' rest where
    r: "limited_read eager left probe_scan_chunk pieces = (bs, ended, left', rest)"
    by (metis prod_cases4)
  have n: "0 < probe_scan_chunk" by (simp add: probe_scan_chunk_def)
  note sp = limited_read_split[OF r n]
  have all: "buffer @ take left (concat pieces) = (buffer @ bs) @ take left' (concat rest)"
    using sp(1) by simp
  let ?until = "until (drop (length buffer - probe_scan_overlap) (buffer @ bs))"
  have u: "?until = has_marker markers (buffer @ bs)"
    using window_enough[OF assms "1.prems"(2)] "1.prems"(1) by simp
  consider "bs \<noteq> [] \<and> ?until" | "\<not> (bs \<noteq> [] \<and> ?until)" "ended" | "\<not> (bs \<noteq> [] \<and> ?until)" "\<not> ended"
    by blast
  then show ?case
  proof cases
    case 1
    then have "scan_loop until eager left pieces buffer = buffer @ bs"
      using r by (subst scan_loop.simps) (simp add: Let_def)
    moreover have "has_marker markers (buffer @ bs)" using 1 u by simp
    ultimately show ?thesis
      unfolding all using has_marker_mono[of "buffer @ bs" "(buffer @ bs) @ take left' (concat rest)"]
      by (simp only: sublist_appendI sublist_append_rightI) 
  next
    case 2
    then have "scan_loop until eager left pieces buffer = buffer @ bs"
      using r by (subst scan_loop.simps) (auto simp: Let_def)
    then show ?thesis unfolding all sp(2)[OF 2(2)] by simp
  next
    case 3
    then have "scan_loop until eager left pieces buffer = scan_loop until eager left' rest (buffer @ bs)"
      using r by (subst scan_loop.simps) (auto simp: Let_def)
    moreover have "\<not> has_marker markers (buffer @ bs)"
      using 3(1) u "1.prems"(2) by auto
    ultimately show ?thesis unfolding all
      using "1.IH"[OF r[symmetric] refl refl refl refl 3(1,2) "1.prems"(1)] by simp
  qed
qed

text \<open>C11. Reading the body of a probe yields a prefix of what the answer holds within the cap, all of
  it when nothing is scanned for; and a scan for markers of at most 257 bytes, which looks at each
  chunk with only the 256 bytes before it, finds a marker exactly when the capped body holds one,
  however the body is cut into pieces.\<close>

theorem probe_body_scanned:
  assumes "\<forall>w \<in> markers. length w \<le> 257" "\<forall>t. until t = has_marker markers t"
    "[] \<notin> markers"
  shows "prefix (read_probe_body (Some until) eager cap pieces) (take cap (concat pieces)) \<and>
    read_probe_body None eager cap pieces = take cap (concat pieces) \<and>
    (has_marker markers (read_probe_body (Some until) eager cap pieces) \<longleftrightarrow>
     has_marker markers (take cap (concat pieces)))"
proof -
  have "\<not> has_marker markers []" using assms(3) by (auto simp: has_marker_def contains_def)
  then have "has_marker markers (scan_loop until eager cap pieces []) =
      has_marker markers (take cap (concat pieces))"
    using scan_loop_marker[of markers until "[]" eager cap pieces] assms(1,2)
    by (simp add: probe_scan_overlap_def)
  then show ?thesis
    using scan_loop_prefix[of until eager cap pieces "[]"] by (simp add: read_probe_body_def)
qed


theorem probe_body_scanned_witness:
  "has_marker {''ab''} (read_probe_body (Some (has_marker {''ab''})) False 3 [''xa'', ''bc''])"
proof -
  have "sublist ''ab'' ''xab''" by (simp add: sublist_Cons_right)
  then show ?thesis
    using probe_body_scanned[of "{''ab''}" "has_marker {''ab''}" False 3 "[''xa'', ''bc'']"]
    by (simp add: has_marker_def contains_def)
qed

subsection \<open>The hits of a probe\<close>

definition hit_of_dial :: "('p, 'm, 's) tunnel \<Rightarrow> string \<Rightarrow> routed_conn \<Rightarrow> route_hit" where
  "hit_of_dial tn p c =
     \<lparr>hit_host = rc_address c, hit_proxy = p, hit_exit = the (exit_of_dial tn p c)\<rparr>"

lemma hits_loop_foldl:
  "hits_loop tn p cs hs =
     (if \<forall>c \<in> set cs. exit_of_dial tn p c \<noteq> None
      then Some (foldl with_hit hs (map (hit_of_dial tn p) cs)) else None)"
  by (induction cs arbitrary: hs) (auto simp: hit_of_dial_def split: option.splits)

lemma exit_of_dial_returns: "wf (unwraps tn) \<Longrightarrow> exit_of_dial tn p c \<noteq> None"
  using resolve_exit_returns[of tn] by (auto simp: exit_of_dial_def split: option.splits)

definition last_dial :: "routed_conn list \<Rightarrow> string \<Rightarrow> routed_conn option" where
  "last_dial cs host = find (\<lambda>c. rc_address c = host) (rev cs)"

lemma find_map: "find P (map f xs) = map_option f (find (P \<circ> f) xs)"
  by (induction xs) auto

lemma held_dials:
  "hits.held (rev (map (hit_of_dial tn p) cs)) (host, q) =
     (if q = p then map_option (hit_of_dial tn p) (last_dial cs host) else None)"
proof (cases "q = p")
  case True
  have "(\<lambda>h. hit_key h = (host, p)) \<circ> hit_of_dial tn p = (\<lambda>c. rc_address c = host)"
    by (auto simp: hit_of_dial_def hit_key_def)
  then show ?thesis using True
    by (simp add: hits.held_def rev_map find_map last_dial_def)
next
  case False
  then show ?thesis
    by (auto simp: hits.held_None hit_of_dial_def hit_key_def)
qed

lemma held_member:
  "distinct (map hit_key hs) \<Longrightarrow> h \<in> set hs \<longleftrightarrow> hits.held hs (hit_key h) = Some h"
  by (induction hs) (auto simp: hits.held_def image_iff)

lemma held_nil: "hits.held [] k = None"
  by (simp add: hits.held_def)

lemma dial_hits_are_last:
  assumes "wf (unwraps tn)"
  shows "\<exists>hs. hits_loop tn p cs [] = Some hs \<and> distinct (map hit_key hs) \<and>
    (\<forall>h. h \<in> set hs \<longleftrightarrow> (\<exists>c. last_dial cs (hit_host h) = Some c \<and> hit_proxy h = p \<and>
       exit_of_dial tn p c = Some (hit_exit h)))"
proof -
  define hs where "hs = foldl with_hit [] (map (hit_of_dial tn p) cs)"
  have "hits_loop tn p cs [] = Some hs"
    using exit_of_dial_returns[OF assms] by (simp add: hits_loop_foldl hs_def)
  moreover have d: "distinct (map hit_key hs)"
    unfolding hs_def by (rule hits.keys_foldl_distinct) simp
  moreover have "h \<in> set hs \<longleftrightarrow> (\<exists>c. last_dial cs (hit_host h) = Some c \<and> hit_proxy h = p \<and>
       exit_of_dial tn p c = Some (hit_exit h))" for h
  proof -
    have "h \<in> set hs \<longleftrightarrow> hits.held hs (hit_key h) = Some h" by (rule held_member[OF d])
    also have "\<dots> \<longleftrightarrow> hit_proxy h = p \<and> map_option (hit_of_dial tn p) (last_dial cs (hit_host h)) = Some h"
      unfolding hs_def hits.held_foldl held_nil hit_key_def held_dials
      by (auto split: option.splits)
    also have "\<dots> \<longleftrightarrow> (\<exists>c. last_dial cs (hit_host h) = Some c \<and> hit_proxy h = p \<and>
       exit_of_dial tn p c = Some (hit_exit h))"
    proof -
      have "hit_of_dial tn p c = h \<longleftrightarrow> exit_of_dial tn p c = Some (hit_exit h)"
        if "last_dial cs (hit_host h) = Some c" "hit_proxy h = p" for c
        using that exit_of_dial_returns[OF assms, of p c]
        by (cases h) (auto simp: hit_of_dial_def last_dial_def find_Some_iff)
      then show ?thesis by auto
    qed
    finally show ?thesis .
  qed
  ultimately show ?thesis by blast
qed


lemma run_probe_known:
  assumes "wf (unwraps tn)" "pq_proxy req = [] \<or> lookup_proxy tn (pq_proxy req) \<noteq> None"
    "send_probe tn env req (blank_result (pq_url req) stamp) = (outcome, d)"
  shows "\<exists>hs. dialer_hits tn (pq_proxy req) d = Some hs \<and>
    run_probe tn env stamp req recorder =
      Some (map_option (\<lambda>r. r\<lparr>res_hits := hs\<rparr>) outcome, recorder_add recorder hs)"
  using assms dial_hits_are_last[OF assms(1), of "pq_proxy req" "pd_dials d"]
  by (auto simp: run_probe_def dialer_hits_def)

text \<open>C12. A probe through a known proxy, or through the tunnel, returns. What it records, and gives
  the result, is one hit for each address the client dialed, redirects included: the exit of the
  last dial of that address, settled by the tunnel or else resolved again.\<close>

theorem probe_records_last_dials:
  assumes "wf (unwraps tn)" "pq_proxy req = [] \<or> lookup_proxy tn (pq_proxy req) \<noteq> None"
  shows "\<exists>outcome hs. run_probe tn env stamp req recorder = Some (outcome, recorder_add recorder hs) \<and>
    (\<forall>r \<in> set_option outcome. res_hits r = hs) \<and> distinct (map hit_host hs) \<and>
    (\<forall>h. h \<in> set hs \<longleftrightarrow> hit_proxy h = pq_proxy req \<and>
      (\<exists>c. last_dial (pd_dials (snd (send_probe tn env req (blank_result (pq_url req) stamp))))
             (hit_host h) = Some c \<and>
           exit_of_dial tn (pq_proxy req) c = Some (hit_exit h)))"
proof -
  obtain outcome d where s: "send_probe tn env req (blank_result (pq_url req) stamp) = (outcome, d)"
    by fastforce
  obtain hs where run: "dialer_hits tn (pq_proxy req) d = Some hs"
    "run_probe tn env stamp req recorder =
      Some (map_option (\<lambda>r. r\<lparr>res_hits := hs\<rparr>) outcome, recorder_add recorder hs)"
    using run_probe_known[OF assms s] by blast
  obtain hs' where hs: "hits_loop tn (pq_proxy req) (pd_dials d) [] = Some hs'"
    "distinct (map hit_key hs')"
    "\<forall>h. h \<in> set hs' \<longleftrightarrow> (\<exists>c. last_dial (pd_dials d) (hit_host h) = Some c \<and>
       hit_proxy h = pq_proxy req \<and> exit_of_dial tn (pq_proxy req) c = Some (hit_exit h))"
    using dial_hits_are_last[OF assms(1)] by blast
  have eq: "hs' = hs" using hs(1) run(1) by (simp add: dialer_hits_def)
  have proxies: "\<forall>h \<in> set hs. hit_proxy h = pq_proxy req" using hs(3) eq by blast
  have "map hit_key hs = map (\<lambda>host. (host, pq_proxy req)) (map hit_host hs)"
    using proxies by (auto simp: hit_key_def)
  then have "distinct (map (\<lambda>host. (host, pq_proxy req)) (map hit_host hs))"
    using hs(2) eq by metis
  then have "distinct (map hit_host hs)" by (auto simp: distinct_map inj_on_def)
  moreover have "\<forall>r \<in> set_option (map_option (\<lambda>r. r\<lparr>res_hits := hs\<rparr>) outcome). res_hits r = hs"
    by (cases outcome) auto
  ultimately show ?thesis using run(2) hs(3) eq s
    by (intro exI[of _ "map_option (\<lambda>r. r\<lparr>res_hits := hs\<rparr>) outcome"] exI[of _ hs]) auto
qed

lemma scan_loop_length: "length (scan_loop until eager left pieces []) \<le> left"
  using scan_loop_prefix[of until eager left pieces "[]"] prefix_length_le by fastforce

lemma read_probe_body_length: "length (read_probe_body until eager cap pieces) \<le> cap"
  by (auto simp: read_probe_body_def scan_loop_length split: option.splits)

lemma take_response_fields:
  "res_error (take_response req rsp d r) = res_error r"
  "res_epoch (take_response req rsp d r) = res_epoch r"
  "res_version (take_response req rsp d r) = res_version r"
  "res_status (take_response req rsp d r) = rsp_status rsp"
  "res_body r = [] \<Longrightarrow> length (res_body (take_response req rsp d r)) \<le> nat (pq_max_body req)"
  by (auto simp: take_response_def Let_def read_probe_body_length split: option.splits)

lemma fail_probe_fields [simp]:
  "res_epoch (fail_probe e r) = res_epoch r" "res_version (fail_probe e r) = res_version r"
  "res_body (fail_probe e r) = res_body r" "res_chains (fail_probe e r) = res_chains r"
  "res_status (fail_probe e r) = res_status r" "res_error (fail_probe e r) = probe_error_kind e"
  by (simp_all add: fail_probe_def)

lemma probe_error_kind_set:
  "probe_error_kind e \<in> {''timeout'', ''failed''}" "probe_error_kind e \<noteq> []"
  by (simp_all add: probe_error_kind_def)

definition probe_answered :: "('p, 'm, 's) tunnel \<Rightarrow> probe_env \<Rightarrow> probe_request \<Rightarrow> bool" where
  "probe_answered tn env req \<longleftrightarrow>
     (pq_proxy req = [] \<or> lookup_proxy tn (pq_proxy req) \<noteq> None) \<and> pe_tls env = None \<and> pe_slot env \<and>
     pe_new_request env (pq_method (outgoing req)) (pq_url req) = None \<and>
     \<not> isl (snd (pe_client env (outgoing req)))"




definition walk_probe_env :: probe_env where
  "walk_probe_env = \<lparr>pe_tls = None, pe_slot = True, pe_new_request = (\<lambda>_ _. None),
     pe_client = (\<lambda>_. ([ClientDial ''h'' (DialedVia [''b'', ''c'']), ClientDial ''h'' (DialedVia [''a''])],
       Inr \<lparr>rsp_status = 200, rsp_header = (\<lambda>_. []), rsp_url = ''u'', rsp_delay = 5, rsp_eager = True,
            rsp_pieces = [''ok''], rsp_later = [TunnelNotify 1 \<lparr>pr_chains = [''a''], pr_rule = [],
              pr_rule_payload = []\<rparr>]\<rparr>))\<rparr>"

definition walk_request :: probe_request where
  "walk_request = \<lparr>pq_method = [], pq_url = ''u'', pq_proxy = [], pq_headers = Map.empty, pq_body = [],
     pq_timeout = 0, pq_max_body = 1, pq_no_redirect = False, pq_until = None\<rparr>"

lemma walk_probe_dials:
  "pd_dials (snd (send_probe walk_tunnel walk_probe_env walk_request (blank_result u stamp))) =
     [\<lparr>rc_address = ''h'', rc_route = None\<rparr>,
      \<lparr>rc_address = ''h'', rc_route = Some \<lparr>pr_chains = [''a''], pr_rule = [], pr_rule_payload = []\<rparr>\<rparr>]"
  by (simp add: send_probe_def walk_probe_env_def walk_request_def outgoing_def Let_def dial_def
      new_dialer_def walk_tunnel_def notify_probe_route_def settle_def)

lemma walk_last_exit:
  "exit_of_dial walk_tunnel [] \<lparr>rc_address = ''h'', rc_route = Some \<lparr>pr_chains = [''a''], pr_rule = [],
     pr_rule_payload = []\<rparr>\<rparr> = Some ''a T ''"
  by (simp add: exit_of_dial_def exit_of_chains_def walk_tunnel_def exit_name_def)

theorem probe_records_last_dials_witness:
  "\<exists>outcome hs. run_probe walk_tunnel walk_probe_env (0, 0) walk_request (Some []) =
       Some (outcome, recorder_add (Some []) hs) \<and>
     \<lparr>hit_host = ''h'', hit_proxy = [], hit_exit = ''a T ''\<rparr> \<in> set hs"
proof -
  obtain outcome hs where r: "run_probe walk_tunnel walk_probe_env (0, 0) walk_request (Some []) =
      Some (outcome, recorder_add (Some []) hs)"
    "\<forall>h. h \<in> set hs \<longleftrightarrow> hit_proxy h = pq_proxy walk_request \<and>
      (\<exists>c. last_dial (pd_dials (snd (send_probe walk_tunnel walk_probe_env walk_request
              (blank_result (pq_url walk_request) (0, 0))))) (hit_host h) = Some c \<and>
           exit_of_dial walk_tunnel (pq_proxy walk_request) c = Some (hit_exit h))"
    using probe_records_last_dials[OF walk_tunnel_wf, of walk_request walk_probe_env "(0, 0)" "Some []"]
    by (auto simp: walk_request_def)
  have "\<lparr>hit_host = ''h'', hit_proxy = [], hit_exit = ''a T ''\<rparr> \<in> set hs"
    using r(2) walk_last_exit by (simp add: walk_probe_dials last_dial_def) (simp add: walk_request_def)
  then show ?thesis using r(1) by blast
qed


end
