(* ===== verification/Request_Traffic.thy ===== *)
theory Request_Traffic
  imports Go_Prelude
begin

text \<open>
  \<open>core/request_traffic.go\<close>: the traffic of the announced requests, reported once a second until a
  request is closed and its last figures are queued.

  \<open>'t\<close> are mihomo's trackers; what their counters hold, whether the manager still has a request and
  whether the message queue takes a report are arguments. The lemmas show that the host's figures
  are the recorded ones, that a request leaves only with its final figures told or after five failed
  reports, and that the watch ends once every request is closed.
\<close>

definition request_traffic_close_retries :: nat where
  "request_traffic_close_retries = 5"

record traffic_report =
  rep_id :: string
  rep_upload :: int
  rep_download :: int

record 't watched_request =
  wr_tracker :: 't
  wr_upload :: int
  wr_download :: int
  wr_fresh :: bool
  wr_closed_reports :: nat

text \<open>The map of requests in the order a round visits it; ids are distinct.\<close>

record 't traffic_watch =
  tw_requests :: "(string \<times> 't watched_request) list"
  tw_running :: bool

definition traffic_start :: "'t traffic_watch" where
  "traffic_start = \<lparr>tw_requests = [], tw_running = False\<rparr>"

fun put_request :: "string \<Rightarrow> 'r \<Rightarrow> (string \<times> 'r) list \<Rightarrow> (string \<times> 'r) list" where
  "put_request i r [] = [(i, r)]"
| "put_request i r ((j, q) # rs) = (if i = j then (i, r) # rs else (j, q) # put_request i r rs)"

definition traffic_add ::
  "('t \<Rightarrow> int \<times> int) \<Rightarrow> string \<Rightarrow> 't \<Rightarrow> 't traffic_watch \<Rightarrow> bool \<times> 't traffic_watch" where
  "traffic_add totals i tracker w =
     (\<not> tw_running w,
      w\<lparr>tw_requests := put_request i \<lparr>wr_tracker = tracker, wr_upload = fst (totals tracker),
            wr_download = snd (totals tracker), wr_fresh = True, wr_closed_reports = 0\<rparr> (tw_requests w),
        tw_running := True\<rparr>)"

definition visit_request ::
  "(string \<Rightarrow> bool) \<Rightarrow> string \<times> 't watched_request \<Rightarrow> string \<times> 't watched_request" where
  "visit_request is_open e =
     (case e of (i, r) \<Rightarrow>
        (i, r\<lparr>wr_closed_reports :=
                (if wr_closed_reports r > 0 \<or> \<not> wr_fresh r \<and> \<not> is_open i
                 then Suc (wr_closed_reports r) else wr_closed_reports r),
              wr_fresh := False\<rparr>))"

definition traffic_changed ::
  "('t \<Rightarrow> int \<times> int) \<Rightarrow> (string \<times> 't watched_request) list \<Rightarrow> traffic_report list" where
  "traffic_changed totals rs =
     map (\<lambda>(i, r). \<lparr>rep_id = i, rep_upload = fst (totals (wr_tracker r)),
                    rep_download = snd (totals (wr_tracker r))\<rparr>)
       (filter (\<lambda>(i, r). totals (wr_tracker r) \<noteq> (wr_upload r, wr_download r)) rs)"

definition store_report ::
  "traffic_report \<Rightarrow> (string \<times> 't watched_request) list \<Rightarrow> (string \<times> 't watched_request) list" where
  "store_report t rs =
     map (\<lambda>(i, r). if i = rep_id t
                   then (i, r\<lparr>wr_upload := rep_upload t, wr_download := rep_download t\<rparr>) else (i, r)) rs"

definition traffic_done :: "bool \<Rightarrow> 't watched_request \<Rightarrow> bool" where
  "traffic_done queued r \<longleftrightarrow> wr_closed_reports r > 0 \<and>
     (queued \<or> wr_closed_reports r > request_traffic_close_retries)"

definition traffic_collect ::
  "('t \<Rightarrow> int \<times> int) \<Rightarrow> (string \<Rightarrow> bool) \<Rightarrow> (traffic_report list \<Rightarrow> bool) \<Rightarrow> 't traffic_watch
   \<Rightarrow> bool \<times> 't traffic_watch" where
  "traffic_collect totals is_open queue w =
     (let rs1 = map (visit_request is_open) (tw_requests w);
          changed = traffic_changed totals rs1;
          queued = (changed = [] \<or> queue changed);
          rs2 = (if queued then fold store_report changed rs1 else rs1);
          rs3 = filter (\<lambda>(i, r). \<not> traffic_done queued r) rs2
      in (rs3 \<noteq> [], w\<lparr>tw_requests := rs3, tw_running := (rs3 \<noteq> [])\<rparr>))"

definition traffic_clear :: "'t traffic_watch \<Rightarrow> 't traffic_watch" where
  "traffic_clear w = w\<lparr>tw_requests := [], tw_running := False\<rparr>"

text \<open>One tick of \<open>runRequestTrafficWatch\<close>: whether it goes on.\<close>

definition traffic_tick ::
  "bool \<Rightarrow> ('t \<Rightarrow> int \<times> int) \<Rightarrow> (string \<Rightarrow> bool) \<Rightarrow> (traffic_report list \<Rightarrow> bool) \<Rightarrow> 't traffic_watch
   \<Rightarrow> bool \<times> 't traffic_watch" where
  "traffic_tick has_listener totals is_open queue w =
     (if \<not> has_listener then (False, traffic_clear w)
      else traffic_collect totals is_open queue w)"

subsection \<open>A round, entry by entry\<close>

text \<open>What one round makes of one entry, and which report it sends of it.\<close>

definition round_entry ::
  "('t \<Rightarrow> int \<times> int) \<Rightarrow> (string \<Rightarrow> bool) \<Rightarrow> bool \<Rightarrow> string \<times> 't watched_request \<Rightarrow> string \<times> 't watched_request" where
  "round_entry totals is_open queued e =
     (case visit_request is_open e of (i, r) \<Rightarrow>
        (i, if queued then r\<lparr>wr_upload := fst (totals (wr_tracker r)),
                             wr_download := snd (totals (wr_tracker r))\<rparr> else r))"

lemma visit_request_fields [simp]:
  "fst (visit_request is_open e) = fst e"
  "wr_tracker (snd (visit_request is_open e)) = wr_tracker (snd e)"
  "wr_upload (snd (visit_request is_open e)) = wr_upload (snd e)"
  "wr_download (snd (visit_request is_open e)) = wr_download (snd e)"
  by (simp_all add: visit_request_def split: prod.splits)

lemma store_report_skip: "rep_id t \<notin> fst ` set rs \<Longrightarrow> store_report t rs = rs"
  by (induction rs) (auto simp: store_report_def)

lemma store_reports_skip:
  "\<forall>t \<in> set ts. rep_id t \<noteq> i \<Longrightarrow>
   fold store_report ts ((i, r) # rs) = (i, r) # fold store_report ts rs"
  by (induction ts arbitrary: rs) (auto simp: store_report_def)

lemma traffic_changed_ids: "rep_id ` set (traffic_changed totals rs) \<subseteq> fst ` set rs"
  by (force simp: traffic_changed_def)

lemma store_changed:
  "distinct (map fst rs) \<Longrightarrow>
   fold store_report (traffic_changed totals rs) rs =
     map (\<lambda>(i, r). (i, r\<lparr>wr_upload := fst (totals (wr_tracker r)),
                        wr_download := snd (totals (wr_tracker r))\<rparr>)) rs"
proof (induction rs)
  case Nil
  then show ?case by (simp add: traffic_changed_def)
next
  case (Cons e rs)
  obtain i r where e: "e = (i, r)" by fastforce
  have i2: "i \<notin> fst ` set rs" using Cons.prems e by simp
  then have i1: "\<forall>t \<in> set (traffic_changed totals rs). rep_id t \<noteq> i"
    using traffic_changed_ids[of totals rs] by blast
  note i = i1 i2
  note IH = Cons.IH
  show ?case
  proof (cases "totals (wr_tracker r) = (wr_upload r, wr_download r)")
    case True
    then have "traffic_changed totals (e # rs) = traffic_changed totals rs"
      by (simp add: traffic_changed_def e)
    then show ?thesis using IH Cons.prems True i by (simp add: e store_reports_skip)
  next
    case False
    let ?t = "\<lparr>rep_id = i, rep_upload = fst (totals (wr_tracker r)),
               rep_download = snd (totals (wr_tracker r))\<rparr>"
    have "traffic_changed totals (e # rs) = ?t # traffic_changed totals rs"
      using False by (simp add: traffic_changed_def e)
    moreover have "store_report ?t (e # rs) =
        (i, r\<lparr>wr_upload := rep_upload ?t, wr_download := rep_download ?t\<rparr>) # rs"
      using store_report_skip[of ?t rs] i(2) by (simp add: e store_report_def)
    ultimately show ?thesis using IH Cons.prems i by (simp add: e store_reports_skip)
  qed
qed


definition round_queued ::
  "('t \<Rightarrow> int \<times> int) \<Rightarrow> (traffic_report list \<Rightarrow> bool) \<Rightarrow> 't traffic_watch \<Rightarrow> bool" where
  "round_queued totals queue w \<longleftrightarrow>
     traffic_changed totals (tw_requests w) = [] \<or> queue (traffic_changed totals (tw_requests w))"

lemma traffic_changed_visit:
  "traffic_changed totals (map (visit_request is_open) rs) = traffic_changed totals rs"
  by (induction rs) (auto simp: traffic_changed_def visit_request_def split: prod.splits)

lemma unchanged_kept:
  "traffic_changed totals rs = [] \<Longrightarrow>
   map (\<lambda>(i, r). (i, r\<lparr>wr_upload := fst (totals (wr_tracker r)),
                        wr_download := snd (totals (wr_tracker r))\<rparr>)) rs = rs"
  by (induction rs) (auto simp: traffic_changed_def split: if_splits)

lemma collect_requests:
  assumes "distinct (map fst (tw_requests w))"
  shows "tw_requests (snd (traffic_collect totals is_open queue w)) =
    filter (\<lambda>(i, r). \<not> traffic_done (round_queued totals queue w) r)
      (map (round_entry totals is_open (round_queued totals queue w)) (tw_requests w))"
proof -
  let ?rs = "map (visit_request is_open) (tw_requests w)"
  have d: "distinct (map fst ?rs)"
    using assms by (simp add: comp_def)
  have step: "fold store_report (traffic_changed totals ?rs) ?rs =
      map (round_entry totals is_open True) (tw_requests w)"
    unfolding store_changed[OF d] by (auto simp: round_entry_def visit_request_def split: prod.splits)
  have idle: "round_entry totals is_open False = visit_request is_open"
    by (rule ext) (auto simp: round_entry_def visit_request_def split: prod.splits)
  show ?thesis
    using step idle
    by (auto simp: traffic_collect_def Let_def round_queued_def traffic_changed_visit)
qed

lemma collect_watching:
  "traffic_collect totals is_open queue w = (watching, w') \<Longrightarrow>
   watching = (tw_requests w' \<noteq> []) \<and> tw_running w' = watching"
  by (auto simp: traffic_collect_def Let_def)

subsection \<open>Runs\<close>

text \<open>\<open>told\<close> is what the host last learnt of each request: at its announcement, then by reports.\<close>

definition tell :: "traffic_report list \<Rightarrow> (string \<Rightarrow> int \<times> int) \<Rightarrow> string \<Rightarrow> int \<times> int" where
  "tell ts told = fold (\<lambda>t told. told(rep_id t := (rep_upload t, rep_download t))) ts told"

definition told_after ::
  "('t \<Rightarrow> int \<times> int) \<Rightarrow> (traffic_report list \<Rightarrow> bool) \<Rightarrow> 't traffic_watch \<Rightarrow> (string \<Rightarrow> int \<times> int)
   \<Rightarrow> string \<Rightarrow> int \<times> int" where
  "told_after totals queue w told =
     (if round_queued totals queue w then tell (traffic_changed totals (tw_requests w)) told else told)"

inductive traffic_reach :: "'t traffic_watch \<Rightarrow> (string \<Rightarrow> int \<times> int) \<Rightarrow> bool" where
  traffic_reach_start: "traffic_reach traffic_start told"
| traffic_reach_add: "traffic_reach w told \<Longrightarrow>
     traffic_reach (snd (traffic_add totals i tracker w)) (told(i := totals tracker))"
| traffic_reach_collect: "traffic_reach w told \<Longrightarrow>
     traffic_reach (snd (traffic_collect totals is_open queue w)) (told_after totals queue w told)"
| traffic_reach_clear: "traffic_reach w told \<Longrightarrow> traffic_reach (traffic_clear w) told"

definition traffic_inv :: "'t traffic_watch \<Rightarrow> (string \<Rightarrow> int \<times> int) \<Rightarrow> bool" where
  "traffic_inv w told \<longleftrightarrow> distinct (map fst (tw_requests w)) \<and>
     (\<forall>(i, r) \<in> set (tw_requests w). told i = (wr_upload r, wr_download r) \<and>
        wr_closed_reports r \<le> request_traffic_close_retries) \<and>
     (tw_running w \<longleftrightarrow> tw_requests w \<noteq> [])"

lemma put_request_fst: "fst ` set (put_request i r rs) = insert i (fst ` set rs)"
  by (induction i r rs rule: put_request.induct) auto

lemma put_request_distinct: "distinct (map fst rs) \<Longrightarrow> distinct (map fst (put_request i r rs))"
  by (induction i r rs rule: put_request.induct) (auto simp: put_request_fst)

lemma put_request_set:
  "distinct (map fst rs) \<Longrightarrow> (j, q) \<in> set (put_request i r rs) \<Longrightarrow>
   (j = i \<and> q = r) \<or> (j \<noteq> i \<and> (j, q) \<in> set rs)"
  by (induction i r rs rule: put_request.induct) (auto simp: image_iff split: if_splits)

lemma put_request_nonempty [simp]: "put_request i r rs \<noteq> []"
  by (induction i r rs rule: put_request.induct) auto

lemma tell_other: "i \<notin> rep_id ` set ts \<Longrightarrow> tell ts told i = told i"
  unfolding tell_def by (induction ts arbitrary: told) auto

lemma tell_changed:
  "distinct (map fst rs) \<Longrightarrow> (i, r) \<in> set rs \<Longrightarrow> told i = (wr_upload r, wr_download r) \<Longrightarrow>
   tell (traffic_changed totals rs) told i = totals (wr_tracker r)"
proof (induction rs arbitrary: told)
  case (Cons e rs)
  obtain j q where e: "e = (j, q)" by fastforce
  have skip: "tell (traffic_changed totals rs) t j = t j" for t
    using Cons.prems(1) e traffic_changed_ids[of totals rs] by (intro tell_other) auto
  show ?case
  proof (cases "i = j")
    case True
    then have "r = q" using Cons.prems(1,2) e by (force simp: image_iff)
    then show ?thesis using True skip Cons.prems(3) e
      by (cases "totals (wr_tracker q) = (wr_upload q, wr_download q)")
         (auto simp: traffic_changed_def tell_def)
  next
    case False
    then have "(i, r) \<in> set rs" "distinct (map fst rs)" using Cons.prems e by auto
    then show ?thesis using False Cons.IH Cons.prems(3) e
      by (cases "totals (wr_tracker q) = (wr_upload q, wr_download q)")
         (auto simp: traffic_changed_def tell_def)
  qed
qed simp


lemma round_entry_fields:
  "round_entry totals is_open queued (i, r) = (j, q) \<Longrightarrow>
   j = i \<and> wr_tracker q = wr_tracker r \<and> \<not> wr_fresh q \<and>
   (wr_upload q, wr_download q) =
     (if queued then totals (wr_tracker r) else (wr_upload r, wr_download r)) \<and>
   wr_closed_reports q =
     (if wr_closed_reports r > 0 \<or> \<not> wr_fresh r \<and> \<not> is_open i
      then Suc (wr_closed_reports r) else wr_closed_reports r)"
  by (auto simp: round_entry_def visit_request_def split: if_splits)

lemma fst_round_entry [simp]: "fst (round_entry totals is_open queued e) = fst e"
  by (cases e) (simp add: round_entry_def visit_request_def)

lemma round_entry_distinct:
  "map fst (map (round_entry totals is_open queued) rs) = map fst rs"
  by (simp add: comp_def)

lemma told_after_entry:
  assumes "traffic_inv w told" "(i, r) \<in> set (tw_requests w)"
  shows "told_after totals queue w told i =
    (if round_queued totals queue w then totals (wr_tracker r) else (wr_upload r, wr_download r))"
  using assms tell_changed[of "tw_requests w" i r told totals]
  by (auto simp: told_after_def traffic_inv_def)

lemma traffic_inv_collect:
  assumes "traffic_inv w told"
  shows "traffic_inv (snd (traffic_collect totals is_open queue w)) (told_after totals queue w told)"
proof -
  let ?q = "round_queued totals queue w"
  let ?rs = "map (round_entry totals is_open ?q) (tw_requests w)"
  obtain watching w' where w': "traffic_collect totals is_open queue w = (watching, w')" by fastforce
  have d: "distinct (map fst (tw_requests w))" using assms by (simp add: traffic_inv_def)
  have rs: "tw_requests w' = filter (\<lambda>(i, r). \<not> traffic_done ?q r) ?rs"
    using collect_requests[OF d, of totals is_open queue] w' by simp
  have "distinct (map fst ?rs)" unfolding round_entry_distinct by (rule d)
  then have "distinct (map fst (tw_requests w'))" unfolding rs by (rule distinct_map_filter)
  moreover have "told_after totals queue w told i = (wr_upload r, wr_download r) \<and>
      wr_closed_reports r \<le> request_traffic_close_retries" if "(i, r) \<in> set (tw_requests w')" for i r
  proof -
    from that rs obtain e where e: "e \<in> set (tw_requests w)"
      "round_entry totals is_open ?q e = (i, r)" "\<not> traffic_done ?q r"
      by auto
    have "fst e = i" using fst_round_entry[of totals is_open ?q e] e(2) by simp
    then have ei: "e = (i, snd e)" by (cases e) simp
    define r0 where "r0 = snd e"
    have r0: "(i, r0) \<in> set (tw_requests w)"
      "round_entry totals is_open ?q (i, r0) = (i, r)" "\<not> traffic_done ?q r"
      using e ei unfolding r0_def by simp_all
    then show ?thesis
      using round_entry_fields[OF r0(2)] told_after_entry[OF assms r0(1), of totals queue]
      by (auto simp: traffic_done_def)
  qed
  ultimately show ?thesis
    using w' collect_watching[OF w'] by (auto simp: traffic_inv_def)
qed

lemma traffic_inv_reach: "traffic_reach w told \<Longrightarrow> traffic_inv w told"
proof (induction rule: traffic_reach.induct)
  case (traffic_reach_start told)
  then show ?case by (simp add: traffic_inv_def traffic_start_def)
next
  case (traffic_reach_add w told totals i tracker)
  then show ?case
    by (fastforce simp: traffic_inv_def traffic_add_def put_request_distinct
        dest: put_request_set)
next
  case (traffic_reach_collect w told totals is_open queue)
  then show ?case by (simp add: traffic_inv_collect)
next
  case (traffic_reach_clear w told)
  then show ?case by (simp add: traffic_inv_def traffic_clear_def)
qed

text \<open>C14. However requests are announced, rounds run, reports dropped and listeners lost: the
  recorded figures are what the host was last told; the ticker is running exactly while a request is
  watched; and a round lets a request go only with its present figures told, or after its report
  failed for the sixth time since it closed.\<close>

theorem traffic_leaves_told:
  assumes "traffic_reach w told"
  shows "(\<forall>(i, r) \<in> set (tw_requests w). told i = (wr_upload r, wr_download r)) \<and>
    (tw_running w \<longleftrightarrow> tw_requests w \<noteq> []) \<and>
    (\<forall>(i, r) \<in> set (tw_requests w).
       i \<notin> fst ` set (tw_requests (snd (traffic_collect totals is_open queue w))) \<longrightarrow>
       (wr_closed_reports r > 0 \<or> \<not> is_open i) \<and>
       (told_after totals queue w told i = totals (wr_tracker r) \<or> wr_closed_reports r = 5))"
proof -
  let ?q = "round_queued totals queue w"
  have inv: "traffic_inv w told" by (rule traffic_inv_reach[OF assms])
  have gone: "(wr_closed_reports r > 0 \<or> \<not> is_open i) \<and>
      (told_after totals queue w told i = totals (wr_tracker r) \<or> wr_closed_reports r = 5)"
    if i: "(i, r) \<in> set (tw_requests w)"
      "i \<notin> fst ` set (tw_requests (snd (traffic_collect totals is_open queue w)))" for i r
  proof -
    obtain q where q: "round_entry totals is_open ?q (i, r) = (i, q)"
      using round_entry_fields by (metis prod.exhaust)
    have "distinct (map fst (tw_requests w))" using inv by (simp add: traffic_inv_def)
    from collect_requests[OF this] i(1) q
    have "traffic_done ?q q \<or> i \<in> fst ` set (tw_requests (snd (traffic_collect totals is_open queue w)))"
      by (force simp: image_iff)
    then have "traffic_done ?q q" using i(2) by blast
    then show ?thesis
      using round_entry_fields[OF q] told_after_entry[OF inv i(1), of totals queue] inv i(1)
      by (auto simp: traffic_done_def traffic_inv_def request_traffic_close_retries_def split: if_splits)
  qed
  have "\<forall>(i, r) \<in> set (tw_requests w).
       i \<notin> fst ` set (tw_requests (snd (traffic_collect totals is_open queue w))) \<longrightarrow>
       (wr_closed_reports r > 0 \<or> \<not> is_open i) \<and>
       (told_after totals queue w told i = totals (wr_tracker r) \<or> wr_closed_reports r = 5)"
    by (intro ballI, split prod.split, intro allI impI, rule gone) simp_all
  then show ?thesis using inv by (auto simp: traffic_inv_def)
qed

text \<open>Rounds while every request is closed, with the counters and the queue of each.\<close>

fun closed_rounds ::
  "(('t \<Rightarrow> int \<times> int) \<times> (traffic_report list \<Rightarrow> bool)) list \<Rightarrow> 't traffic_watch \<Rightarrow> 't traffic_watch" where
  "closed_rounds [] w = w"
| "closed_rounds ((totals, queue) # rounds) w =
     closed_rounds rounds (snd (traffic_collect totals (\<lambda>_. False) queue w))"

definition aged :: "nat \<Rightarrow> 't traffic_watch \<Rightarrow> bool" where
  "aged k w \<longleftrightarrow> (\<forall>e \<in> set (tw_requests w).
     k \<le> (if wr_fresh (snd e) then 0 else Suc (wr_closed_reports (snd e))))"

lemma aged_collect:
  assumes "traffic_inv w told" "aged k w"
  shows "aged (Suc k) (snd (traffic_collect totals (\<lambda>_. False) queue w))"
proof -
  let ?q = "round_queued totals queue w"
  have d: "distinct (map fst (tw_requests w))" using assms by (simp add: traffic_inv_def)
  have "Suc k \<le> (if wr_fresh (snd e') then 0 else Suc (wr_closed_reports (snd e')))"
    if e': "e' \<in> set (tw_requests (snd (traffic_collect totals (\<lambda>_. False) queue w)))" for e'
  proof -
    obtain i r where ir: "e' = (i, r)" by fastforce
    from e' collect_requests[OF d, of totals "\<lambda>_. False" queue]
    obtain e where e: "e \<in> set (tw_requests w)" "round_entry totals (\<lambda>_. False) ?q e = (i, r)" unfolding ir by auto
    obtain j r0 where j: "e = (j, r0)" by fastforce
    have "k \<le> (if wr_fresh r0 then 0 else Suc (wr_closed_reports r0))"
      using assms(2) e(1) j by (fastforce simp: aged_def)
    then show ?thesis using round_entry_fields[OF e(2)[unfolded j]] ir by (auto split: if_splits)
  qed
  then show ?thesis by (auto simp: aged_def)
qed

lemma aged_empty: "traffic_inv w told \<Longrightarrow> aged 7 w \<Longrightarrow> tw_requests w = []"
proof (rule ccontr)
  assume a: "traffic_inv w told" "aged 7 w" "tw_requests w \<noteq> []"
  then obtain i r where "(i, r) \<in> set (tw_requests w)"
    by (metis last_in_set prod.exhaust)
  then have "7 \<le> (if wr_fresh r then 0 else Suc (wr_closed_reports r))"
    "wr_closed_reports r \<le> request_traffic_close_retries"
    using a by (fastforce simp: aged_def traffic_inv_def)+
  then show False by (auto simp: request_traffic_close_retries_def split: if_splits)
qed

lemma closed_rounds_aged:
  "traffic_reach w told \<Longrightarrow> aged k w \<Longrightarrow>
   \<exists>told'. traffic_reach (closed_rounds rounds w) told' \<and> aged (k + length rounds) (closed_rounds rounds w)"
proof (induction rounds arbitrary: w told k)
  case (Cons round rounds)
  obtain totals queue where r: "round = (totals, queue)" by fastforce
  let ?w = "snd (traffic_collect totals (\<lambda>_. False) queue w)"
  have "traffic_reach ?w (told_after totals queue w told)"
    by (rule traffic_reach_collect[OF Cons.prems(1)])
  moreover have "aged (Suc k) ?w"
    by (rule aged_collect[OF traffic_inv_reach[OF Cons.prems(1)] Cons.prems(2)])
  ultimately show ?case using Cons.IH[of ?w _ "Suc k"] r by simp
qed auto

text \<open>Once every watched request is closed, seven rounds end the watch, whatever the counters
  and the message queue do.\<close>

theorem traffic_watch_ends:
  assumes "traffic_reach w told" "7 \<le> length rounds"
  shows "tw_requests (closed_rounds rounds w) = [] \<and> \<not> tw_running (closed_rounds rounds w)"
proof -
  obtain told' where t: "traffic_reach (closed_rounds rounds w) told'"
    "aged (length rounds) (closed_rounds rounds w)"
    using closed_rounds_aged[OF assms(1), of 0 rounds] by (auto simp: aged_def)
  then have "aged 7 (closed_rounds rounds w)" using assms(2) by (fastforce simp: aged_def)
  then have "tw_requests (closed_rounds rounds w) = []" by (rule aged_empty[OF traffic_inv_reach[OF t(1)]])
  then show ?thesis using traffic_inv_reach[OF t(1)] by (simp add: traffic_inv_def)
qed

definition demo_watch :: "unit traffic_watch" where
  "demo_watch = snd (traffic_add (\<lambda>_. (0, 0)) ''a'' () traffic_start)"

lemma demo_watch_reach: "traffic_reach demo_watch (\<lambda>_. (0, 0))"
  using traffic_reach_add[OF traffic_reach_start[of "\<lambda>_. (0, 0)"], of "\<lambda>_. (0, 0)" "''a''" "()"]
  by (simp add: demo_watch_def fun_upd_idem)

theorem traffic_leaves_told_witness:
  "tw_requests demo_watch \<noteq> [] \<and> tw_running demo_watch"
  using traffic_leaves_told[OF demo_watch_reach, of "\<lambda>_. (0, 0)" "\<lambda>_. False" "\<lambda>_. False"]
  by (simp add: demo_watch_def traffic_add_def traffic_start_def)

theorem traffic_watch_ends_witness:
  "\<not> tw_running (closed_rounds (replicate 7 (\<lambda>_. (3, 4), \<lambda>_. False)) demo_watch)"
  using traffic_watch_ends[OF demo_watch_reach, of "replicate 7 (\<lambda>_. (3, 4), \<lambda>_. False)"] by simp

end
