(* ===== verification/Go_Netip.thy ===== *)
theory Go_Netip
  imports Go_Prelude
begin

text \<open>
  What the core uses of Go's \<open>net/netip\<close>: \<open>ParseAddr\<close> and \<open>ParsePrefix\<close> with the forms they accept,
  \<open>Unmap\<close>, the address classes, and the text of an address and a single-address prefix. Bytes are numbers
  below 256; an IPv6 address carries its zone. The lemmas are the round trip of dotted quads and the
  shape of what a parse gives.
\<close>

datatype addr = V4 "nat list" | V6 "nat list" string

subsection \<open>Decimal and hexadecimal\<close>

definition digit_value :: "char \<Rightarrow> nat" where
  "digit_value c = byte_val c - 48"

definition decimal_value :: "string \<Rightarrow> nat" where
  "decimal_value s = foldl (\<lambda>v c. v * 10 + digit_value c) 0 s"

definition digit_char :: "nat \<Rightarrow> char" where
  "digit_char d = char_of (48 + d)"

fun show_nat :: "nat \<Rightarrow> string" where
  "show_nat n = (if n < 10 then [digit_char n] else show_nat (n div 10) @ [digit_char (n mod 10)])"

declare show_nat.simps [simp del]

definition hex_value :: "char \<Rightarrow> nat option" where
  "hex_value c =
     (if is_digit c then Some (byte_val c - 48)
      else if 97 \<le> byte_val c \<and> byte_val c \<le> 102 then Some (byte_val c - 87)
      else if 65 \<le> byte_val c \<and> byte_val c \<le> 70 then Some (byte_val c - 55)
      else None)"

definition is_hex :: "char \<Rightarrow> bool" where
  "is_hex c \<longleftrightarrow> hex_value c \<noteq> None"

definition hex_number :: "string \<Rightarrow> nat" where
  "hex_number s = foldl (\<lambda>v c. v * 16 + the (hex_value c)) 0 s"

definition hex_char :: "nat \<Rightarrow> char" where
  "hex_char d = (if d < 10 then char_of (48 + d) else char_of (87 + d))"

fun show_hex :: "nat \<Rightarrow> string" where
  "show_hex n = (if n < 16 then [hex_char n] else show_hex (n div 16) @ [hex_char (n mod 16)])"

declare show_hex.simps [simp del]

subsection \<open>Parsing\<close>

definition v4_field :: "string \<Rightarrow> bool" where
  "v4_field f \<longleftrightarrow> f \<noteq> [] \<and> list_all is_digit f \<and> (length f > 1 \<longrightarrow> hd f \<noteq> CHR ''0'') \<and>
     decimal_value f \<le> 255"

definition parse_v4 :: "string \<Rightarrow> nat list option" where
  "parse_v4 s =
     (let fields = split_on CHR ''.'' s
      in if length fields = 4 \<and> list_all v4_field fields then Some (map decimal_value fields) else None)"

function v6_loop :: "nat list \<Rightarrow> nat option \<Rightarrow> string \<Rightarrow> (nat list \<times> nat option \<times> string) option" where
  "v6_loop bs ellipsis s =
     (if 16 \<le> length bs then Some (bs, ellipsis, s)
      else (let ds = takeWhile is_hex s; rest = drop (length ds) s
            in if ds = [] \<or> 4 < length ds then None
               else if rest \<noteq> [] \<and> hd rest = CHR ''.''
               then (if (ellipsis = None \<and> length bs \<noteq> 12) \<or> 16 < length bs + 4 then None
                     else map_option (\<lambda>f. (bs @ f, ellipsis, [])) (parse_v4 s))
               else (let bs' = bs @ [hex_number ds div 256, hex_number ds mod 256]
                     in if rest = [] then Some (bs', ellipsis, [])
                        else if hd rest \<noteq> CHR '':'' \<or> tl rest = [] then None
                        else if hd (tl rest) = CHR '':''
                        then (if ellipsis \<noteq> None then None
                              else if tl (tl rest) = [] then Some (bs', Some (length bs'), [])
                              else v6_loop bs' (Some (length bs')) (tl (tl rest)))
                        else v6_loop bs' ellipsis (tl rest))))"
  by pat_completeness auto
termination
  by (relation "measure (\<lambda>(bs, e, s). 16 - length bs)") auto

declare v6_loop.simps [simp del]

definition fill_ellipsis :: "nat list \<times> nat option \<times> string \<Rightarrow> nat list option" where
  "fill_ellipsis r =
     (case r of (bs, ellipsis, rest) \<Rightarrow>
        if rest \<noteq> [] then None
        else if length bs < 16
        then (case ellipsis of
                None \<Rightarrow> None
              | Some e \<Rightarrow> Some (take e bs @ replicate (16 - length bs) 0 @ drop e bs))
        else (if ellipsis \<noteq> None then None else Some bs))"

definition parse_v6 :: "string \<Rightarrow> addr option" where
  "parse_v6 text =
     (case cut CHR ''%'' text of (s, zone, zoned) \<Rightarrow>
        if zoned \<and> zone = [] then None
        else if prefix ''::'' s
        then (if drop 2 s = [] then Some (V6 (replicate 16 0) zone)
              else map_option (\<lambda>bs. V6 bs zone)
                (Option.bind (v6_loop [] (Some 0) (drop 2 s)) fill_ellipsis))
        else map_option (\<lambda>bs. V6 bs zone) (Option.bind (v6_loop [] None s) fill_ellipsis))"

definition parse_addr :: "string \<Rightarrow> addr option" where
  "parse_addr s =
     (case find (\<lambda>c. c = CHR ''.'' \<or> c = CHR '':'' \<or> c = CHR ''%'') s of
        None \<Rightarrow> None
      | Some c \<Rightarrow>
          if c = CHR ''.'' then map_option V4 (parse_v4 s)
          else if c = CHR '':'' then parse_v6 s
          else None)"

fun bit_len :: "addr \<Rightarrow> nat" where
  "bit_len (V4 _) = 32"
| "bit_len (V6 _ _) = 128"

fun with_zone :: "string \<Rightarrow> addr \<Rightarrow> addr" where
  "with_zone z (V4 bs) = V4 bs"
| "with_zone z (V6 bs _) = V6 bs z"

text \<open>The bits after the last slash: one digit, or digits of which the first is not zero.\<close>

definition prefix_bits :: "string \<Rightarrow> nat option" where
  "prefix_bits s =
     (if s \<noteq> [] \<and> list_all is_digit s \<and> (length s > 1 \<longrightarrow> hd s \<noteq> CHR ''0'')
      then Some (decimal_value s) else None)"

definition cut_last :: "char \<Rightarrow> string \<Rightarrow> (string \<times> string) option" where
  "cut_last sep s =
     (case cut sep (rev s) of (b, a, found) \<Rightarrow> if found then Some (rev a, rev b) else None)"

definition parse_prefix :: "string \<Rightarrow> (addr \<times> nat) option" where
  "parse_prefix s =
     (case cut_last CHR ''/'' s of
        None \<Rightarrow> None
      | Some (host, bits) \<Rightarrow>
          (case parse_addr host of
             None \<Rightarrow> None
           | Some a \<Rightarrow>
               if with_zone [] a \<noteq> a then None
               else (case prefix_bits bits of
                       None \<Rightarrow> None
                     | Some n \<Rightarrow> if n > bit_len a then None else Some (a, n))))"

subsection \<open>Classes\<close>

fun unmap :: "addr \<Rightarrow> addr" where
  "unmap (V4 bs) = V4 bs"
| "unmap (V6 bs z) =
     (if take 12 bs = replicate 10 0 @ [255, 255] then V4 (drop 12 bs) else V6 bs z)"

fun is_loopback :: "addr \<Rightarrow> bool" where
  "is_loopback (V4 bs) = (hd bs = 127)"
| "is_loopback (V6 bs z) = (bs = replicate 15 0 @ [1])"

fun is_multicast :: "addr \<Rightarrow> bool" where
  "is_multicast (V4 bs) = (hd bs div 16 = 14)"
| "is_multicast (V6 bs z) = (hd bs = 255)"

fun is_link_local_unicast :: "addr \<Rightarrow> bool" where
  "is_link_local_unicast (V4 bs) = (hd bs = 169 \<and> bs ! 1 = 254)"
| "is_link_local_unicast (V6 bs z) = (hd bs = 254 \<and> bs ! 1 div 64 = 2)"

fun is_unspecified :: "addr \<Rightarrow> bool" where
  "is_unspecified (V4 bs) = (bs = [0, 0, 0, 0])"
| "is_unspecified (V6 bs z) = (bs = replicate 16 0 \<and> z = [])"

text \<open>On addresses that are not IPv4 mapped into IPv6, as after \<open>Unmap\<close>.\<close>

definition is_global_unicast :: "addr \<Rightarrow> bool" where
  "is_global_unicast a \<longleftrightarrow> a \<noteq> V4 [255, 255, 255, 255] \<and> \<not> is_unspecified a \<and>
     \<not> is_loopback a \<and> \<not> is_multicast a \<and> \<not> is_link_local_unicast a"

fun is_private :: "addr \<Rightarrow> bool" where
  "is_private (V4 bs) =
     (hd bs = 10 \<or> (hd bs = 172 \<and> bs ! 1 div 16 = 1) \<or> (hd bs = 192 \<and> bs ! 1 = 168))"
| "is_private (V6 bs z) = (hd bs div 2 = 126)"

subsection \<open>Text\<close>

definition show_v4 :: "nat list \<Rightarrow> string" where
  "show_v4 bs = join ''.'' (map show_nat bs)"

fun groups_of :: "nat list \<Rightarrow> nat list" where
  "groups_of (a # b # bs) = (256 * a + b) # groups_of bs"
| "groups_of _ = []"

text \<open>The first of the longest runs of at least two zero groups: its start and its end.\<close>

definition zero_run_at :: "nat list \<Rightarrow> nat \<Rightarrow> nat" where
  "zero_run_at gs i = length (takeWhile (\<lambda>g. g = 0) (drop i gs))"

definition zero_run :: "nat list \<Rightarrow> (nat \<times> nat) option" where
  "zero_run gs =
     foldl (\<lambda>best i.
        let l = zero_run_at gs i
        in if 2 \<le> l \<and> (case best of None \<Rightarrow> True | Some (s, e) \<Rightarrow> e - s < l) then Some (i, i + l) else best)
       None [0..<length gs]"

definition show_v6_groups :: "nat list \<Rightarrow> string" where
  "show_v6_groups gs =
     (case zero_run gs of
        None \<Rightarrow> join '':'' (map show_hex gs)
      | Some (s, e) \<Rightarrow>
          join '':'' (map show_hex (take s gs)) @ ''::'' @ join '':'' (map show_hex (drop e gs)))"

fun show_addr :: "addr \<Rightarrow> string" where
  "show_addr (V4 bs) = show_v4 bs"
| "show_addr (V6 bs z) =
     (if take 12 bs = replicate 10 0 @ [255, 255] then ''::ffff:'' @ show_v4 (drop 12 bs)
      else show_v6_groups (groups_of bs)) @
     (if z = [] then [] else CHR ''%'' # z)"

definition show_single_prefix :: "addr \<Rightarrow> string" where
  "show_single_prefix a = show_addr a @ ''/'' @ show_nat (bit_len a)"

subsection \<open>Dotted quads\<close>

lemma split_on_plain: "sep \<notin> set p \<Longrightarrow> split_on sep p = [p]"
  by (induction p) auto

lemma split_on_append: "sep \<notin> set p \<Longrightarrow> split_on sep (p @ sep # s) = p # split_on sep s"
  by (induction p) auto

lemma split_on_join:
  "ps \<noteq> [] \<Longrightarrow> \<forall>p \<in> set ps. sep \<notin> set p \<Longrightarrow> split_on sep (join [sep] ps) = ps"
  by (induction "[sep]" ps rule: join.induct) (auto simp: split_on_plain split_on_append)

lemma digit_char_byte: "d < 10 \<Longrightarrow> byte_val (digit_char d) = 48 + d"
  by (simp add: digit_char_def)

lemma digit_char_digit: "d < 10 \<Longrightarrow> is_digit (digit_char d)"
  by (simp add: is_digit_def digit_char_byte)

lemma digit_value_char: "d < 10 \<Longrightarrow> digit_value (digit_char d) = d"
  by (simp add: digit_value_def digit_char_byte)

lemma show_nat_digits: "list_all is_digit (show_nat n)"
  by (induction n rule: show_nat.induct) (subst show_nat.simps, simp add: digit_char_digit)

lemma show_nat_nonempty [simp]: "show_nat n \<noteq> []"
  by (subst show_nat.simps) simp

lemma decimal_value_snoc: "decimal_value (s @ [c]) = decimal_value s * 10 + digit_value c"
  by (simp add: decimal_value_def)

lemma decimal_value_show: "decimal_value (show_nat n) = n"
proof (induction n rule: show_nat.induct)
  case (1 n)
  show ?case
  proof (cases "n < 10")
    case True
    then show ?thesis
      by (subst show_nat.simps) (simp add: decimal_value_def digit_value_char)
  next
    case False
    then have "decimal_value (show_nat n) = n div 10 * 10 + n mod 10"
      using 1[OF False] by (subst show_nat.simps) (simp add: decimal_value_snoc digit_value_char)
    then show ?thesis by simp
  qed
qed

lemma zero_byte: "c = CHR ''0'' \<longleftrightarrow> byte_val c = 48"
proof
  assume "byte_val c = 48"
  then have "byte_val c = byte_val CHR ''0''" by simp
  then show "c = CHR ''0''" by (simp only: of_char_eq_iff)
qed simp

lemma show_nat_hd: "0 < n \<Longrightarrow> hd (show_nat n) \<noteq> CHR ''0''"
proof (induction n rule: show_nat.induct)
  case (1 n)
  show ?case
  proof (cases "n < 10")
    case True
    then show ?thesis using "1.prems"
      by (subst show_nat.simps) (simp add: zero_byte digit_char_byte)
  next
    case False
    then have "0 < n div 10" by simp
    then show ?thesis using 1(1)[OF False] False by (subst show_nat.simps) (simp add: hd_append)
  qed
qed

lemma show_nat_long: "1 < length (show_nat n) \<Longrightarrow> 10 \<le> n"
  by (subst (asm) show_nat.simps) (auto split: if_splits)

lemma v4_field_show: "n < 256 \<Longrightarrow> v4_field (show_nat n)"
proof -
  assume "n < 256"
  moreover have "1 < length (show_nat n) \<Longrightarrow> hd (show_nat n) \<noteq> CHR ''0''"
    using show_nat_long[of n] show_nat_hd[of n] by simp
  ultimately show ?thesis
    by (simp add: v4_field_def show_nat_digits decimal_value_show)
qed

lemma digit_neq: "is_digit c \<Longrightarrow> c \<noteq> CHR ''.'' \<and> c \<noteq> CHR '':'' \<and> c \<noteq> CHR ''%'' \<and> c \<noteq> CHR ''/''"
  by (auto simp: is_digit_def)

lemma show_nat_neq: "c \<in> set (show_nat n) \<Longrightarrow> c \<noteq> CHR ''.'' \<and> c \<noteq> CHR '':'' \<and> c \<noteq> CHR ''%'' \<and> c \<noteq> CHR ''/''"
  using show_nat_digits[of n] digit_neq by (auto simp: list_all_iff)

lemma parse_show_v4:
  "length bs = 4 \<Longrightarrow> \<forall>b \<in> set bs. b < 256 \<Longrightarrow> parse_v4 (show_v4 bs) = Some bs"
proof -
  assume a: "length bs = 4" "\<forall>b \<in> set bs. b < 256"
  have "split_on CHR ''.'' (show_v4 bs) = map show_nat bs"
    unfolding show_v4_def using a(1) show_nat_neq by (intro split_on_join) auto
  then show ?thesis using a
    by (auto simp: parse_v4_def Let_def list_all_iff v4_field_show decimal_value_show map_idI)
qed

lemma find_first: "find P (xs @ y # ys) = Some y" if "\<forall>x \<in> set xs. \<not> P x" "P y"
  using that by (induction xs) auto

lemma show_v4_dot:
  assumes "length bs = 4"
  obtains d s where "show_v4 bs = d @ CHR ''.'' # s" "\<forall>c \<in> set d. is_digit c"
proof -
  obtain a b c e where bs: "bs = [a, b, c, e]"
    using assms by (auto simp: length_Suc_conv numeral_eq_Suc)
  show thesis
    by (rule that[of "show_nat a" "join ''.'' (map show_nat [b, c, e])"])
       (use show_nat_digits[of a] in \<open>auto simp: bs show_v4_def list_all_iff\<close>)
qed

lemma parse_addr_v4:
  assumes "length bs = 4" "\<forall>b \<in> set bs. b < 256"
  shows "parse_addr (show_v4 bs) = Some (V4 bs)"
proof -
  obtain d s where ds: "show_v4 bs = d @ CHR ''.'' # s" "\<forall>c \<in> set d. is_digit c"
    using show_v4_dot[OF assms(1)] .
  have "find (\<lambda>c. c = CHR ''.'' \<or> c = CHR '':'' \<or> c = CHR ''%'') (show_v4 bs) = Some CHR ''.''"
    unfolding ds(1) using ds(2) digit_neq by (intro find_first) auto
  then show ?thesis using parse_show_v4[OF assms] by (simp add: parse_addr_def)
qed

lemma parse_v4_bytes: "parse_v4 s = Some bs \<Longrightarrow> length bs = 4 \<and> (\<forall>b \<in> set bs. b < 256)"
  by (auto simp: parse_v4_def Let_def list_all_iff v4_field_def le_imp_less_Suc[of _ 255, simplified]
      split: if_splits)

subsection \<open>The text of an address parses to it\<close>

lemma hex_char_value: "d < 16 \<Longrightarrow> hex_value (hex_char d) = Some d"
  by (auto simp: hex_char_def hex_value_def is_digit_def)

lemma hex_not_colon: "\<not> is_hex CHR '':''" "\<not> is_hex CHR ''.''" "\<not> is_hex CHR ''%''"
  by (simp_all add: is_hex_def hex_value_def is_digit_def)

lemma digit_is_hex: "is_digit c \<Longrightarrow> is_hex c"
  by (simp add: is_hex_def hex_value_def)

lemma show_hex_nonempty [simp]: "show_hex n \<noteq> []"
  by (subst show_hex.simps) simp

lemma show_hex_hex: "c \<in> set (show_hex n) \<Longrightarrow> is_hex c"
proof (induction n rule: show_hex.induct)
  case (1 n)
  show ?case
  proof (cases "n < 16")
    case True
    then show ?thesis using "1.prems" by (subst (asm) show_hex.simps) (simp add: is_hex_def hex_char_value)
  next
    case False
    then have "c \<in> set (show_hex (n div 16)) \<or> c = hex_char (n mod 16)"
      using "1.prems" by (subst (asm) show_hex.simps) auto
    then show ?thesis using 1(1)[OF False] by (auto simp: is_hex_def hex_char_value)
  qed
qed

lemma hex_number_snoc: "hex_number (s @ [c]) = hex_number s * 16 + the (hex_value c)"
  by (simp add: hex_number_def)

lemma hex_number_show: "hex_number (show_hex n) = n"
proof (induction n rule: show_hex.induct)
  case (1 n)
  show ?case
  proof (cases "n < 16")
    case True
    then show ?thesis by (subst show_hex.simps) (simp add: hex_number_def hex_char_value)
  next
    case False
    then have "hex_number (show_hex n) = n div 16 * 16 + n mod 16"
      using 1[OF False] by (subst show_hex.simps) (simp add: hex_number_snoc hex_char_value)
    then show ?thesis by simp
  qed
qed

lemma show_hex_length: "n < 16 ^ k \<Longrightarrow> 0 < k \<Longrightarrow> length (show_hex n) \<le> k"
proof (induction n arbitrary: k rule: show_hex.induct)
  case (1 n)
  show ?case
  proof (cases "n < 16")
    case True
    then show ?thesis using "1.prems" by (subst show_hex.simps) simp
  next
    case False
    then have "k \<noteq> 1" using "1.prems" by auto
    then obtain j where j: "k = Suc j" "0 < j"
      using "1.prems"(2) by (cases k) auto
    then have "n div 16 < 16 ^ j" using "1.prems" by (simp add: less_mult_imp_div_less mult.commute)
    then have "length (show_hex (n div 16)) \<le> j" using 1(1)[OF False] j by blast
    then show ?thesis using False j by (subst show_hex.simps) simp
  qed
qed

lemma takeWhile_hex:
  "\<forall>c \<in> set h. is_hex c \<Longrightarrow> rest = [] \<or> \<not> is_hex (hd rest) \<Longrightarrow>
   takeWhile is_hex (h @ rest) = h"
  by (cases rest) (auto simp: takeWhile_append)

definition bytes_of :: "nat list \<Rightarrow> nat list" where
  "bytes_of gs = concat (map (\<lambda>g. [g div 256, g mod 256]) gs)"

lemma bytes_of_append [simp]: "bytes_of (xs @ ys) = bytes_of xs @ bytes_of ys"
  by (simp add: bytes_of_def)

lemma bytes_of_Cons: "bytes_of (g # gs) = g div 256 # g mod 256 # bytes_of gs"
  by (simp add: bytes_of_def)

lemma length_bytes_of [simp]: "length (bytes_of gs) = 2 * length gs"
  by (induction gs) (auto simp: bytes_of_def)

lemma bytes_of_zeros: "bytes_of (replicate k 0) = replicate (2 * k) 0"
  by (induction k) (auto simp: bytes_of_def)

definition show_groups :: "nat list \<Rightarrow> string" where
  "show_groups gs = join '':'' (map show_hex gs)"

lemma show_groups_simps:
  "show_groups [] = []" "show_groups [g] = show_hex g"
  "gs \<noteq> [] \<Longrightarrow> show_groups (g # gs) = show_hex g @ CHR '':'' # show_groups gs"
  by (cases gs; simp add: show_groups_def)+

lemma show_groups_hd:
  "gs \<noteq> [] \<Longrightarrow> show_groups gs \<noteq> [] \<and> is_hex (hd (show_groups gs))"
proof (cases gs)
  case (Cons g hs)
  have "is_hex (hd (show_hex g))" using show_hex_hex[of "hd (show_hex g)" g] by simp
  then show ?thesis using Cons by (cases hs) (simp_all add: show_groups_simps hd_append)
qed simp

lemma v6_step:
  assumes "length bs < 16" "g < 65536" "rest = [] \<or> hd rest = CHR '':''"
  shows "v6_loop bs e (show_hex g @ rest) =
    (let bs' = bs @ [g div 256, g mod 256]
     in if rest = [] then Some (bs', e, [])
        else if tl rest = [] then None
        else if hd (tl rest) = CHR '':''
        then (if e \<noteq> None then None
              else if tl (tl rest) = [] then Some (bs', Some (length bs'), [])
              else v6_loop bs' (Some (length bs')) (tl (tl rest)))
        else v6_loop bs' e (tl rest))"
proof -
  have t: "takeWhile is_hex (show_hex g @ rest) = show_hex g"
    using assms(3) show_hex_hex by (intro takeWhile_hex) (auto simp: hex_not_colon)
  have "length (show_hex g) \<le> 4" using assms(2) by (intro show_hex_length) simp_all
  then have n: "\<not> 4 < length (show_hex g)" by simp
  show ?thesis
  proof (cases rest)
    case Nil
    then show ?thesis
      using assms(1) n by (subst v6_loop.simps) (simp add: Let_def hex_number_show t[unfolded Nil append_Nil2])
  next
    case (Cons c r)
    then have c: "c = CHR '':''" using assms(3) by simp
    show ?thesis
      using assms(1) t[unfolded Cons c] n Cons c by (subst v6_loop.simps) (simp add: Let_def hex_number_show)
  qed
qed

lemma v6_groups:
  "gs \<noteq> [] \<Longrightarrow> \<forall>g \<in> set gs. g < 65536 \<Longrightarrow> length bs + 2 * length gs \<le> 16 \<Longrightarrow>
   v6_loop bs e (show_groups gs) = Some (bs @ bytes_of gs, e, [])"
proof (induction gs arbitrary: bs)
  case (Cons g gs)
  have bs: "length bs < 16" "g < 65536" using Cons.prems by auto
  show ?case
  proof (cases "gs = []")
    case True
    then show ?thesis using v6_step[OF bs, of "[]" e] by (simp add: show_groups_simps bytes_of_def)
  next
    case False
    have "v6_loop bs e (show_groups (g # gs)) =
        v6_loop (bs @ [g div 256, g mod 256]) e (show_groups gs)"
      using False v6_step[OF bs, of "CHR '':'' # show_groups gs" e] show_groups_hd[OF False]
      by (auto simp: show_groups_simps Let_def hex_not_colon)
    then show ?thesis using Cons False by (simp add: bytes_of_Cons)
  qed
qed simp

lemma v6_compressed:
  "gs \<noteq> [] \<Longrightarrow> \<forall>g \<in> set gs \<union> set hs. g < 65536 \<Longrightarrow> length bs + 2 * length gs + 2 * length hs < 16 \<Longrightarrow>
   v6_loop bs None (show_groups gs @ ''::'' @ show_groups hs) =
     Some (bs @ bytes_of gs @ bytes_of hs, Some (length bs + 2 * length gs), [])"
proof (induction gs arbitrary: bs)
  case (Cons g gs)
  have bs: "length bs < 16" "g < 65536" using Cons.prems by auto
  show ?case
  proof (cases "gs = []")
    case True
    let ?bs = "bs @ [g div 256, g mod 256]"
    have "v6_loop bs None (show_hex g @ ''::'' @ show_groups hs) =
        (if show_groups hs = [] then Some (?bs, Some (length ?bs), [])
         else v6_loop ?bs (Some (length ?bs)) (show_groups hs))"
      using v6_step[OF bs, of "''::'' @ show_groups hs" None] by (simp add: Let_def)
    moreover have "hs \<noteq> [] \<Longrightarrow> v6_loop ?bs (Some (length ?bs)) (show_groups hs) =
        Some (?bs @ bytes_of hs, Some (length ?bs), [])"
      using Cons.prems True by (intro v6_groups) auto
    ultimately show ?thesis
      using True show_groups_hd[of hs] by (cases "hs = []") (auto simp: show_groups_simps bytes_of_def)
  next
    case False
    have hd: "show_groups gs @ ''::'' @ show_groups hs \<noteq> []"
      "hd (show_groups gs @ ''::'' @ show_groups hs) \<noteq> CHR '':''"
      using show_groups_hd[OF False] by (auto simp: hex_not_colon)
    have "v6_loop bs None (show_groups (g # gs) @ ''::'' @ show_groups hs) =
        v6_loop (bs @ [g div 256, g mod 256]) None (show_groups gs @ ''::'' @ show_groups hs)"
      using False v6_step[OF bs, of "CHR '':'' # show_groups gs @ ''::'' @ show_groups hs" None] hd
      by (simp add: show_groups_simps Let_def)
    then show ?thesis using Cons False by (simp add: bytes_of_Cons)
  qed
qed simp

lemma zero_run_sound:
  assumes "zero_run gs = Some (s, e)"
  shows "s + 2 \<le> e \<and> e \<le> length gs \<and> gs = take s gs @ replicate (e - s) 0 @ drop e gs"
proof -
  let ?step = "\<lambda>best i. let l = zero_run_at gs i
        in if 2 \<le> l \<and> (case best of None \<Rightarrow> True | Some (s, e) \<Rightarrow> e - s < l) then Some (i, i + l) else best"
  have inv: "foldl ?step best is = Some (s, e) \<Longrightarrow>
      (\<forall>s e. best = Some (s, e) \<longrightarrow> 2 \<le> zero_run_at gs s \<and> e = s + zero_run_at gs s) \<Longrightarrow>
      2 \<le> zero_run_at gs s \<and> e = s + zero_run_at gs s" for "is" best
  proof (induction "is" arbitrary: best)
    case (Cons i ns)
    show ?case
      by (rule Cons.IH[of "?step best i"]) (use Cons.prems in \<open>auto simp: Let_def split: if_splits\<close>)
  qed simp
  from inv[of None "[0..<length gs]"] assms
  have r: "2 \<le> zero_run_at gs s" "e = s + zero_run_at gs s" by (auto simp: zero_run_def)
  let ?z = "takeWhile (\<lambda>g. g = 0) (drop s gs)"
  have "drop s gs = ?z @ dropWhile (\<lambda>g. g = 0) (drop s gs)" by simp
  moreover have "?z = replicate (length ?z) 0"
    by (rule replicate_eqI[symmetric, THEN sym]) (auto dest: set_takeWhileD)
  moreover have "dropWhile (\<lambda>g. g = 0) (drop s gs) = drop (length ?z) (drop s gs)"
    by (rule dropWhile_eq_drop)
  ultimately have d: "drop s gs = replicate (e - s) 0 @ drop e gs"
    using r(2) by (metis add.commute add_diff_cancel_left' drop_drop zero_run_at_def)
  have "length ?z \<le> length (drop s gs)" by (rule length_takeWhile_le)
  then have "e \<le> length gs" using r by (simp add: zero_run_at_def)
  moreover have "gs = take s gs @ drop s gs" by simp
  ultimately show ?thesis using r d by (metis add_le_cancel_left)
qed


fun addr_ok :: "addr \<Rightarrow> bool" where
  "addr_ok (V4 bs) \<longleftrightarrow> length bs = 4 \<and> (\<forall>b \<in> set bs. b < 256)"
| "addr_ok (V6 bs z) \<longleftrightarrow> length bs = 16 \<and> (\<forall>b \<in> set bs. b < 256)"

lemma groups_of_facts:
  "even (length bs) \<Longrightarrow> \<forall>b \<in> set bs. b < 256 \<Longrightarrow>
   bytes_of (groups_of bs) = bs \<and> 2 * length (groups_of bs) = length bs \<and>
   (\<forall>g \<in> set (groups_of bs). g < 65536)"
proof (induction bs rule: groups_of.induct)
  case (1 a b bs)
  then have "(256 * a + b) div 256 = a" "(256 * a + b) mod 256 = b" "256 * a + b < 65536" by auto
  then show ?case using 1 by (simp add: bytes_of_Cons)
qed (auto simp: bytes_of_def)

definition v6_text :: "string \<Rightarrow> nat list \<Rightarrow> bool" where
  "v6_text s bs \<longleftrightarrow> CHR ''%'' \<notin> set s \<and>
     find (\<lambda>c. c = CHR ''.'' \<or> c = CHR '':'' \<or> c = CHR ''%'') s = Some CHR '':'' \<and>
     (if prefix ''::'' s
      then (if drop 2 s = [] then bs = replicate 16 0
            else Option.bind (v6_loop [] (Some 0) (drop 2 s)) fill_ellipsis = Some bs)
      else Option.bind (v6_loop [] None s) fill_ellipsis = Some bs)"

lemma find_append: "find P (xs @ ys) = (case find P xs of None \<Rightarrow> find P ys | Some x \<Rightarrow> Some x)"
  by (induction xs) auto

lemma parse_v6_text:
  assumes "v6_text s bs" shows "parse_addr (s @ (if z = [] then [] else CHR ''%'' # z)) = Some (V6 bs z)"
proof -
  let ?t = "s @ (if z = [] then [] else CHR ''%'' # z)"
  have p: "CHR ''%'' \<notin> set s" using assms by (simp add: v6_text_def)
  have "cut CHR ''%'' ?t = (s, z, z \<noteq> [])"
    using cut_append[OF p, of z] cut_not_found[OF p] by simp
  then have "parse_v6 ?t = Some (V6 bs z)"
    using assms by (auto simp: parse_v6_def v6_text_def)
  moreover have "find (\<lambda>c. c = CHR ''.'' \<or> c = CHR '':'' \<or> c = CHR ''%'') ?t = Some CHR '':''"
    using assms by (simp add: v6_text_def find_append)
  ultimately show ?thesis by (simp add: parse_addr_def)
qed

lemma hex_neq: "is_hex c \<Longrightarrow> c \<noteq> CHR ''.'' \<and> c \<noteq> CHR '':'' \<and> c \<noteq> CHR ''%''"
  using hex_not_colon by auto

lemma show_groups_set: "c \<in> set (show_groups gs) \<Longrightarrow> is_hex c \<or> c = CHR '':''"
proof (induction gs)
  case (Cons g gs)
  then show ?case by (cases "gs = []") (auto simp: show_groups_simps show_hex_hex)
qed (simp add: show_groups_simps)

lemma find_colon:
  "CHR '':'' \<in> set s \<Longrightarrow> \<forall>c \<in> set s. is_hex c \<or> c = CHR '':'' \<Longrightarrow>
   find (\<lambda>c. c = CHR ''.'' \<or> c = CHR '':'' \<or> c = CHR ''%'') (s @ r) = Some CHR '':''"
  by (induction s) (auto dest: hex_neq)

lemma not_double_colon: "gs \<noteq> [] \<Longrightarrow> \<not> prefix ''::'' (show_groups gs @ r)"
  using show_groups_hd[of gs] hex_neq by (cases "show_groups gs") auto

lemma fill_between:
  "length xs + length ys < 16 \<Longrightarrow>
    fill_ellipsis (xs @ ys, Some (length xs), []) = Some (xs @ replicate (16 - (length xs + length ys)) 0 @ ys)"
  by (simp add: fill_ellipsis_def)

lemma show_v6_groups_text:
  assumes "length gs = 8" "\<forall>g \<in> set gs. g < 65536"
  shows "v6_text (show_v6_groups gs) (bytes_of gs)"
proof (cases "zero_run gs")
  case None
  have ne: "gs \<noteq> []" using assms(1) by auto
  have "v6_loop [] None (show_groups gs) = Some (bytes_of gs, None, [])"
    using v6_groups[OF ne assms(2), of "[]" None] assms(1) by simp
  moreover have "CHR '':'' \<in> set (show_groups gs)"
    using assms(1) by (cases gs; cases "tl gs") (auto simp: show_groups_simps)
  ultimately show ?thesis
    using None find_colon[of "show_groups gs" "[]"] show_groups_set[of _ gs] not_double_colon[OF ne, of "[]"]
      assms(1) hex_neq
    by (auto simp: v6_text_def show_v6_groups_def show_groups_def[symmetric] fill_ellipsis_def)
next
  case (Some r)
  obtain s e where r: "r = (s, e)" by fastforce
  note z = zero_run_sound[OF Some[unfolded r]]
  let ?a = "take s gs" and ?b = "drop e gs"
  have shape: "show_v6_groups gs = show_groups ?a @ ''::'' @ show_groups ?b"
    by (simp add: show_v6_groups_def Some r show_groups_def)
  have len: "length ?a = s" "length ?b = 8 - e" "s + 2 \<le> e" "e \<le> 8" using z assms(1) by auto
  have small: "\<forall>g \<in> set ?a \<union> set ?b. g < 65536" using assms(2) by (auto dest: in_set_takeD in_set_dropD)
  have whole: "bytes_of gs = bytes_of ?a @ replicate (2 * (e - s)) 0 @ bytes_of ?b"
    using z by (metis bytes_of_append bytes_of_zeros)
  have fill: "fill_ellipsis (bytes_of ?a @ bytes_of ?b, Some (2 * s), []) = Some (bytes_of gs)"
    using fill_between[of "bytes_of ?a" "bytes_of ?b"] len(3,4) unfolding whole length_bytes_of len(1,2)
    by (simp add: diff_diff_left algebra_simps diff_mult_distrib2)
  have chars: "\<forall>c \<in> set (show_v6_groups gs). is_hex c \<or> c = CHR '':''"
    using show_groups_set unfolding shape by auto
  have base: "CHR ''%'' \<notin> set (show_v6_groups gs)"
    "find (\<lambda>c. c = CHR ''.'' \<or> c = CHR '':'' \<or> c = CHR ''%'') (show_v6_groups gs) = Some CHR '':''"
    using chars hex_neq find_colon[of "show_v6_groups gs" "[]"] by (auto simp: shape)
  show ?thesis
  proof (cases "s = 0")
    case True
    then have p: "prefix ''::'' (show_v6_groups gs)" "drop 2 (show_v6_groups gs) = show_groups ?b"
      by (simp_all add: shape show_groups_simps)
    show ?thesis
    proof (cases "?b = []")
      case True
      then have "bytes_of gs = replicate 16 0" using whole \<open>s = 0\<close> len by (simp add: bytes_of_def)
      then show ?thesis using p base True by (simp add: v6_text_def show_groups_simps)
    next
      case False
      have "v6_loop [] (Some 0) (show_groups ?b) = Some (bytes_of ?b, Some 0, [])"
        using v6_groups[OF False, of "[]" "Some 0"] small len by simp
      then show ?thesis
        using p base fill True show_groups_hd[OF False] by (simp add: v6_text_def bytes_of_def)
    qed
  next
    case False
    then have a: "?a \<noteq> []" using len by auto
    have "v6_loop [] None (show_v6_groups gs) = Some (bytes_of ?a @ bytes_of ?b, Some (2 * s), [])"
      unfolding shape using v6_compressed[OF a small, of "[]"] len by simp
    then show ?thesis
      using base fill not_double_colon[OF a, of "''::'' @ show_groups ?b"] by (simp add: v6_text_def shape)
  qed
qed

lemma mapped_text:
  assumes "length q = 4" "\<forall>b \<in> set q. b < 256"
  shows "v6_text (''::ffff:'' @ show_v4 q) (replicate 10 0 @ [255, 255] @ q)"
proof -
  obtain d s where ds: "show_v4 q = d @ CHR ''.'' # s" "\<forall>c \<in> set d. is_digit c"
    using show_v4_dot[OF assms(1)] .
  obtain a t where q: "q = a # t" using assms(1) by (cases q) auto
  have t: "t \<noteq> []" using assms(1) q by auto
  have v4: "show_v4 q = show_nat a @ CHR ''.'' # join ''.'' (map show_nat t)"
    using t by (cases t) (auto simp: q show_v4_def)
  let ?r = "CHR ''.'' # join ''.'' (map show_nat t)"
  have hexes: "takeWhile is_hex (show_v4 q) = show_nat a"
    unfolding v4 using show_nat_digits[of a] digit_is_hex hex_not_colon
    by (intro takeWhile_hex) (auto simp: list_all_iff)
  have "length (show_nat a) \<le> 3"
  proof -
    have "a < 256" using assms(2) q by simp
    then have "a div 10 div 10 < 10" by simp
    then show ?thesis by (subst show_nat.simps, subst show_nat.simps, subst show_nat.simps) auto
  qed
  then have loop4: "v6_loop [255, 255] (Some 0) (show_v4 q) = Some ([255, 255] @ q, Some 0, [])"
    using parse_show_v4[OF assms] hexes
    by (subst v6_loop.simps) (simp add: Let_def v4 del: join.simps)
  have f: "show_hex 65535 = ''ffff''"
    by (simp add: show_hex.simps hex_char_def char_of_eq_iff)
  have hd4: "show_v4 q \<noteq> []" "hd (show_v4 q) \<noteq> CHR '':''"
    unfolding v4 using show_nat_neq[of "hd (show_nat a)" a] by auto
  have "v6_loop [] (Some 0) (''ffff'' @ CHR '':'' # show_v4 q) = v6_loop [255, 255] (Some 0) (show_v4 q)"
    using v6_step[of "[]" 65535 "CHR '':'' # show_v4 q" "Some 0"] hd4 by (simp add: f Let_def)
  then have loop: "v6_loop [] (Some 0) (''ffff:'' @ show_v4 q) = Some ([255, 255] @ q, Some 0, [])"
    using loop4 by simp
  have "CHR ''%'' \<notin> set (show_v4 q)"
  proof -
    have "set (join ''.'' ps) \<subseteq> insert CHR ''.'' (\<Union>(set ` set ps))" for ps
      by (induction "''.''" ps rule: join.induct) auto
    then show ?thesis unfolding show_v4_def using show_nat_neq by fastforce
  qed
  then show ?thesis
    using loop assms(1) by (simp add: v6_text_def fill_ellipsis_def)
qed

lemma parse_show_addr:
  assumes "addr_ok a"
  shows "parse_addr (show_addr a) = Some a"
proof (cases a)
  case (V4 bs)
  then show ?thesis using assms by (simp add: parse_addr_v4)
next
  case (V6 bs z)
  then have bs: "length bs = 16" "\<forall>b \<in> set bs. b < 256" using V6 assms by auto
  show ?thesis
  proof (cases "take 12 bs = replicate 10 0 @ [255, 255]")
    case True
    then have "bs = replicate 10 0 @ [255, 255] @ drop 12 bs" by (metis append.assoc append_take_drop_id)
    moreover have "v6_text (''::ffff:'' @ show_v4 (drop 12 bs)) (replicate 10 0 @ [255, 255] @ drop 12 bs)"
      using bs by (intro mapped_text) (auto dest: in_set_dropD)
    ultimately show ?thesis
      using parse_v6_text[of "''::ffff:'' @ show_v4 (drop 12 bs)" bs z] True V6 by simp
  next
    case False
    have "v6_text (show_v6_groups (groups_of bs)) bs"
      using show_v6_groups_text[of "groups_of bs"] groups_of_facts[of bs] bs by simp
    then show ?thesis using parse_v6_text False V6 by simp
  qed
qed


subsection \<open>What parses is an address, and a single address is a prefix\<close>

lemma hex_value_bound: "hex_value c = Some v \<Longrightarrow> v < 16"
  by (auto simp: hex_value_def is_digit_def split: if_splits)

lemma hex_number_bound: "\<forall>c \<in> set s. is_hex c \<Longrightarrow> hex_number s < 16 ^ length s"
proof (induction s rule: rev_induct)
  case Nil
  then show ?case by (simp add: hex_number_def)
next
  case (snoc c s)
  obtain v where "hex_value c = Some v" using snoc.prems by (auto simp: is_hex_def)
  then show ?case using snoc.IH snoc.prems hex_value_bound[of c v] by (simp add: hex_number_snoc)
qed

lemma hex_group_bytes:
  assumes "ds = takeWhile is_hex s" "length ds \<le> 4"
  shows "hex_number ds div 256 < 256"
proof -
  have "hex_number ds < 16 ^ length ds"
    using assms(1) by (intro hex_number_bound) (auto dest: set_takeWhileD)
  also have "\<dots> \<le> (16::nat) ^ 4" using assms(2) by (intro power_increasing) auto
  finally show ?thesis by simp
qed

lemma v6_loop_bytes:
  "v6_loop bs ellipsis s = Some (bs', e', r) \<Longrightarrow> even (length bs) \<Longrightarrow> length bs \<le> 16 \<Longrightarrow>
   \<forall>b \<in> set bs. b < 256 \<Longrightarrow> length bs' \<le> 16 \<and> (\<forall>b \<in> set bs'. b < 256)"
proof (induction bs ellipsis s rule: v6_loop.induct)
  case (1 bs ellipsis s)
  show ?case
  proof (cases "16 \<le> length bs")
    case True
    then show ?thesis using "1.prems" by (subst (asm) v6_loop.simps) auto
  next
    case False
    then have room: "length bs + 2 \<le> 16" using "1.prems"(2) by presburger
    let ?ds = "takeWhile is_hex s"
    let ?rest = "drop (length ?ds) s"
    let ?bs = "bs @ [hex_number ?ds div 256, hex_number ?ds mod 256]"
    have ds: "\<not> (?ds = [] \<or> 4 < length ?ds)"
      using "1.prems"(1) False by (subst (asm) v6_loop.simps) (auto simp: Let_def)
    have byte: "hex_number ?ds div 256 < 256"
      by (rule hex_group_bytes[OF refl]) (use ds in simp)
    have new: "even (length ?bs)" "length ?bs \<le> 16" "\<forall>b \<in> set ?bs. b < 256"
      using "1.prems"(2) room "1.prems"(4) byte by simp_all
    note eq = "1.prems"(1)[unfolded v6_loop.simps[of bs ellipsis s] Let_def if_not_P[OF False] if_not_P[OF ds]]
    consider (dot) "?rest \<noteq> [] \<and> hd ?rest = CHR ''.''"
      | (last) "?rest = []"
      | (bad) "\<not> (?rest \<noteq> [] \<and> hd ?rest = CHR ''.'')" "?rest \<noteq> []" "hd ?rest \<noteq> CHR '':'' \<or> tl ?rest = []"
      | (colon2) "\<not> (?rest \<noteq> [] \<and> hd ?rest = CHR ''.'')" "?rest \<noteq> []"
          "\<not> (hd ?rest \<noteq> CHR '':'' \<or> tl ?rest = [])" "hd (tl ?rest) = CHR '':''"
      | (colon) "\<not> (?rest \<noteq> [] \<and> hd ?rest = CHR ''.'')" "?rest \<noteq> []"
          "\<not> (hd ?rest \<noteq> CHR '':'' \<or> tl ?rest = [])" "hd (tl ?rest) \<noteq> CHR '':''"
      by blast
    then show ?thesis
    proof cases
      case dot
      then obtain f where "parse_v4 s = Some f" "bs' = bs @ f" "length bs + 4 \<le> 16"
        using eq by (auto split: if_splits)
      then show ?thesis using parse_v4_bytes[of s f] "1.prems"(4) by auto
    next
      case last
      have "bs' = ?bs" using eq[unfolded last] by simp
      then show ?thesis using new by blast
    next
      case bad
      then show ?thesis using eq by (simp split: if_splits)
    next
      case colon2
      note rec = eq[unfolded if_not_P[OF colon2(1)] if_not_P[OF colon2(2)] if_not_P[OF colon2(3)] if_P[OF colon2(4)]]
      show ?thesis
      proof (cases "ellipsis = None")
        case True
        then have "\<not> ellipsis \<noteq> None" by simp
        note rec = rec[unfolded if_not_P[OF this]]
        show ?thesis
        proof (cases "tl (tl ?rest) = []")
          case fin: True
          have "bs' = ?bs" using rec[unfolded if_P[OF fin]] by (simp only: option.inject prod.inject)
          then show ?thesis using new by blast
        next
          case more: False
          show ?thesis
            using "1.IH"(1)[OF False refl refl ds colon2(1) refl colon2(2,3,4)] rec[unfolded if_not_P[OF more]]
              True more new by blast
        qed
      next
        case False
        then show ?thesis using rec by simp
      qed
    next
      case colon
      note rec = eq[unfolded if_not_P[OF colon(1)] if_not_P[OF colon(2)] if_not_P[OF colon(3)] if_not_P[OF colon(4)]]
      show ?thesis
        by (rule "1.IH"(2)[OF False refl refl ds colon(1) refl colon(2,3,4) rec new])
    qed
  qed
qed

lemma v6_bytes:
  assumes "Option.bind (v6_loop [] e s) fill_ellipsis = Some bs"
  shows "length bs = 16 \<and> (\<forall>b \<in> set bs. b < 256)"
proof -
  obtain bs' e' r where l: "v6_loop [] e s = Some (bs', e', r)" "fill_ellipsis (bs', e', r) = Some bs"
    using assms by (cases "v6_loop [] e s") auto
  then have "length bs' \<le> 16" "\<forall>b \<in> set bs'. b < 256" using v6_loop_bytes[OF l(1)] by auto
  moreover have "set (take n bs') \<subseteq> set bs'" "set (drop n bs') \<subseteq> set bs'" for n
    by (rule set_take_subset, rule set_drop_subset)
  ultimately show ?thesis using l(2)
    by (auto simp: fill_ellipsis_def subset_iff split: if_splits option.splits)
qed

lemma parse_addr_ok: "parse_addr s = Some a \<Longrightarrow> addr_ok a"
  using v6_bytes parse_v4_bytes
  by (auto simp: parse_addr_def parse_v6_def split: if_splits option.splits prod.splits)

lemma addr_ok_with_zone [simp]: "addr_ok (with_zone z a) = addr_ok a"
  by (cases a) auto

lemma with_zone_again [simp]: "with_zone z (with_zone y a) = with_zone z a"
  by (cases a) auto

lemma bit_len_with_zone [simp]: "bit_len (with_zone z a) = bit_len a"
  by (cases a) auto

lemma join_chars: "c \<in> set (join sep ps) \<Longrightarrow> c \<in> set sep \<or> (\<exists>p \<in> set ps. c \<in> set p)"
  by (induction sep ps rule: join.induct) auto

lemma hex_not_slash: "\<not> is_hex CHR ''/''"
  by (simp add: is_hex_def hex_value_def is_digit_def)

lemma show_v4_no_slash: "CHR ''/'' \<notin> set (show_v4 bs)"
  using show_nat_neq[of "CHR ''/''"] by (auto simp: show_v4_def dest!: join_chars)

lemma show_v6_groups_no_slash: "CHR ''/'' \<notin> set (show_v6_groups gs)"
  using show_hex_hex hex_not_slash
  by (auto simp: show_v6_groups_def split: option.splits dest!: join_chars)

lemma show_addr_no_slash: "CHR ''/'' \<notin> set (show_addr (with_zone [] a))"
  using show_v4_no_slash show_v6_groups_no_slash by (cases a) auto

lemma cut_last_append: "sep \<notin> set a \<Longrightarrow> cut_last sep (b @ sep # a) = Some (b, a)"
  by (simp add: cut_last_def cut_append)

lemma prefix_bits_show: "0 < n \<Longrightarrow> prefix_bits (show_nat n) = Some n"
  by (simp add: prefix_bits_def show_nat_digits show_nat_hd decimal_value_show)

lemma parse_single_prefix:
  assumes "addr_ok a"
  shows "parse_prefix (show_single_prefix (with_zone [] a)) = Some (with_zone [] a, bit_len a)"
proof -
  have "CHR ''/'' \<notin> set (show_nat (bit_len a))" using show_nat_neq by blast
  then show ?thesis
    using assms parse_show_addr[of "with_zone [] a"] prefix_bits_show[of "bit_len a"]
    by (cases a) (simp_all add: parse_prefix_def show_single_prefix_def cut_last_append
        del: show_addr.simps)
qed

subsection \<open>Addresses with a port\<close>

text \<open>\<open>net.JoinHostPort\<close> and \<open>netip.ParseAddrPort\<close>, whose port is a decimal number of 16 bits.\<close>

definition join_host_port :: "string \<Rightarrow> string \<Rightarrow> string" where
  "join_host_port host port =
     (if contains host '':'' then ''['' @ host @ '']:'' @ port else host @ '':'' @ port)"

definition parse_port :: "string \<Rightarrow> nat option" where
  "parse_port s =
     (if s \<noteq> [] \<and> list_all is_digit s \<and> decimal_value s < 2 ^ 16 then Some (decimal_value s) else None)"

definition is_v4 :: "addr \<Rightarrow> bool" where
  "is_v4 a = (case a of V4 _ \<Rightarrow> True | V6 _ _ \<Rightarrow> False)"

definition parse_addr_port :: "string \<Rightarrow> (addr \<times> nat) option" where
  "parse_addr_port s =
     (case cut_last CHR '':'' s of
        None \<Rightarrow> None
      | Some (ip, port) \<Rightarrow>
          if ip = [] \<or> port = [] then None
          else (let v6 = (hd ip = CHR ''['')
                in if v6 \<and> (length ip < 2 \<or> last ip \<noteq> CHR '']'') then None
                   else (case (parse_port port, parse_addr (if v6 then butlast (tl ip) else ip)) of
                           (Some p, Some a) \<Rightarrow> if v6 = is_v4 a then None else Some (a, p)
                         | _ \<Rightarrow> None)))"

lemma contains_char: "contains s [c] \<longleftrightarrow> c \<in> set s"
  by (auto simp: contains_def sublist_def in_set_conv_decomp)

lemma parse_addr_family:
  assumes "parse_addr s = Some a"
  shows "is_v4 a \<longleftrightarrow> CHR '':'' \<notin> set s" "hd s \<noteq> CHR ''[''" "s \<noteq> []"
proof -
  let ?P = "\<lambda>c. c = CHR ''.'' \<or> c = CHR '':'' \<or> c = CHR ''%''"
  show s: "s \<noteq> []" using assms by (auto simp: parse_addr_def)
  obtain c where c: "find ?P s = Some c" using assms by (auto simp: parse_addr_def split: option.splits)
  then consider (dot) "c = CHR ''.''" | (colon) "c = CHR '':''"
    using assms by (auto simp: parse_addr_def split: if_splits)
  then have "(is_v4 a \<longleftrightarrow> CHR '':'' \<notin> set s) \<and> hd s \<noteq> CHR ''[''"
  proof cases
    case dot
    then obtain bs where a: "a = V4 bs" "parse_v4 s = Some bs" using assms c by (auto simp: parse_addr_def)
    then have f: "\<forall>f \<in> set (split_on CHR ''.'' s). \<forall>c \<in> set f. is_digit c"
      by (auto simp: parse_v4_def Let_def list_all_iff v4_field_def split: if_splits)
    have "d = CHR ''.'' \<or> is_digit d" if "d \<in> set s" for d
      using join_chars[of d "''.''" "split_on CHR ''.'' s"] that f unfolding join_split_on by auto
    from this[of "CHR '':''"] this[of "CHR ''[''"]
    have "CHR '':'' \<notin> set s" "CHR ''['' \<notin> set s" by (auto simp: is_digit_def)
    then show ?thesis using a(1) hd_in_set[OF s] by (auto simp: is_v4_def)
  next
    case colon
    then have v6: "parse_v6 s = Some a" using assms c by (simp add: parse_addr_def)
    have "CHR '':'' \<in> set s"
    proof -
      obtain i where "i < length s" "c = s ! i" using c unfolding find_Some_iff by blast
      then show ?thesis using colon nth_mem by metis
    qed
    moreover have "\<not> is_v4 a" using v6 by (auto simp: parse_v6_def is_v4_def split: if_splits prod.splits)
    moreover have "hd s \<noteq> CHR ''[''"
    proof
      assume "hd s = CHR ''[''"
      then obtain r where "s = CHR ''['' # r" using s by (cases s) auto
      then show False using v6
        by (auto simp: parse_v6_def v6_loop.simps[of "[]" None] is_hex_def hex_value_def is_digit_def
            split: if_splits prod.splits)
    qed
    ultimately show ?thesis by blast
  qed
  then show "is_v4 a \<longleftrightarrow> CHR '':'' \<notin> set s" "hd s \<noteq> CHR ''[''" by blast+
qed

text \<open>A text joined with a port is an address with that port exactly when it is an address.\<close>

lemma parse_joined_port:
  assumes "parse_port port = Some p" "CHR '':'' \<notin> set port"
  shows "parse_addr_port (join_host_port host port) = map_option (\<lambda>a. (a, p)) (parse_addr host)"
proof -
  have port: "port \<noteq> []" using assms(1) by (auto simp: parse_port_def)
  show ?thesis
  proof (cases "CHR '':'' \<in> set host")
    case True
    then have h: "join_host_port host port = (''['' @ host @ '']'') @ CHR '':'' # port"
      by (simp add: join_host_port_def contains_char)
    show ?thesis
    proof (cases "parse_addr host")
      case None
      then show ?thesis using assms unfolding h parse_addr_port_def cut_last_append[OF assms(2)]
        by (simp add: Let_def butlast_append)
    next
      case (Some a)
      then show ?thesis using assms True parse_addr_family(1)[OF Some]
        unfolding h parse_addr_port_def cut_last_append[OF assms(2)]
        by (simp add: Let_def butlast_append port)
    qed
  next
    case False
    then have h: "join_host_port host port = host @ CHR '':'' # port"
      by (simp add: join_host_port_def contains_char)
    have inner: "is_v4 a" if "parse_addr (butlast (tl host)) = Some a" for a
    proof -
      have "CHR '':'' \<notin> set (butlast (tl host))"
        using False by (cases host) (auto dest: in_set_butlastD)
      then show ?thesis using parse_addr_family(1)[OF that] by blast
    qed
    show ?thesis
    proof (cases "parse_addr host")
      case None
      then show ?thesis using assms port inner unfolding h parse_addr_port_def cut_last_append[OF assms(2)]
        by (auto simp: Let_def split: option.splits)
    next
      case (Some a)
      then show ?thesis using assms port False parse_addr_family[OF Some]
        unfolding h parse_addr_port_def cut_last_append[OF assms(2)]
        by (auto simp: Let_def)
    qed
  qed
qed

end
