(* ===== verification/Outbound_Ip.thy ===== *)
theory Outbound_Ip
  imports Probes Go_Netip
begin

text \<open>
  \<open>core/outbound_ip.go\<close>: which address the outside sees. Several sources are raced, three at a time;
  the first answer that mentions a public address wins. The lemmas show what is taken for an address,
  what the race returns in every interleaving, and that a lookup of an older epoch is cancelled.
\<close>

subsection \<open>Addresses in a body\<close>

definition is_token_char :: "char \<Rightarrow> bool" where
  "is_token_char c \<longleftrightarrow> c = CHR ''.'' \<or> c = CHR '':'' \<or> is_digit c \<or> is_letter c"

text \<open>\<open>100.64.0.0/10\<close>.\<close>

fun in_shared_address_space :: "addr \<Rightarrow> bool" where
  "in_shared_address_space (V4 bs) = (hd bs = 100 \<and> bs ! 1 div 64 = 1)"
| "in_shared_address_space (V6 bs z) = False"

definition is_public :: "addr \<Rightarrow> bool" where
  "is_public a \<longleftrightarrow> is_global_unicast a \<and> \<not> is_private a \<and> \<not> in_shared_address_space a"

definition mentions_ip :: "string \<Rightarrow> bool" where
  "mentions_ip body \<longleftrightarrow>
     list_ex (\<lambda>token. case parse_addr token of None \<Rightarrow> False | Some a \<Rightarrow> is_public (unmap a))
       (fields_of is_token_char body)"

subsection \<open>One source\<close>

record outbound_ip_result =
  oi_url :: string
  oi_body :: string
  oi_delay :: int
  oi_chains :: "string list"
  oi_error :: string
  oi_epoch :: u64
  oi_version :: u64
  oi_hits :: "route_hit list"
  oi_node_hits :: "route_hit list"

definition outbound_ip_max_body :: int where "outbound_ip_max_body = 4096"

definition browser_user_agent :: string where
  "browser_user_agent = ''Mozilla/5.0 (Windows NT 10.0; Win64; x64) AppleWebKit/537.36 (KHTML, like Gecko) Chrome/120.0.0.0 Safari/537.36''"

fun node_hits_loop ::
  "('p, 'm, 's) tunnel \<Rightarrow> string \<Rightarrow> route_hit list \<Rightarrow> route_hit list \<Rightarrow> route_hit list option" where
  "node_hits_loop tn node [] through = Some through"
| "node_hits_loop tn node (hit # hs) through =
     (case resolve_exit tn (hit_host hit) node of
        None \<Rightarrow> None
      | Some e \<Rightarrow> node_hits_loop tn node hs
          (with_hit through \<lparr>hit_host = hit_host hit, hit_proxy = node, hit_exit = e\<rparr>))"

definition node_hits ::
  "('p, 'm, 's) tunnel \<Rightarrow> string list \<Rightarrow> string \<Rightarrow> route_hit list \<Rightarrow> route_hit list option" where
  "node_hits tn hops proxy_name hs =
     (case hops of
        [] \<Rightarrow> Some []
      | node # _ \<Rightarrow> if node = proxy_name then Some [] else node_hits_loop tn node hs [])"

definition outbound_request :: "string \<Rightarrow> string \<Rightarrow> int \<Rightarrow> probe_request" where
  "outbound_request url proxy_name timeout =
     \<lparr>pq_method = ''GET'', pq_url = url, pq_proxy = proxy_name,
      pq_headers = [''User-Agent'' \<mapsto> browser_user_agent], pq_body = [], pq_timeout = timeout,
      pq_max_body = outbound_ip_max_body, pq_no_redirect = False, pq_until = None\<rparr>"

text \<open>Whether a probe's result can decide the race.\<close>

definition usable_answer :: "probe_result option \<Rightarrow> bool" where
  "usable_answer result =
     (case result of
        None \<Rightarrow> False
      | Some r \<Rightarrow> res_error r = [] \<and> res_status r = 200 \<and> mentions_ip (res_body r))"

definition probe_outbound_ip_source ::
  "('p, 'm, 's) tunnel \<Rightarrow> probe_env \<Rightarrow> u64 \<times> u64 \<Rightarrow> string \<Rightarrow> string \<Rightarrow> int \<Rightarrow> route_hit list
   \<Rightarrow> (outbound_ip_result option \<times> route_hit list) option" where
  "probe_outbound_ip_source tn env stamp url proxy_name timeout recorder =
     (case run_probe tn env stamp (outbound_request url proxy_name timeout) (Some recorder) of
        None \<Rightarrow> None
      | Some (result, recorder') \<Rightarrow>
          if \<not> usable_answer result then Some (None, the recorder')
          else (case node_hits tn (res_chains (the result)) proxy_name (res_hits (the result)) of
                  None \<Rightarrow> None
                | Some through \<Rightarrow>
                    Some (Some \<lparr>oi_url = url, oi_body = res_body (the result),
                       oi_delay = res_delay (the result), oi_chains = res_chains (the result),
                       oi_error = [], oi_epoch = res_epoch (the result),
                       oi_version = res_version (the result), oi_hits = res_hits (the result),
                       oi_node_hits = through\<rparr>, the recorder')))"

definition outbound_failure ::
  "u64 \<times> u64 \<Rightarrow> route_hit list \<Rightarrow> string \<Rightarrow> outbound_ip_result" where
  "outbound_failure stamp recorded kind =
     \<lparr>oi_url = [], oi_body = [], oi_delay = 0, oi_chains = [], oi_error = kind, oi_epoch = fst stamp,
      oi_version = snd stamp, oi_hits = recorded, oi_node_hits = []\<rparr>"

subsection \<open>The race\<close>

definition outbound_ip_concurrency :: nat where "outbound_ip_concurrency = 3"

text \<open>The flag of \<open>RaceStopped\<close>: the deadline passed, rather than a newer lookup cancelled this one.\<close>

datatype 'a race_end = Won nat 'a | RaceStopped bool | RaceLost

text \<open>
  The loop's \<open>next\<close> and \<open>inFlight\<close>, the goroutines that still probe, the buffered channel of answers,
  the sources whose nil answer was received, and how the call ended. \<open>'a\<close> are the usable answers.
\<close>

record 'a race =
  ra_next :: nat
  ra_in_flight :: nat
  ra_probing :: "nat set"
  ra_answers :: "(nat \<times> 'a option) list"
  ra_lost :: "nat set"
  ra_end :: "'a race_end option"

definition race_launch :: "nat \<Rightarrow> 'a race \<Rightarrow> 'a race" where
  "race_launch sources r =
     (if sources \<le> ra_next r \<or> outbound_ip_concurrency \<le> ra_in_flight r then r
      else r\<lparr>ra_next := Suc (ra_next r), ra_in_flight := Suc (ra_in_flight r),
             ra_probing := insert (ra_next r) (ra_probing r)\<rparr>)"

definition race_start :: "nat \<Rightarrow> 'a race" where
  "race_start sources =
     race_launch sources \<lparr>ra_next = 0, ra_in_flight = 0, ra_probing = {}, ra_answers = [], ra_lost = {},
                          ra_end = None\<rparr>"

definition race_receive :: "nat \<Rightarrow> nat \<times> 'a option \<Rightarrow> (nat \<times> 'a option) list \<Rightarrow> 'a race \<Rightarrow> 'a race" where
  "race_receive sources answer rest r =
     (let r1 = r\<lparr>ra_answers := rest, ra_in_flight := ra_in_flight r - 1\<rparr>
      in case snd answer of
           Some a \<Rightarrow> r1\<lparr>ra_end := Some (Won (fst answer) a)\<rparr>
         | None \<Rightarrow> race_launch sources (r1\<lparr>ra_lost := insert (fst answer) (ra_lost r1)\<rparr>))"

text \<open>\<open>answer i a\<close>: source \<open>i\<close> may answer \<open>a\<close>.\<close>

inductive race_step ::
  "nat \<Rightarrow> (nat \<Rightarrow> 'a option \<Rightarrow> bool) \<Rightarrow> 'a race \<Rightarrow> 'a race \<Rightarrow> bool" for sources answer where
  race_answer: "i \<in> ra_probing r \<Longrightarrow> answer i a \<Longrightarrow> length (ra_answers r) < sources \<Longrightarrow>
     race_step sources answer r
       (r\<lparr>ra_probing := ra_probing r - {i}, ra_answers := ra_answers r @ [(i, a)]\<rparr>)"
| race_got: "ra_end r = None \<Longrightarrow> 0 < ra_in_flight r \<Longrightarrow> ra_answers r = x # rest \<Longrightarrow>
     race_step sources answer r (race_receive sources x rest r)"
| race_tick: "ra_end r = None \<Longrightarrow> 0 < ra_in_flight r \<Longrightarrow>
     race_step sources answer r (race_launch sources r)"
| race_ctx_done: "ra_end r = None \<Longrightarrow> 0 < ra_in_flight r \<Longrightarrow>
     race_step sources answer r (r\<lparr>ra_end := Some (RaceStopped deadline)\<rparr>)"
| race_out: "ra_end r = None \<Longrightarrow> ra_in_flight r = 0 \<Longrightarrow>
     race_step sources answer r (r\<lparr>ra_end := Some RaceLost\<rparr>)"

inductive race_reachable ::
  "nat \<Rightarrow> (nat \<Rightarrow> 'a option \<Rightarrow> bool) \<Rightarrow> 'a race \<Rightarrow> bool" for sources answer where
  race_reach_start: "race_reachable sources answer (race_start sources)"
| race_reach_step: "race_reachable sources answer r \<Longrightarrow> race_step sources answer r r' \<Longrightarrow>
     race_reachable sources answer r'"

text \<open>What \<open>handleOutboundIp\<close> returns for each end; no urls at all is a failure too.\<close>

definition outbound_result ::
  "u64 \<times> u64 \<Rightarrow> route_hit list \<Rightarrow> outbound_ip_result race_end \<Rightarrow> outbound_ip_result" where
  "outbound_result stamp recorded e =
     (case e of
        Won i a \<Rightarrow> a
      | RaceStopped deadline \<Rightarrow>
          outbound_failure stamp recorded (if deadline then ''timeout'' else ''failed'')
      | RaceLost \<Rightarrow> outbound_failure stamp recorded ''failed'')"

subsection \<open>Claims\<close>

text \<open>
  \<open>outboundIpClaims\<close>: the running lookups by number, with the epoch they were asked in. The result of a
  claim is the lookups it cancels and the new table.
\<close>

definition claim_outbound_ip ::
  "nat \<Rightarrow> u64 \<Rightarrow> (nat \<times> u64) list \<Rightarrow> nat list \<times> (nat \<times> u64) list" where
  "claim_outbound_ip c epoch claims =
     (map fst (filter (\<lambda>(c', e). e < epoch) claims),
      (c, epoch) # filter (\<lambda>(c', e). \<not> e < epoch) claims)"

definition release_outbound_ip :: "nat \<Rightarrow> (nat \<times> u64) list \<Rightarrow> (nat \<times> u64) list" where
  "release_outbound_ip c claims = filter (\<lambda>(c', e). c' \<noteq> c) claims"

subsection \<open>Every interleaving of the race\<close>

definition answered_sources :: "'a race \<Rightarrow> nat set" where
  "answered_sources r = fst ` set (ra_answers r)"

definition winner :: "'a race \<Rightarrow> nat set" where
  "winner r = (case ra_end r of Some (Won i a) \<Rightarrow> {i} | _ \<Rightarrow> {})"

definition race_base :: "nat \<Rightarrow> (nat \<Rightarrow> 'a option \<Rightarrow> bool) \<Rightarrow> 'a race \<Rightarrow> bool" where
  "race_base sources answer r \<longleftrightarrow>
     ra_next r \<le> sources \<and> finite (ra_probing r) \<and>
     ra_in_flight r = card (ra_probing r) + length (ra_answers r) \<and>
     ra_in_flight r \<le> outbound_ip_concurrency \<and>
     distinct (map fst (ra_answers r)) \<and>
     ra_probing r \<inter> answered_sources r = {} \<and>
     (ra_probing r \<union> answered_sources r) \<inter> (ra_lost r \<union> winner r) = {} \<and>
     ra_probing r \<union> answered_sources r \<union> ra_lost r \<union> winner r = {..<ra_next r} \<and>
     (\<forall>x \<in> set (ra_answers r). answer (fst x) (snd x)) \<and> (\<forall>i \<in> ra_lost r. answer i None) \<and>
     (\<forall>i a. ra_end r = Some (Won i a) \<longrightarrow> answer i (Some a))"

definition race_inv :: "nat \<Rightarrow> (nat \<Rightarrow> 'a option \<Rightarrow> bool) \<Rightarrow> 'a race \<Rightarrow> bool" where
  "race_inv sources answer r \<longleftrightarrow> race_base sources answer r \<and>
     (ra_end r = None \<and> ra_next r < sources \<longrightarrow> 0 < ra_in_flight r) \<and>
     (ra_end r = Some RaceLost \<longrightarrow> ra_lost r = {..<sources})"

lemma race_base_fresh: "race_base sources answer r \<Longrightarrow> ra_next r \<notin> ra_probing r"
  by (auto simp: race_base_def)

lemma race_launch_inv:
  assumes "race_base sources answer r" "ra_end r = None"
  shows "race_inv sources answer (race_launch sources r)"
proof -
  have "card (insert (ra_next r) (ra_probing r)) = Suc (card (ra_probing r))"
    using race_base_fresh[OF assms(1)] assms(1) by (simp add: race_base_def)
  then show ?thesis using assms
    by (auto simp: race_inv_def race_base_def race_launch_def answered_sources_def winner_def less_Suc_eq
        outbound_ip_concurrency_def)
qed

lemma race_receive_inv:
  assumes inv: "race_inv sources answer r" and r: "ra_end r = None" "ra_answers r = x # rest"
  shows "race_inv sources answer (race_receive sources x rest r)"
proof -
  have base: "race_base sources answer r" using inv by (simp add: race_inv_def)
  obtain i a where x: "x = (i, a)" by fastforce
  have i: "answer i a" "i \<notin> fst ` set rest" "i \<notin> ra_lost r" "i \<notin> ra_probing r"
    using base r x by (auto simp: race_base_def answered_sources_def)
  have all: "ra_probing r \<union> fst ` set rest \<union> insert i (ra_lost r) = {..<ra_next r}"
    using base r x by (auto simp: race_base_def answered_sources_def winner_def)
  show ?thesis
  proof (cases a)
    case None
    have "race_base sources answer (r\<lparr>ra_answers := rest, ra_in_flight := ra_in_flight r - 1,
        ra_lost := insert i (ra_lost r)\<rparr>)"
      using base r x i all None
      by (auto simp: race_base_def answered_sources_def winner_def)
    from race_launch_inv[OF this] show ?thesis
      using None x r by (simp add: race_receive_def Let_def)
  next
    case (Some y)
    have "race_base sources answer (r\<lparr>ra_answers := rest, ra_in_flight := ra_in_flight r - 1,
        ra_end := Some (Won i y)\<rparr>)"
      using base r x i all Some
      by (auto simp: race_base_def answered_sources_def winner_def)
    then show ?thesis using Some x by (simp add: race_receive_def Let_def race_inv_def)
  qed
qed

lemma race_inv_step:
  assumes "race_step sources answer r r'" "race_inv sources answer r"
  shows "race_inv sources answer r'"
  using assms(1)
proof (cases rule: race_step.cases)
  case (race_answer i a)
  have c: "card (ra_probing r) = Suc (card (ra_probing r - {i}))"
    using assms(2) by (intro card.remove race_answer(2)) (simp add: race_inv_def race_base_def)
  have base: "race_base sources answer r" using assms(2) by (simp add: race_inv_def)
  then have i: "i \<notin> fst ` set (ra_answers r)"
    using race_answer(2) by (auto simp: race_base_def answered_sources_def)
  then have disj: "(ra_probing r - {i}) \<inter> insert i (fst ` set (ra_answers r)) = {}"
    using base by (auto simp: race_base_def answered_sources_def)
  have same: "(ra_probing r - {i}) \<union> insert i (fst ` set (ra_answers r)) =
      ra_probing r \<union> fst ` set (ra_answers r)"
    using race_answer(2) by auto
  have "race_base sources answer r'"
    using base c i disj race_answer(3)
    unfolding race_answer(1) race_base_def answered_sources_def winner_def
    by (simp, use race_answer(2) in blast)
  then show ?thesis using assms(2) race_answer(1) c by (auto simp: race_inv_def race_base_def)
next
  case (race_got x rest)
  then show ?thesis using race_receive_inv assms(2) by blast
next
  case race_tick
  then show ?thesis using race_launch_inv assms(2) by (auto simp: race_inv_def)
next
  case (race_ctx_done deadline)
  then show ?thesis using assms(2) by (auto simp: race_inv_def race_base_def answered_sources_def winner_def)
next
  case race_out
  then have "ra_probing r = {}" "ra_answers r = []" "ra_next r = sources"
    using assms(2) by (auto simp: race_inv_def race_base_def)
  then show ?thesis using race_out assms(2)
    by (auto simp: race_inv_def race_base_def answered_sources_def winner_def)
qed

lemma race_inv_reachable: "race_reachable sources answer r \<Longrightarrow> race_inv sources answer r"
proof (induction rule: race_reachable.induct)
  case race_reach_start
  show ?case unfolding race_start_def
    by (rule race_launch_inv)
       (auto simp: race_base_def answered_sources_def winner_def outbound_ip_concurrency_def)
next
  case (race_reach_step r r')
  then show ?case by (blast intro: race_inv_step)
qed

text \<open>C16. In every interleaving of the race at most three sources are probed at a time, and a source
  that answers always finds room in the channel. A won race returns a usable answer that its source
  gave; a lost one has heard from every source that it has none; and before its end the race is
  never stuck with sources it has not asked.\<close>

theorem outbound_race:
  assumes "race_reachable sources answer r"
  shows "card (ra_probing r) \<le> 3 \<and> (\<forall>i \<in> ra_probing r. length (ra_answers r) < sources) \<and>
    (\<forall>i a. ra_end r = Some (Won i a) \<longrightarrow> i < sources \<and> answer i (Some a)) \<and>
    (ra_end r = Some RaceLost \<longrightarrow> (\<forall>i < sources. answer i None)) \<and>
    (ra_end r = None \<and> ra_next r < sources \<longrightarrow> ra_probing r \<noteq> {} \<or> ra_answers r \<noteq> [])"
proof -
  have inv: "race_base sources answer r" "race_inv sources answer r"
    using race_inv_reachable[OF assms] by (auto simp: race_inv_def)
  have room: "length (ra_answers r) < sources" if "i \<in> ra_probing r" for i
  proof -
    have "length (ra_answers r) = card (fst ` set (ra_answers r))"
      using inv(1) by (simp add: race_base_def) (metis distinct_card length_map list.set_map)
    also have "\<dots> < card {..<ra_next r}"
    proof (rule psubset_card_mono)
      have "fst ` set (ra_answers r) \<subseteq> {..<ra_next r}" "i \<in> {..<ra_next r}"
        "i \<notin> fst ` set (ra_answers r)"
        using inv(1) that by (auto simp: race_base_def answered_sources_def)
      then show "fst ` set (ra_answers r) \<subset> {..<ra_next r}" by blast
    qed simp
    also have "\<dots> \<le> sources" using inv(1) by (simp add: race_base_def)
    finally show ?thesis .
  qed
  have won: "i < sources" if "ra_end r = Some (Won i a)" for i a
  proof -
    have "i \<in> {..<ra_next r}" using inv(1) that by (auto simp: race_base_def winner_def)
    then show ?thesis using inv(1) by (simp add: race_base_def)
  qed
  show ?thesis
    using inv room won
    by (auto simp: race_inv_def race_base_def outbound_ip_concurrency_def)
qed


theorem outbound_race_witness:
  "card (ra_probing (race_start 5 :: unit race)) \<le> 3 \<and> ra_probing (race_start 5 :: unit race) = {0}"
  using outbound_race[OF race_reach_start, of 5 "\<lambda>_ _. True"]
  by (simp add: race_start_def race_launch_def outbound_ip_concurrency_def)

subsection \<open>What is an address\<close>

definition public_v4 :: "nat list \<Rightarrow> bool" where
  "public_v4 bs \<longleftrightarrow> bs \<noteq> [0, 0, 0, 0] \<and> bs \<noteq> [255, 255, 255, 255] \<and> hd bs \<noteq> 127 \<and>
     \<not> (224 \<le> hd bs \<and> hd bs \<le> 239) \<and> \<not> (hd bs = 169 \<and> bs ! 1 = 254) \<and> hd bs \<noteq> 10 \<and>
     \<not> (hd bs = 172 \<and> 16 \<le> bs ! 1 \<and> bs ! 1 \<le> 31) \<and> \<not> (hd bs = 192 \<and> bs ! 1 = 168) \<and>
     \<not> (hd bs = 100 \<and> 64 \<le> bs ! 1 \<and> bs ! 1 \<le> 127)"

lemma is_public_v4: "is_public (V4 bs) = public_v4 bs"
proof -
  have "hd bs div 16 = 14 \<longleftrightarrow> 224 \<le> hd bs \<and> hd bs \<le> 239" by auto
  moreover have "bs ! 1 div 16 = 1 \<longleftrightarrow> 16 \<le> bs ! 1 \<and> bs ! 1 \<le> 31" by auto
  moreover have "bs ! 1 div 64 = 1 \<longleftrightarrow> 64 \<le> bs ! 1 \<and> bs ! 1 \<le> 127" by auto
  ultimately show ?thesis
    by (simp add: is_public_def is_global_unicast_def public_v4_def) blast
qed

lemma show_v4_tokens: "c \<in> set (show_v4 bs) \<Longrightarrow> is_token_char c"
proof -
  have "set (join ''.'' ps) \<subseteq> insert CHR ''.'' (\<Union>(set ` set ps))" for ps
    by (induction "''.''" ps rule: join.induct) auto
  moreover assume "c \<in> set (show_v4 bs)"
  ultimately have "c = CHR ''.'' \<or> (\<exists>n. c \<in> set (show_nat n))"
    unfolding show_v4_def by fastforce
  then show ?thesis
    using show_nat_digits by (auto simp: is_token_char_def list_all_iff)
qed

text \<open>A body that names an IPv4 address in dotted form, as a word of its own, mentions a public
  address when that address is none of the unspecified, broadcast, loopback, multicast, link-local,
  private or carrier-grade ranges; and a body that is only that address does so exactly then.\<close>

theorem mentions_dotted_quad:
  assumes "length bs = 4" "\<forall>b \<in> set bs. b < 256"
    "pre = [] \<or> \<not> is_token_char (last pre)" "post = [] \<or> \<not> is_token_char (hd post)"
  shows "(public_v4 bs \<longrightarrow> mentions_ip (pre @ show_v4 bs @ post)) \<and>
    (mentions_ip (show_v4 bs) \<longleftrightarrow> public_v4 bs)"
proof -
  obtain d s where ds: "show_v4 bs = d @ CHR ''.'' # s" using show_v4_dot[OF assms(1)] .
  then have ne: "show_v4 bs \<noteq> []" by simp
  have f: "fields_of is_token_char (show_v4 bs @ p) = show_v4 bs # fields_of is_token_char p"
    if "p = [] \<or> \<not> is_token_char (hd p)" for p
    using fields_of_token[of "show_v4 bs" is_token_char p] ne show_v4_tokens that by blast
  have a: "(case parse_addr (show_v4 bs) of None \<Rightarrow> False | Some a \<Rightarrow> is_public (unmap a)) = public_v4 bs"
    using parse_addr_v4[OF assms(1,2)] is_public_v4 by simp
  have "show_v4 bs \<in> set (fields_of is_token_char (pre @ show_v4 bs @ post))"
    using fields_of_after[of pre is_token_char "show_v4 bs @ post", OF assms(3)] f[OF assms(4)] by auto
  moreover have "fields_of is_token_char (show_v4 bs) = [show_v4 bs]"
    using f[of "[]"] fields_of_empty[of "[]"] by simp
  ultimately show ?thesis
    using a by (auto simp: mentions_ip_def list_ex_iff intro!: bexI[of _ "show_v4 bs"])
qed

theorem mentions_dotted_quad_witness:
  "mentions_ip ''ip=1.2.3.4,'' \<and> \<not> mentions_ip ''10.0.0.1''"
proof -
  have s: "show_v4 [1, 2, 3, 4] = ''1.2.3.4''" "show_v4 [10, 0, 0, 1] = ''10.0.0.1''"
    by (simp_all add: show_v4_def show_nat.simps digit_char_def char_of_eq_iff)
  have "mentions_ip (''ip='' @ ''1.2.3.4'' @ '','')"
    using mentions_dotted_quad[of "[1, 2, 3, 4]" "''ip=''" "'',''"] unfolding s
    by (simp add: public_v4_def is_token_char_def is_digit_def is_letter_def is_upper_def is_lower_def)
  moreover have "\<not> mentions_ip ''10.0.0.1''"
    using mentions_dotted_quad[of "[10, 0, 0, 1]" "[]" "[]"] unfolding s by (simp add: public_v4_def)
  ultimately show ?thesis by simp
qed

end
