(* ===== verification/Service_Check.thy ===== *)
theory Service_Check
  imports Probes Regions "HOL-Library.State_Monad"
begin

text \<open>
  \<open>core/service_check.go\<close>: the service checks: what a check reports, the environment its rule sends
  requests through, one run with its retry, and the claims by which a newer check of a service
  cancels an older one.

  A rule is a computation over the requests sent so far and the recorded hits. What a request gets is
  an argument (\<open>runProbe\<close> of the probes, with the hits it records); so are the standard library's JSON
  and URL parsers and the clock's verdict whether the budget allows a retry.
\<close>

subsection \<open>Items\<close>

abbreviation service_available :: string where "service_available \<equiv> ''available''"
abbreviation service_unavailable :: string where "service_unavailable \<equiv> ''unavailable''"
abbreviation service_restricted :: string where "service_restricted \<equiv> ''restricted''"
abbreviation service_disallowed_isp :: string where "service_disallowed_isp \<equiv> ''disallowed-isp''"
abbreviation service_blocked :: string where "service_blocked \<equiv> ''blocked''"
abbreviation service_unsupported_region :: string where "service_unsupported_region \<equiv> ''unsupported-region''"
abbreviation service_originals_only :: string where "service_originals_only \<equiv> ''originals-only''"
abbreviation service_coming_soon :: string where "service_coming_soon \<equiv> ''coming-soon''"
abbreviation service_timeout :: string where "service_timeout \<equiv> ''timeout''"
abbreviation service_failed :: string where "service_failed \<equiv> ''failed''"

definition service_statuses :: "string list" where
  "service_statuses = [service_available, service_unavailable, service_restricted,
     service_disallowed_isp, service_blocked, service_unsupported_region, service_originals_only,
     service_coming_soon, service_timeout, service_failed]"

record service_item =
  it_name :: string
  it_status :: string
  it_region :: string
  it_delay :: int
  it_chains :: "string list"
  it_checked_at :: int
  it_epoch :: u64
  it_version :: u64
  it_hits :: "route_hit list"

definition blank_item :: service_item where
  "blank_item = \<lparr>it_name = [], it_status = [], it_region = [], it_delay = 0, it_chains = [],
     it_checked_at = 0, it_epoch = 0, it_version = 0, it_hits = []\<rparr>"

definition item_from :: "probe_result option \<Rightarrow> service_item" where
  "item_from result =
     (case result of
        None \<Rightarrow> blank_item\<lparr>it_status := service_failed\<rparr>
      | Some r \<Rightarrow>
          (let item = blank_item\<lparr>it_delay := res_delay r, it_chains := res_chains r\<rparr>
           in if res_error r = [] then item
              else if res_error r = ''timeout''
              then item\<lparr>it_status := service_timeout, it_delay := 0\<rparr>
              else item\<lparr>it_status := service_failed, it_delay := 0\<rparr>))"

definition status_from_code :: "int \<Rightarrow> string" where
  "status_from_code code =
     (if 200 \<le> code \<and> code < 300 then service_available
      else if code = 401 \<or> code = 403 \<or> code = 429 \<or> code = 451 then service_restricted
      else service_unavailable)"

definition answered :: "service_item \<Rightarrow> probe_result option \<Rightarrow> bool" where
  "answered item result \<longleftrightarrow> it_status item = [] \<and> result \<noteq> None"

text \<open>The lower-cased body, which the code keeps with the result.\<close>

definition body_contains :: "probe_result \<Rightarrow> string list \<Rightarrow> bool" where
  "body_contains r needles \<longleftrightarrow> list_ex (\<lambda>needle. contains (to_lower (res_body r)) needle) needles"

definition trace_value :: "string \<Rightarrow> string \<Rightarrow> string" where
  "trace_value body key =
     (case find (\<lambda>line. prefix (key @ ''='') line) (split_on (CHR 0x0A) body) of
        None \<Rightarrow> []
      | Some line \<Rightarrow> trim_space (drop (length (key @ ''='')) line))"

subsection \<open>The environment of a rule\<close>

text \<open>
  Request number \<open>k\<close> of a check gets \<open>sv_probe k\<close>. \<open>sv_countries\<close> is \<open>json.Unmarshal\<close> into the
  payload of \<open>netflixFromCdn\<close> (the countries of its targets), \<open>sv_url_path\<close> the path of \<open>url.Parse\<close>;
  None is their error. The budget for a retry may differ from run to run.
\<close>

record service_world =
  sv_probe :: "nat \<Rightarrow> probe_request \<Rightarrow> probe_result option"
  sv_countries :: "string \<Rightarrow> string list option"
  sv_url_path :: "string \<Rightarrow> string option"
  sv_ctx_err :: bool
  sv_has_budget :: bool
  sv_now :: int

record service_env =
  se_world :: service_world
  se_proxy :: string
  se_timeout :: int

record service_state =
  ss_requests :: nat
  ss_hits :: "route_hit list"

text \<open>\<open>serviceEnv.send\<close>: every request carries the proxy, the timeout, the user agent and the recorder.\<close>

definition browser_agent :: string where
  "browser_agent = ''Mozilla/5.0 (Windows NT 10.0; Win64; x64) AppleWebKit/537.36 (KHTML, like Gecko) Chrome/120.0.0.0 Safari/537.36''"

definition plain_request :: "string \<Rightarrow> string \<Rightarrow> int \<Rightarrow> probe_request" where
  "plain_request method url max_body =
     \<lparr>pq_method = method, pq_url = url, pq_proxy = [], pq_headers = Map.empty, pq_body = [],
      pq_timeout = 0, pq_max_body = max_body, pq_no_redirect = False, pq_until = None\<rparr>"

definition service_send ::
  "service_env \<Rightarrow> probe_request \<Rightarrow> (service_state, probe_result option) state" where
  "service_send env req =
     State (\<lambda>s.
       let req1 = req\<lparr>pq_proxy := se_proxy env, pq_timeout := se_timeout env,
                      pq_headers := [''User-Agent'' \<mapsto> browser_agent] ++ pq_headers req\<rparr>;
           result = sv_probe (se_world env) (ss_requests s) req1
       in (result, s\<lparr>ss_requests := Suc (ss_requests s),
                     ss_hits := foldl with_hit (ss_hits s)
                                  (case result of None \<Rightarrow> [] | Some r \<Rightarrow> res_hits r)\<rparr>))"

definition service_get ::
  "service_env \<Rightarrow> string \<Rightarrow> int \<Rightarrow> (service_state, probe_result option) state" where
  "service_get env url max_body = service_send env (plain_request ''GET'' url max_body)"

definition service_html_max_body :: int where "service_html_max_body = 512 * 1024"
definition service_small_max_body :: int where "service_small_max_body = 16 * 1024"
definition service_scan_max_body :: int where "service_scan_max_body = 8 * 1024 * 1024"

definition service_scan ::
  "service_env \<Rightarrow> string \<Rightarrow> (string \<Rightarrow> bool) \<Rightarrow> (service_state, probe_result option) state" where
  "service_scan env url until =
     service_send env ((plain_request ''GET'' url service_scan_max_body)\<lparr>pq_until := Some until\<rparr>)"

text \<open>A rule's run; None is a panic of the rule.\<close>

type_synonym service_rule = "service_env \<Rightarrow> (service_state, service_item option) state"

record service_checker =
  ck_name :: string
  ck_check :: service_rule

text \<open>A rule that does not panic.\<close>

definition rule :: "(service_env \<Rightarrow> (service_state, service_item) state) \<Rightarrow> service_rule" where
  "rule f env = State_Monad.bind (f env) (\<lambda>item. State_Monad.return (Some item))"

definition check_reachable :: "string \<Rightarrow> service_env \<Rightarrow> (service_state, service_item) state" where
  "check_reachable url env =
     do {
       result \<leftarrow> service_get env url 0;
       State_Monad.return
         (let item = item_from result
          in if it_status item \<noteq> [] then item
             else (case result of
                     None \<Rightarrow> item
                   | Some r \<Rightarrow> item\<lparr>it_status := status_from_code (res_status r)\<rparr>))
     }"

subsection \<open>One run\<close>

definition stamp_item ::
  "service_checker \<Rightarrow> service_world \<Rightarrow> u64 \<times> u64 \<Rightarrow> route_hit list \<Rightarrow> service_item \<Rightarrow> service_item" where
  "stamp_item checker world stamp hs item =
     item\<lparr>it_name := ck_name checker, it_checked_at := sv_now world, it_epoch := fst stamp,
          it_version := snd stamp, it_hits := hs\<rparr>"

definition run_service_check ::
  "service_world \<Rightarrow> u64 \<times> u64 \<Rightarrow> service_checker \<Rightarrow> string \<Rightarrow> int \<Rightarrow> service_item \<times> nat" where
  "run_service_check world stamp checker proxy_name timeout =
     (let env = \<lparr>se_world = world, se_proxy = proxy_name, se_timeout = timeout\<rparr>;
          s0 = \<lparr>ss_requests = 0, ss_hits = []\<rparr>;
          failed = blank_item\<lparr>it_status := service_failed\<rparr>;
          finish = (\<lambda>outcome s. (stamp_item checker world stamp (ss_hits s)
                      (case outcome of None \<Rightarrow> failed | Some item \<Rightarrow> item), ss_requests s))
      in if sv_ctx_err world then finish (Some failed) s0
         else (case run_state (ck_check checker env) s0 of
             (None, s1) \<Rightarrow> finish None s1
           | (Some item, s1) \<Rightarrow>
               if it_status item = service_timeout \<and> sv_has_budget world
               then (case run_state (ck_check checker env) s1 of (outcome, s2) \<Rightarrow> finish outcome s2)
               else finish (Some item) s1))"

subsection \<open>Claims\<close>

text \<open>
  \<open>serviceClaims\<close> by service, the number of the next claim, and which claims' contexts were cancelled.
\<close>

record service_claims =
  cl_table :: "string \<rightharpoonup> nat"
  cl_next :: nat
  cl_cancelled :: "nat set"

definition claim_service :: "string \<Rightarrow> service_claims \<Rightarrow> nat \<times> service_claims" where
  "claim_service name c =
     (cl_next c,
      c\<lparr>cl_cancelled := (case cl_table c name of None \<Rightarrow> cl_cancelled c
                                            | Some previous \<Rightarrow> insert previous (cl_cancelled c)),
        cl_table := (cl_table c)(name \<mapsto> cl_next c), cl_next := Suc (cl_next c)\<rparr>)"

definition release_service :: "string \<Rightarrow> nat \<Rightarrow> service_claims \<Rightarrow> service_claims" where
  "release_service name claim c =
     c\<lparr>cl_cancelled := insert claim (cl_cancelled c),
       cl_table := (if cl_table c name = Some claim then (cl_table c)(name := None) else cl_table c)\<rparr>"

text \<open>\<open>claimServices\<close> claims each distinct name once: the claim of each checker, and what to release.\<close>

fun claim_services ::
  "string list \<Rightarrow> (string \<rightharpoonup> nat) \<Rightarrow> service_claims \<Rightarrow> nat list \<times> (string \<times> nat) list \<times> service_claims" where
  "claim_services [] claimed c = ([], [], c)"
| "claim_services (name # names) claimed c =
     (case claimed name of
        Some claim \<Rightarrow>
          (case claim_services names claimed c of (ids, releases, c1) \<Rightarrow> (claim # ids, releases, c1))
      | None \<Rightarrow>
          (case claim_service name c of (claim, c1) \<Rightarrow>
             (case claim_services names (claimed(name \<mapsto> claim)) c1 of
                (ids, releases, c2) \<Rightarrow> (claim # ids, (name, claim) # releases, c2))))"

definition release_services :: "(string \<times> nat) list \<Rightarrow> service_claims \<Rightarrow> service_claims" where
  "release_services releases c = fold (\<lambda>(name, claim). release_service name claim) releases c"

fun selected_checkers :: "service_checker list \<Rightarrow> string list \<Rightarrow> service_checker list" where
  "selected_checkers all [] = all"
| "selected_checkers all names =
     concat (map (\<lambda>name. case find (\<lambda>ck. ck_name ck = name) all of None \<Rightarrow> [] | Some ck \<Rightarrow> [ck]) names)"

end
