(* ===== verification/Go_Regexp.thy ===== *)
theory Go_Regexp
  imports Go_Prelude
begin

text \<open>
  The fragment of Go's \<open>regexp\<close> the core uses: \<open>FindStringSubmatch\<close> with one group, leftmost-first
  as in Perl. A pattern's matches at a position are listed in order of preference, each as the rest
  of the text and what the group holds. The lemmas characterise the patterns that read a string
  member out of JSON, which is most of what the core asks of them.
\<close>

datatype regex =
  Empty_Match
| Char_In "char \<Rightarrow> bool"
| Then regex regex
| Either regex regex
| Many regex
| Many_Lazy regex
| Group regex

fun repeat_match ::
  "(string \<times> string option \<Rightarrow> (string \<times> string option) list) \<Rightarrow> bool \<Rightarrow> nat
   \<Rightarrow> string \<times> string option \<Rightarrow> (string \<times> string option) list" where
  "repeat_match f lazy 0 x = [x]"
| "repeat_match f lazy (Suc n) x =
     (let more = concat (map (\<lambda>y. if length (fst y) < length (fst x) then repeat_match f lazy n y else [])
                           (f x))
      in if lazy then x # more else more @ [x])"

primrec matches_at ::
  "regex \<Rightarrow> string \<times> string option \<Rightarrow> (string \<times> string option) list" where
  "matches_at Empty_Match x = [x]"
| "matches_at (Char_In p) x =
     (case fst x of [] \<Rightarrow> [] | c # s \<Rightarrow> if p c then [(s, snd x)] else [])"
| "matches_at (Then r q) x = concat (map (matches_at q) (matches_at r x))"
| "matches_at (Either r q) x = matches_at r x @ matches_at q x"
| "matches_at (Many r) x = repeat_match (matches_at r) False (length (fst x)) x"
| "matches_at (Many_Lazy r) x = repeat_match (matches_at r) True (length (fst x)) x"
| "matches_at (Group r) x =
     map (\<lambda>y. (fst y, Some (take (length (fst x) - length (fst y)) (fst x)))) (matches_at r x)"

fun find_match :: "regex \<Rightarrow> string \<Rightarrow> (string \<times> string option) option" where
  "find_match r s =
     (case matches_at r (s, None) of
        y # _ \<Rightarrow> Some y
      | [] \<Rightarrow> (case s of [] \<Rightarrow> None | _ # t \<Rightarrow> find_match r t))"

declare find_match.simps [simp del]

definition match_string :: "regex \<Rightarrow> string \<Rightarrow> bool" where
  "match_string r s \<longleftrightarrow> find_match r s \<noteq> None"

text \<open>The group of a match, empty without one; \<open>anchored\<close> is a leading \<open>^\<close>.\<close>

definition submatch :: "(string \<times> string option) option \<Rightarrow> string" where
  "submatch m = (case m of Some (rest, Some g) \<Rightarrow> g | _ \<Rightarrow> [])"

definition first_submatch :: "regex \<Rightarrow> string \<Rightarrow> string" where
  "first_submatch r s = submatch (find_match r s)"

definition first_submatch_anchored :: "regex \<Rightarrow> string \<Rightarrow> string" where
  "first_submatch_anchored r s =
     submatch (case matches_at r (s, None) of [] \<Rightarrow> None | y # _ \<Rightarrow> Some y)"

subsection \<open>Building patterns\<close>

fun literal :: "string \<Rightarrow> regex" where
  "literal [] = Empty_Match"
| "literal (c # s) = Then (Char_In (\<lambda>d. d = c)) (literal s)"

text \<open>\<open>\s\<close>\<close>

definition is_re_space :: "char \<Rightarrow> bool" where
  "is_re_space c \<longleftrightarrow> c \<in> {CHR 0x09, CHR 0x0A, CHR 0x0C, CHR 0x0D, CHR '' ''}"

definition spaces :: regex where "spaces = Many (Char_In is_re_space)"

definition some_not :: "char \<Rightarrow> regex" where
  "some_not q = Then (Char_In (\<lambda>c. c \<noteq> q)) (Many (Char_In (\<lambda>c. c \<noteq> q)))"

definition optional :: "regex \<Rightarrow> regex" where
  "optional r = Either r Empty_Match"

fun alternatives :: "regex list \<Rightarrow> regex" where
  "alternatives [] = Char_In (\<lambda>_. False)"
| "alternatives [r] = r"
| "alternatives (r # rs) = Either r (alternatives rs)"

text \<open>\<open>"name"\s*:\s*\<close> followed by a value.\<close>

definition member :: "string \<Rightarrow> regex \<Rightarrow> regex" where
  "member name value =
     Then (literal (CHR 0x22 # name @ [CHR 0x22])) (Then spaces (Then (literal '':'') (Then spaces value)))"

text \<open>\<open>"([^"]+)"\<close>\<close>

definition quoted_group :: regex where
  "quoted_group = Then (literal [CHR 0x22]) (Then (Group (some_not CHR 0x22)) (literal [CHR 0x22]))"

subsection \<open>Deterministic repetitions\<close>

lemma matches_at_literal:
  "matches_at (literal w) x =
     (if prefix w (fst x) then [(drop (length w) (fst x), snd x)] else [])"
proof (induction w arbitrary: x)
  case (Cons c w)
  then show ?case by (cases "fst x") auto
qed simp

text \<open>A greedy run of one class of characters, longest first.\<close>

fun runs :: "(char \<Rightarrow> bool) \<Rightarrow> string \<Rightarrow> string list" where
  "runs p [] = [[]]"
| "runs p (c # s) = (if p c then runs p s @ [c # s] else [c # s])"

lemma repeat_char:
  "length s \<le> n \<Longrightarrow> repeat_match (matches_at (Char_In p)) False n (s, g) = map (\<lambda>t. (t, g)) (runs p s)"
proof (induction n arbitrary: s)
  case (Suc n)
  then show ?case by (cases s) (auto simp: Let_def)
qed simp

lemma matches_at_many_char:
  "matches_at (Many (Char_In p)) (s, g) = map (\<lambda>t. (t, g)) (runs p s)"
  by (simp only: matches_at.simps fst_conv repeat_char[OF order_refl])

lemma runs_first: "runs p s \<noteq> [] \<and> hd (runs p s) = dropWhile p s"
  by (induction s) auto

lemma runs_suffix: "t \<in> set (runs p s) \<longleftrightarrow> (\<exists>u. s = u @ t \<and> (\<forall>c \<in> set u. p c))"
proof (induction s)
  case (Cons c s)
  show ?case
  proof
    assume "t \<in> set (runs p (c # s))"
    then consider "p c" "t \<in> set (runs p s)" | "t = c # s" by (auto split: if_splits)
    then show "\<exists>u. c # s = u @ t \<and> (\<forall>c \<in> set u. p c)"
    proof cases
      case 1
      then obtain u where "s = u @ t" "\<forall>c \<in> set u. p c" using Cons.IH by blast
      with 1(1) show ?thesis by (intro exI[of _ "c # u"]) simp
    qed simp
  next
    assume "\<exists>u. c # s = u @ t \<and> (\<forall>c \<in> set u. p c)"
    then obtain u where u: "c # s = u @ t" "\<forall>c \<in> set u. p c" by blast
    then show "t \<in> set (runs p (c # s))"
      using Cons.IH by (cases u) auto
  qed
qed auto

lemma first_of_concat:
  "concat (map f xs) \<noteq> [] \<Longrightarrow> f (hd xs) \<noteq> [] \<Longrightarrow> xs \<noteq> [] \<Longrightarrow> hd (concat (map f xs)) = hd (f (hd xs))"
  by (cases xs) auto


lemma runs_cons: "runs p s \<noteq> []" "tl (runs p s) = tl (runs p s)"
  using runs_first by auto

lemma runs_skip:
  "(\<forall>c t. p c \<longrightarrow> f (c # t) = []) \<Longrightarrow> concat (map f (runs p s)) = f (dropWhile p s)"
  by (induction s) auto

lemma many_then:
  assumes "\<And>c t. p c \<Longrightarrow> matches_at r (c # t, g) = []"
  shows "matches_at (Then (Many (Char_In p)) r) (s, g) = matches_at r (dropWhile p s, g)"
proof -
  have "matches_at (Then (Many (Char_In p)) r) (s, g) =
      concat (map (\<lambda>t. matches_at r (t, g)) (runs p s))"
    by (simp only: matches_at.simps(3) matches_at_many_char map_map comp_def)
  also have "\<dots> = matches_at r (dropWhile p s, g)"
    using assms by (intro runs_skip) simp
  finally show ?thesis .
qed

lemma literal_then:
  "matches_at (Then (literal w) r) (s, g) = (if prefix w s then matches_at r (drop (length w) s, g) else [])"
  by (simp add: matches_at_literal)

lemma literal_rejects_space:
  "w \<noteq> [] \<Longrightarrow> \<not> is_re_space (hd w) \<Longrightarrow> is_re_space c \<Longrightarrow>
   matches_at (Then (literal w) r) (c # t, g) = []"
  by (cases w) (auto simp: literal_then)

definition after_spaces :: "string \<Rightarrow> string" where
  "after_spaces s = dropWhile is_re_space s"

lemma spaces_then_literal:
  assumes "w \<noteq> []" "\<not> is_re_space (hd w)"
  shows "matches_at (Then spaces (Then (literal w) r)) (s, g) =
    (if prefix w (after_spaces s) then matches_at r (drop (length w) (after_spaces s), g) else [])"
proof -
  have "matches_at (Then spaces (Then (literal w) r)) (s, g) =
      matches_at (Then (literal w) r) (after_spaces s, g)"
    unfolding spaces_def after_spaces_def
    by (rule many_then) (rule literal_rejects_space[OF assms])
  then show ?thesis by (simp only: literal_then)
qed

lemma group_some_not:
  "matches_at (Then (Group (some_not q)) (literal [q])) (s, g) =
     (let v = takeWhile (\<lambda>c. c \<noteq> q) s; t = dropWhile (\<lambda>c. c \<noteq> q) s
      in if v \<noteq> [] \<and> t \<noteq> [] then [(tl t, Some v)] else [])"
proof (cases s)
  case (Cons c u)
  show ?thesis
  proof (cases "c = q")
    case False
    let ?p = "\<lambda>c. c \<noteq> q"
    let ?f = "\<lambda>t. matches_at (literal [q]) (t, Some (take (length s - length t) s))"
    have "matches_at (some_not q) (s, g) = map (\<lambda>t. (t, g)) (runs ?p u)"
      unfolding some_not_def using False Cons by (simp add: matches_at_many_char del: matches_at.simps(5))
    then have "matches_at (Then (Group (some_not q)) (literal [q])) (s, g) = concat (map ?f (runs ?p u))"
      by (simp only: matches_at.simps(3,7) fst_conv map_map comp_def)
    also have "\<dots> = ?f (dropWhile ?p u)"
      by (rule runs_skip) (simp add: matches_at_literal del: literal.simps)
    also have "take (length s - length (dropWhile ?p u)) s = takeWhile ?p s"
    proof -
      have "s = takeWhile ?p s @ dropWhile ?p u" using False Cons by simp
      then have "length s - length (dropWhile ?p u) = length (takeWhile ?p s)"
        by (metis add_diff_cancel_right' length_append)
      then show ?thesis by (simp add: takeWhile_eq_take[symmetric])
    qed
    finally show ?thesis
      using False Cons hd_dropWhile[of ?p u]
      by (cases "dropWhile ?p u") (auto simp: Let_def matches_at_literal simp del: literal.simps)
  qed (simp add: Cons some_not_def)
qed (simp add: some_not_def)

lemma quoted_group_matches:
  "matches_at quoted_group (s, g) =
     (if prefix [CHR 0x22] s \<and> takeWhile (\<lambda>c. c \<noteq> CHR 0x22) (tl s) \<noteq> [] \<and>
         dropWhile (\<lambda>c. c \<noteq> CHR 0x22) (tl s) \<noteq> []
      then [(tl (dropWhile (\<lambda>c. c \<noteq> CHR 0x22) (tl s)), Some (takeWhile (\<lambda>c. c \<noteq> CHR 0x22) (tl s)))] else [])"
  unfolding quoted_group_def literal_then by (simp only: group_some_not) (simp add: Let_def drop_Suc)

subsection \<open>A string member, read directly\<close>

text \<open>The value of \<open>"name" : "value"\<close> at the head of a text, where it is not empty.\<close>

definition string_member_at :: "string \<Rightarrow> string \<Rightarrow> string option" where
  "string_member_at name s =
     (let key = CHR 0x22 # name @ [CHR 0x22]; s1 = after_spaces (drop (length key) s);
          s2 = after_spaces (tl s1); v = takeWhile (\<lambda>c. c \<noteq> CHR 0x22) (tl s2)
      in if prefix key s \<and> prefix '':'' s1 \<and> prefix [CHR 0x22] s2 \<and> v \<noteq> [] \<and>
            dropWhile (\<lambda>c. c \<noteq> CHR 0x22) (tl s2) \<noteq> []
         then Some v else None)"

fun string_member :: "string \<Rightarrow> string \<Rightarrow> string" where
  "string_member name s =
     (case string_member_at name s of
        Some v \<Rightarrow> v
      | None \<Rightarrow> (case s of [] \<Rightarrow> [] | _ # t \<Rightarrow> string_member name t))"

declare string_member.simps [simp del]

lemma member_matches:
  "\<exists>t. matches_at (member name quoted_group) (s, g) =
     (case string_member_at name s of None \<Rightarrow> [] | Some v \<Rightarrow> [(t, Some v)])"
proof -
  let ?key = "CHR 0x22 # name @ [CHR 0x22]"
  have c: "\<not> is_re_space (hd '':'')" "\<not> is_re_space (hd [CHR 0x22])"
    by (simp_all add: is_re_space_def)
  have "matches_at (member name quoted_group) (s, g) =
     (if prefix ?key s
      then (let s1 = after_spaces (drop (length ?key) s)
            in if prefix '':'' s1 then matches_at (Then spaces quoted_group) (tl s1, g) else [])
      else [])"
    unfolding member_def literal_then
    by (subst spaces_then_literal[OF _ c(1)]) (simp_all add: Let_def drop_Suc)
  moreover have "matches_at (Then spaces quoted_group) (s1, g) = matches_at quoted_group (after_spaces s1, g)"
    for s1
    unfolding quoted_group_def
    by (subst spaces_then_literal[OF _ c(2)]) (simp_all only: literal_then not_Cons_self2 simp_thms list.distinct)
  ultimately show ?thesis
    by (auto simp: string_member_at_def Let_def quoted_group_matches)
qed

lemma first_submatch_member: "first_submatch (member name quoted_group) s = string_member name s"
proof (induction s)
  case Nil
  then show ?case
    using member_matches[of name "[]" None]
    by (subst string_member.simps)
       (auto simp: first_submatch_def find_match.simps submatch_def split: option.splits)
next
  case (Cons c s)
  then show ?case
    using member_matches[of name "c # s" None]
    by (subst string_member.simps)
       (auto simp: first_submatch_def find_match.simps[of _ "c # s"] submatch_def split: option.splits)
qed

end
