(* ===== verification/Service_Rules.thy ===== *)
theory Service_Rules
  imports Service_Check Go_Regexp
begin

text \<open>
  \<open>core/service_rules.go\<close>: the rules of the thirteen service checks, each a computation that sends its
  requests through the environment, and \<open>handleServiceCheck\<close>, which runs the selected ones.

  The lemmas show that every rule reports a status of the contract with a well-formed region,
  whatever the network answers, that a run retries once at most, that the newest claim of a service is the
  live one, and what the patterns read.
\<close>

subsection \<open>Patterns\<close>

definition is_ascii_letter_rune :: regex where
  "is_ascii_letter_rune = Char_In is_letter"

text \<open>Under \<open>(?i)\<close> a class of letters also takes the long s and the Kelvin sign.\<close>

definition folded_letter :: regex where
  "folded_letter = alternatives [Char_In is_letter, literal [CHR 0xC5, CHR 0xBF],
     literal [CHR 0xE2, CHR 0x84, CHR 0xAA]]"

fun literal_fold :: "string \<Rightarrow> regex" where
  "literal_fold [] = Empty_Match"
| "literal_fold (c # s) = Then (Char_In (\<lambda>d. lower_byte d = c)) (literal_fold s)"

definition quote_mark :: regex where
  "quote_mark = Char_In (\<lambda>c. c = CHR 0x22 \<or> c = CHR 0x27)"

definition two_letter_code :: regex where
  "two_letter_code =
     Then (literal [CHR 0x22])
       (Then (Group (Then is_ascii_letter_rune is_ascii_letter_rune)) (literal [CHR 0x22]))"

definition you_tube_region_patterns :: "regex list" where
  "you_tube_region_patterns =
     [Then (literal_fold ''id='') (Then quote_mark (Then (literal_fold ''country-code'') (Then quote_mark
        (Then (Many (Char_In (\<lambda>c. c \<noteq> CHR ''>''))) (Then (literal ''>'') (Then spaces
          (Then (Group (Then folded_letter (Then folded_letter (optional folded_letter))))
             (Then spaces (literal ''<''))))))))),
      member ''GL'' two_letter_code,
      member ''countryCode'' two_letter_code,
      member ''country_code'' two_letter_code]"

definition tik_tok_region_pattern :: regex where
  "tik_tok_region_pattern =
     member ''webapp.app-context''
       (Then (literal ''{'') (Then (Many_Lazy (Char_In (\<lambda>c. c \<noteq> CHR ''{'' \<and> c \<noteq> CHR ''}'')))
          (member ''region'' (Then (literal [CHR 0x22])
             (Then (Group (Many (Char_In (\<lambda>c. c \<noteq> CHR 0x22)))) (literal [CHR 0x22]))))))"

definition prime_region_pattern :: regex where
  "prime_region_pattern =
     Then (literal (CHR 0x22 # ''currentTerritory'' @ [CHR 0x22] @ '':'')) quoted_group"

definition disney_assertion_pattern :: regex where
  "disney_assertion_pattern = member ''assertion'' quoted_group"

definition disney_refresh_pattern :: regex where
  "disney_refresh_pattern = member ''refresh_token'' quoted_group"

definition disney_country_pattern :: regex where
  "disney_country_pattern = member ''countryCode'' quoted_group"

definition disney_supported_pattern :: regex where
  "disney_supported_pattern =
     member ''inSupportedLocation'' (Group (Either (literal ''false'') (literal ''true'')))"

definition spotify_country_pattern :: regex where
  "spotify_country_pattern = member ''countryCode'' quoted_group"

definition discord_country_pattern :: regex where
  "discord_country_pattern = member ''country_code'' quoted_group"

text \<open>Without its leading \<open>^\<close>.\<close>

definition bilibili_code_pattern :: regex where
  "bilibili_code_pattern =
     Then spaces (Then (literal ''{'') (Then spaces (member ''code''
       (Group (Then (optional (literal ''-'')) (Then (Char_In is_digit) (Many (Char_In is_digit))))))))"

definition gemini_region_marker :: string where
  "gemini_region_marker = '',2,1,200,'' @ [CHR 0x22]"

definition claude_blocked_regions :: "string list" where
  "claude_blocked_regions = [''AF'', ''BY'', ''CN'', ''CU'', ''HK'', ''IR'', ''KP'', ''MO'', ''RU'', ''SY'']"

definition gemini_blocked_regions :: "string list" where
  "gemini_blocked_regions = [''CHN'', ''RUS'', ''BLR'', ''CUB'', ''IRN'', ''PRK'', ''SYR'', ''HKG'', ''MAC'']"

subsection \<open>Judging an answer\<close>

text \<open>A rule that asks once and judges what was answered.\<close>

definition judge ::
  "(probe_result \<Rightarrow> service_item \<Rightarrow> service_item) \<Rightarrow> probe_result option \<Rightarrow> service_item" where
  "judge f result =
     (let item = item_from result
      in case result of
           None \<Rightarrow> item
         | Some r \<Rightarrow> if answered item result then f r item else item)"

definition claude_item :: "probe_result \<Rightarrow> service_item \<Rightarrow> service_item" where
  "claude_item r item =
     (let region = normalize_region (trace_value (res_body r) ''loc'')
      in if region = [] then item\<lparr>it_status := service_failed\<rparr>
         else item\<lparr>it_region := region,
                   it_status := (if region \<in> set claude_blocked_regions
                                 then service_unsupported_region else service_available)\<rparr>)"

definition check_claude :: "service_env \<Rightarrow> (service_state, service_item) state" where
  "check_claude env =
     do {
       result \<leftarrow> service_get env ''https://claude.ai/cdn-cgi/trace'' service_small_max_body;
       State_Monad.return (judge claude_item result)
     }"

definition gemini_found :: "string \<Rightarrow> bool" where
  "gemini_found tail =
     (case index_of tail gemini_region_marker of
        None \<Rightarrow> False
      | Some i \<Rightarrow> i + length gemini_region_marker + 3 \<le> length tail)"

definition gemini_item :: "probe_result \<Rightarrow> service_item \<Rightarrow> service_item" where
  "gemini_item r item =
     (case index_of (res_body r) gemini_region_marker of
        None \<Rightarrow> item\<lparr>it_status := service_failed\<rparr>
      | Some i \<Rightarrow>
          if i + length gemini_region_marker + 3 > length (res_body r)
          then item\<lparr>it_status := service_failed\<rparr>
          else (let code = take 3 (drop (i + length gemini_region_marker) (res_body r))
                in if \<not> is_ascii_upper code then item\<lparr>it_status := service_failed\<rparr>
                   else item\<lparr>it_region := normalize_region code,
                             it_status := (if code \<in> set gemini_blocked_regions
                                           then service_unsupported_region else service_available)\<rparr>))"

definition check_gemini :: "service_env \<Rightarrow> (service_state, service_item) state" where
  "check_gemini env =
     do {
       result \<leftarrow> service_scan env ''https://gemini.google.com'' gemini_found;
       State_Monad.return (judge gemini_item result)
     }"

definition chat_gpt_ios_status :: "probe_result \<Rightarrow> string" where
  "chat_gpt_ios_status r =
     (if body_contains r [''you may be connected to a disallowed isp''] then service_disallowed_isp
      else if body_contains r [''sorry, you have been blocked''] then service_blocked
      else if body_contains r [''request is not allowed. please try again later.''] then service_available
      else service_failed)"

definition check_chat_gpt :: "service_env \<Rightarrow> (service_state, service_item) state" where
  "check_chat_gpt env =
     do {
       ios \<leftarrow> service_get env ''https://ios.chat.openai.com/'' service_small_max_body;
       trace \<leftarrow> service_get env ''https://chat.openai.com/cdn-cgi/trace'' service_small_max_body;
       web \<leftarrow> service_get env ''https://api.openai.com/compliance/cookie_requirements'' service_small_max_body;
       State_Monad.return
         (let item = judge (\<lambda>r item. item\<lparr>it_status := chat_gpt_ios_status r\<rparr>) ios;
              item1 = (case trace of
                         None \<Rightarrow> item
                       | Some t \<Rightarrow>
                           if answered (item_from trace) trace
                           then item\<lparr>it_region := normalize_region (trace_value (res_body t) ''loc'')\<rparr>
                           else item)
          in case web of
               None \<Rightarrow> item1
             | Some w \<Rightarrow>
                 if answered (item_from web) web \<and> body_contains w [''unsupported_country'']
                 then item1\<lparr>it_status := service_unsupported_region\<rparr> else item1)
     }"

fun first_region_code :: "regex list \<Rightarrow> string \<Rightarrow> string" where
  "first_region_code [] body = []"
| "first_region_code (p # ps) body =
     (let code = first_submatch p body in if code \<noteq> [] then code else first_region_code ps body)"

definition you_tube_item :: "probe_result \<Rightarrow> service_item \<Rightarrow> service_item" where
  "you_tube_item r item =
     (let code = first_region_code you_tube_region_patterns (res_body r);
          item1 = (if code \<noteq> [] then item\<lparr>it_region := normalize_region code\<rparr> else item)
      in item1\<lparr>it_status :=
           (if body_contains r [''youtube premium is not available in your country'',
                 ''premium is not available in your country'', ''premium is not available in your region'']
            then service_unsupported_region
            else if 200 \<le> res_status r \<and> res_status r < 300 \<and>
                    body_contains r [''youtube premium'', ''ad-free'',
                      [CHR 0x22] @ ''browseid'' @ [CHR 0x22] @ '':'' @ [CHR 0x22] @ ''spunlimited'' @ [CHR 0x22]]
            then service_available
            else status_from_code (res_status r))\<rparr>)"

definition check_you_tube_premium :: "service_env \<Rightarrow> (service_state, service_item) state" where
  "check_you_tube_premium env =
     do {
       result \<leftarrow> service_get env ''https://www.youtube.com/premium?hl=en'' service_html_max_body;
       State_Monad.return (judge you_tube_item result)
     }"

text \<open>\<open>strings.Trim\<close> of one character.\<close>

definition trim_char :: "char \<Rightarrow> string \<Rightarrow> string" where
  "trim_char c s = rev (dropWhile (\<lambda>d. d = c) (rev (dropWhile (\<lambda>d. d = c) s)))"

definition spotify_region :: "service_world \<Rightarrow> probe_result \<Rightarrow> string" where
  "spotify_region world r =
     (let named = first_submatch spotify_country_pattern (res_body r)
      in case sv_url_path world (res_url r) of
           None \<Rightarrow> named
         | Some path \<Rightarrow>
             (let first = hd (split_on CHR ''/'' (trim_char CHR ''/'' path))
              in if first \<noteq> [] \<and> first \<noteq> ''api'' then hd (split_on CHR ''-'' first) else named))"

definition spotify_item :: "service_world \<Rightarrow> probe_result \<Rightarrow> service_item \<Rightarrow> service_item" where
  "spotify_item world r item =
     item\<lparr>it_region := normalize_region (spotify_region world r),
          it_status :=
            (if res_status r = 403 \<or> res_status r = 451 then service_unsupported_region
             else if res_status r < 200 \<or> 300 \<le> res_status r then status_from_code (res_status r)
             else if body_contains r [''not available in your country''] then service_unsupported_region
             else service_available)\<rparr>"

definition check_spotify :: "service_env \<Rightarrow> (service_state, service_item) state" where
  "check_spotify env =
     do {
       result \<leftarrow> service_get env
         ''https://www.spotify.com/api/content/v1/country-selector?platform=web&format=json''
         service_small_max_body;
       State_Monad.return (judge (spotify_item (se_world env)) result)
     }"

definition tik_tok_status :: "probe_result \<Rightarrow> string" where
  "tik_tok_status r =
     (if res_status r = 403 \<or> res_status r = 451 then service_unsupported_region
      else if res_status r < 200 \<or> 300 \<le> res_status r then service_failed
      else if body_contains r [''access denied'', ''not available in your region'', ''tiktok is not available'']
      then service_unsupported_region
      else service_available)"

definition tik_tok_region :: "string \<Rightarrow> string" where
  "tik_tok_region body = normalize_region (first_submatch tik_tok_region_pattern body)"

definition check_tik_tok :: "service_env \<Rightarrow> (service_state, service_item) state" where
  "check_tik_tok env =
     do {
       result \<leftarrow> service_scan env ''https://www.tiktok.com/'' (match_string tik_tok_region_pattern);
       State_Monad.return
         (judge (\<lambda>r item. item\<lparr>it_status := tik_tok_status r, it_region := tik_tok_region (res_body r)\<rparr>) result)
     }"

definition bilibili_status :: "string \<Rightarrow> string" where
  "bilibili_status body =
     (let code = first_submatch_anchored bilibili_code_pattern body
      in if code = ''0'' then service_available
         else if code = ''-10403'' then service_unsupported_region
         else service_failed)"

definition bilibili_mainland :: string where
  "bilibili_mainland = ''https://api.bilibili.com/pgc/player/web/playurl?avid=82846771&qn=0&type=&otype=json&ep_id=307247&fourk=1&fnver=0&fnval=16&module=bangumi''"

definition bilibili_hong_kong_macau_taiwan :: string where
  "bilibili_hong_kong_macau_taiwan = ''https://api.bilibili.com/pgc/player/web/playurl?avid=18281381&cid=29892777&qn=0&type=&otype=json&ep_id=183799&fourk=1&fnver=0&fnval=16&module=bangumi''"

definition bilibili_episode :: "service_env \<Rightarrow> string \<Rightarrow> (service_state, service_item) state" where
  "bilibili_episode env url =
     do {
       result \<leftarrow> service_get env url service_small_max_body;
       State_Monad.return (judge (\<lambda>r item. item\<lparr>it_status := bilibili_status (res_body r)\<rparr>) result)
     }"

definition check_bilibili :: "service_env \<Rightarrow> (service_state, service_item) state" where
  "check_bilibili env =
     do {
       item \<leftarrow> bilibili_episode env bilibili_mainland;
       (if it_status item = service_available then State_Monad.return (item\<lparr>it_region := ''CN''\<rparr>)
        else if it_status item = service_unsupported_region
        then bilibili_episode env bilibili_hong_kong_macau_taiwan
        else State_Monad.return item)
     }"

definition discord_item :: "probe_result \<Rightarrow> service_item \<Rightarrow> service_item" where
  "discord_item r item =
     (let item1 = item\<lparr>it_status := status_from_code (res_status r)\<rparr>
      in if it_status item1 = service_available
         then item1\<lparr>it_region := normalize_region (first_submatch discord_country_pattern (res_body r))\<rparr>
         else item1)"

definition check_discord :: "service_env \<Rightarrow> (service_state, service_item) state" where
  "check_discord env =
     do {
       result \<leftarrow> service_get env ''https://discord.com/api/v9/auth/location-metadata'' service_small_max_body;
       State_Monad.return (judge discord_item result)
     }"

definition prime_video_item :: "probe_result \<Rightarrow> service_item \<Rightarrow> service_item" where
  "prime_video_item r item =
     (if contains (res_body r) ''isServiceRestricted''
      then item\<lparr>it_status := service_unsupported_region\<rparr>
      else (let region = first_submatch prime_region_pattern (res_body r)
            in if region = [] then item\<lparr>it_status := service_failed\<rparr>
               else item\<lparr>it_region := normalize_region region, it_status := service_available\<rparr>))"

definition check_prime_video :: "service_env \<Rightarrow> (service_state, service_item) state" where
  "check_prime_video env =
     do {
       result \<leftarrow> service_scan env ''https://www.primevideo.com''
         (\<lambda>tail. contains tail ''isServiceRestricted'' \<or> match_string prime_region_pattern tail);
       State_Monad.return (judge prime_video_item result)
     }"

subsection \<open>Netflix\<close>

definition netflix_served :: "int \<Rightarrow> bool" where
  "netflix_served code \<longleftrightarrow> code = 200 \<or> code = 301"

definition netflix_region_of :: "probe_result option \<Rightarrow> string" where
  "netflix_region_of result =
     (case result of
        None \<Rightarrow> []
      | Some r \<Rightarrow>
          (case res_header r of
             None \<Rightarrow> []
           | Some header \<Rightarrow>
               (let segments = split_on CHR ''/'' (header ''Location'')
                in if res_error r \<noteq> [] \<or> length segments < 4 then []
                   else normalize_region (hd (split_on CHR ''-'' (segments ! 3))))))"

definition netflix_region :: "service_env \<Rightarrow> (service_state, string) state" where
  "netflix_region env =
     do {
       result \<leftarrow> service_send env
         ((plain_request ''GET'' ''https://www.netflix.com/title/80018499'' 0)\<lparr>pq_no_redirect := True\<rparr>);
       State_Monad.return (netflix_region_of result)
     }"

definition netflix_cdn_item :: "service_world \<Rightarrow> probe_result \<Rightarrow> service_item \<Rightarrow> service_item" where
  "netflix_cdn_item world r item =
     (if res_status r = 403 then item\<lparr>it_status := service_blocked\<rparr>
      else (case sv_countries world (res_body r) of
              Some (country # _) \<Rightarrow>
                item\<lparr>it_region := normalize_region country, it_status := service_available\<rparr>
            | _ \<Rightarrow> item\<lparr>it_status := service_failed\<rparr>))"

definition netflix_from_cdn :: "service_env \<Rightarrow> (service_state, service_item) state" where
  "netflix_from_cdn env =
     do {
       result \<leftarrow> service_get env
         ''https://api.fast.com/netflix/speedtest/v2?https=true&token=YXNkZmFzZGxmbnNkYWZoYXNkZmhrYWxm&urlCount=5''
         service_small_max_body;
       State_Monad.return (judge (netflix_cdn_item (se_world env)) result)
     }"

text \<open>The verdict of the two titles; None stands for \<open>netflixRegion\<close> having to be asked.\<close>

definition netflix_titles :: "probe_result \<Rightarrow> probe_result \<Rightarrow> string option" where
  "netflix_titles first second =
     (if res_status first = 404 \<and> res_status second = 404 then Some service_originals_only
      else if res_status first = 403 \<or> res_status second = 403 then Some service_unsupported_region
      else if netflix_served (res_status first) \<or> netflix_served (res_status second) then None
      else Some (status_from_code (res_status first)))"

definition netflix_verdict ::
  "service_env \<Rightarrow> service_item \<Rightarrow> probe_result \<Rightarrow> probe_result \<Rightarrow> (service_state, service_item) state" where
  "netflix_verdict env item first second =
     (case netflix_titles first second of
        Some status \<Rightarrow> State_Monad.return (item\<lparr>it_status := status\<rparr>)
      | None \<Rightarrow> do {
          region \<leftarrow> netflix_region env;
          State_Monad.return (item\<lparr>it_status := service_available, it_region := region\<rparr>)
        })"

definition netflix_second ::
  "service_env \<Rightarrow> service_item \<Rightarrow> probe_result \<Rightarrow> (service_state, service_item) state" where
  "netflix_second env item first =
     do {
       second \<leftarrow> service_get env ''https://www.netflix.com/title/70143836'' 0;
       (case second of
          None \<Rightarrow> State_Monad.return (item_from None)
        | Some s \<Rightarrow>
            if \<not> answered (item_from second) second then State_Monad.return (item_from second)
            else netflix_verdict env item first s)
     }"

definition netflix_first :: "service_env \<Rightarrow> (service_state, service_item) state" where
  "netflix_first env =
     do {
       first \<leftarrow> service_get env ''https://www.netflix.com/title/81280792'' 0;
       (case first of
          None \<Rightarrow> State_Monad.return (item_from None)
        | Some f \<Rightarrow>
            if \<not> answered (item_from first) first then State_Monad.return (item_from first)
            else netflix_second env (item_from first) f)
     }"

definition check_netflix :: "service_env \<Rightarrow> (service_state, service_item) state" where
  "check_netflix env =
     do {
       cdn \<leftarrow> netflix_from_cdn env;
       (if it_status cdn = service_available \<or> it_status cdn = service_blocked
        then State_Monad.return cdn else netflix_first env)
     }"

subsection \<open>Disney+\<close>

definition hex_upper :: "nat \<Rightarrow> char" where
  "hex_upper d = (if d < 10 then char_of (48 + d) else char_of (55 + d))"

text \<open>\<open>url.QueryEscape\<close>\<close>

definition query_escape :: "string \<Rightarrow> string" where
  "query_escape s =
     concat (map (\<lambda>c. if is_letter c \<or> is_digit c \<or> c \<in> {CHR ''-'', CHR ''_'', CHR ''.'', CHR ''~''} then [c]
                      else if c = CHR '' '' then ''+''
                      else [CHR 0x25, hex_upper (byte_val c div 16), hex_upper (byte_val c mod 16)]) s)"

definition disney_auth_header :: string where
  "disney_auth_header = ''Bearer ZGlzbmV5JmJyb3dzZXImMS4wLjA.Cu56AgSfBTDag5NiRA81oLHkDZfu5L3CKadnefEAY84''"

definition disney_request :: "string \<Rightarrow> string \<Rightarrow> string \<Rightarrow> probe_request" where
  "disney_request url content_type body =
     (plain_request ''POST'' url service_small_max_body)
       \<lparr>pq_headers := [''authorization'' \<mapsto> disney_auth_header, ''content-type'' \<mapsto> content_type],
        pq_body := body\<rparr>"

definition quote :: "string \<Rightarrow> string" where
  "quote s = CHR 0x22 # s @ [CHR 0x22]"

definition disney_device_body :: string where
  "disney_device_body =
     ''{'' @ quote ''deviceFamily'' @ '':'' @ quote ''browser'' @ '','' @
     quote ''applicationRuntime'' @ '':'' @ quote ''chrome'' @ '','' @
     quote ''deviceProfile'' @ '':'' @ quote ''windows'' @ '','' @ quote ''attributes'' @ '':{}}''"

definition disney_token_body :: "string \<Rightarrow> string" where
  "disney_token_body assertion =
     ''grant_type=urn:ietf:params:oauth:grant-type:token-exchange'' @
     ''&latitude=0&longitude=0&platform=browser'' @
     ''&subject_token='' @ query_escape assertion @
     ''&subject_token_type=urn:bamtech:params:oauth:token-type:device''"

definition disney_session_body :: "string \<Rightarrow> string" where
  "disney_session_body refresh =
     ''{'' @ quote ''query'' @ '':'' @
     quote ''mutation refreshToken($input: RefreshTokenInput!) { refreshToken(refreshToken: $input) { activeSession { sessionId } } }'' @
     '','' @ quote ''variables'' @ '':{'' @ quote ''input'' @ '':{'' @ quote ''refreshToken'' @ '':'' @
     quote refresh @ ''}}}''"

definition disney_session_item :: "probe_result option \<Rightarrow> service_item \<Rightarrow> service_item" where
  "disney_session_item session item =
     (case session of
        None \<Rightarrow> item\<lparr>it_status := service_failed\<rparr>
      | Some s \<Rightarrow>
          if \<not> answered (item_from session) session \<or> res_body s = [] \<or> 400 \<le> res_status s
          then item\<lparr>it_status := service_failed\<rparr>
          else (let region = normalize_region (first_submatch disney_country_pattern (res_body s));
                    supported = first_submatch disney_supported_pattern (res_body s)
                in if region = [] then item\<lparr>it_status := service_unavailable\<rparr>
                   else item\<lparr>it_region := region,
                             it_status := (if supported = ''true'' then service_available
                                           else if supported = ''false'' then service_coming_soon
                                           else service_failed)\<rparr>))"

text \<open>What the token call gives: an item to report, or the refresh token to go on with.\<close>

definition disney_token_step :: "probe_result option \<Rightarrow> service_item \<Rightarrow> service_item + string" where
  "disney_token_step token item =
     (case token of
        None \<Rightarrow> Inl (item_from None)
      | Some t \<Rightarrow>
          if \<not> answered (item_from token) token then Inl (item_from token)
          else if contains (res_body t) ''forbidden-location'' \<or> contains (res_body t) ''403 ERROR''
          then Inl (item\<lparr>it_status := service_blocked\<rparr>)
          else (let refresh = first_submatch disney_refresh_pattern (res_body t)
                in if refresh = [] then Inl (item\<lparr>it_status := service_failed\<rparr>) else Inr refresh))"

definition disney_device_step :: "probe_result option \<Rightarrow> service_item + string" where
  "disney_device_step device =
     (case device of
        None \<Rightarrow> Inl (item_from None)
      | Some d \<Rightarrow>
          if \<not> answered (item_from device) device then Inl (item_from device)
          else if res_status d = 403 then Inl ((item_from device)\<lparr>it_status := service_blocked\<rparr>)
          else (let assertion = first_submatch disney_assertion_pattern (res_body d)
                in if assertion = [] then Inl ((item_from device)\<lparr>it_status := service_failed\<rparr>)
                   else Inr assertion))"

definition disney_session ::
  "service_env \<Rightarrow> service_item \<Rightarrow> string \<Rightarrow> (service_state, service_item) state" where
  "disney_session env item refresh =
     do {
       session \<leftarrow> service_send env
         (disney_request ''https://disney.api.edge.bamgrid.com/graph/v1/device/graphql''
            ''application/json'' (disney_session_body refresh));
       State_Monad.return (disney_session_item session item)
     }"

definition disney_token ::
  "service_env \<Rightarrow> service_item \<Rightarrow> string \<Rightarrow> (service_state, service_item) state" where
  "disney_token env item assertion =
     do {
       token \<leftarrow> service_send env (disney_request ''https://disney.api.edge.bamgrid.com/token''
                  ''application/x-www-form-urlencoded'' (disney_token_body assertion));
       (case disney_token_step token item of
          Inl judged \<Rightarrow> State_Monad.return judged
        | Inr refresh \<Rightarrow> disney_session env item refresh)
     }"

definition check_disney_plus :: "service_env \<Rightarrow> (service_state, service_item) state" where
  "check_disney_plus env =
     do {
       device \<leftarrow> service_send env (disney_request ''https://disney.api.edge.bamgrid.com/devices''
                   ''application/json; charset=UTF-8'' disney_device_body);
       (case disney_device_step device of
          Inl judged \<Rightarrow> State_Monad.return judged
        | Inr assertion \<Rightarrow> disney_token env (item_from device) assertion)
     }"

subsection \<open>The checkers\<close>

definition service_rules :: "(string \<times> (service_env \<Rightarrow> (service_state, service_item) state)) list" where
  "service_rules =
     [(''google'', check_reachable ''https://www.google.com/generate_204''),
      (''github'', check_reachable ''https://github.com/''),
      (''youtube'', check_you_tube_premium),
      (''chatgpt'', check_chat_gpt),
      (''claude'', check_claude),
      (''gemini'', check_gemini),
      (''netflix'', check_netflix),
      (''disney-plus'', check_disney_plus),
      (''prime-video'', check_prime_video),
      (''spotify'', check_spotify),
      (''tiktok'', check_tik_tok),
      (''discord'', check_discord),
      (''bilibili'', check_bilibili)]"

definition service_checkers :: "service_checker list" where
  "service_checkers = map (\<lambda>(name, f). \<lparr>ck_name = name, ck_check = rule f\<rparr>) service_rules"

text \<open>
  \<open>handleServiceCheck\<close>. Checker number \<open>k\<close> of the selection runs in \<open>worlds k\<close>, whose context is the
  claim's; the runs share nothing but the slots, so their order does not show in the items.
\<close>

definition handle_service_check ::
  "(nat \<Rightarrow> service_world) \<Rightarrow> (nat \<Rightarrow> u64 \<times> u64) \<Rightarrow> string list \<Rightarrow> string \<Rightarrow> int \<Rightarrow> service_claims
   \<Rightarrow> service_item list \<times> service_claims" where
  "handle_service_check worlds stamps names proxy_name millis c =
     (let wanted = selected_checkers service_checkers names;
          timeout = timeout_from_millis millis default_probe_timeout
      in if wanted = [] then ([], c)
         else (case claim_services (map ck_name wanted) Map.empty c of
             (ids, releases, c1) \<Rightarrow>
               (map (\<lambda>(k, ck). fst (run_service_check (worlds k) (stamps k) ck proxy_name timeout))
                    (enumerate 0 wanted),
                release_services releases c1)))"

subsection \<open>Every rule keeps the contract\<close>

definition region_ok :: "string \<Rightarrow> bool" where
  "region_ok r \<longleftrightarrow> r = [] \<or> (length r = 2 \<and> list_all is_upper r)"

definition item_ok :: "service_item \<Rightarrow> bool" where
  "item_ok item \<longleftrightarrow> it_status item \<in> set service_statuses \<and> region_ok (it_region item)"

text \<open>A computation whose result satisfies a predicate and that sends at most \<open>n\<close> requests.\<close>

definition yields :: "nat \<Rightarrow> ('a \<Rightarrow> bool) \<Rightarrow> (service_state, 'a) state \<Rightarrow> bool" where
  "yields n P m \<longleftrightarrow> (\<forall>s. P (fst (run_state m s)) \<and>
     ss_requests (snd (run_state m s)) \<le> ss_requests s + n)"

lemma yields_return: "P x \<Longrightarrow> yields n P (State_Monad.return x)"
  by (simp add: yields_def State_Monad.return_def)

lemma yields_bind:
  "yields a Q m \<Longrightarrow> (\<And>x. Q x \<Longrightarrow> yields b P (f x)) \<Longrightarrow> a + b \<le> n \<Longrightarrow> yields n P (State_Monad.bind m f)"
proof -
  assume m: "yields a Q m" and f: "\<And>x. Q x \<Longrightarrow> yields b P (f x)" and n: "a + b \<le> n"
  show ?thesis
    unfolding yields_def
  proof (intro allI)
    fix s
    obtain x s1 where x: "run_state m s = (x, s1)" by fastforce
    obtain y s2 where y: "run_state (f x) s1 = (y, s2)" by fastforce
    have "Q x" "ss_requests s1 \<le> ss_requests s + a"
      using m x unfolding yields_def by (metis fst_conv snd_conv)+
    moreover have "P y" "ss_requests s2 \<le> ss_requests s1 + b"
      using f[OF \<open>Q x\<close>] y unfolding yields_def by (metis fst_conv snd_conv)+
    ultimately show "P (fst (run_state (State_Monad.bind m f) s)) \<and>
        ss_requests (snd (run_state (State_Monad.bind m f) s)) \<le> ss_requests s + n"
      using n x y by (simp add: State_Monad.bind_def)
  qed
qed

lemma yields_send: "yields (Suc 0) (\<lambda>_. True) (service_send env req)"
  by (simp add: yields_def service_send_def Let_def)

lemma yields_get: "yields (Suc 0) (\<lambda>_. True) (service_get env url cap)"
  unfolding service_get_def by (rule yields_send)

lemma yields_scan: "yields (Suc 0) (\<lambda>_. True) (service_scan env url until)"
  unfolding service_scan_def by (rule yields_send)

lemma region_ok_normalize [simp]: "region_ok (normalize_region code)"
  using normalize_region_cases[of code] by (auto simp: region_ok_def list_all_iff)


lemma item_from_cases:
  "item_ok (item_from result) \<or> (\<exists>r. result = Some r \<and> it_status (item_from result) = [])"
  "it_region (item_from result) = []"
  by (auto simp: item_from_def item_ok_def region_ok_def service_statuses_def blank_item_def Let_def
      split: option.splits)

lemma item_from_ok: "\<not> answered (item_from result) result \<Longrightarrow> item_ok (item_from result)"
  using item_from_cases(1)[of result] by (auto simp: answered_def)

lemma judge_ok:
  assumes "\<And>r item. it_region item = [] \<Longrightarrow> item_ok (f r item)"
  shows "item_ok (judge f result)"
proof -
  have "item_ok (item_from None)" by (rule item_from_ok) (simp add: answered_def)
  then show ?thesis
    using assms item_from_ok[of result] item_from_cases(2)[of result]
    by (auto simp: judge_def Let_def split: option.splits)
qed

lemma status_from_code_ok [simp]: "status_from_code code \<in> set service_statuses"
  by (simp add: status_from_code_def service_statuses_def)

lemma item_ok_update [simp]:
  "item_ok (item\<lparr>it_status := st\<rparr>) \<longleftrightarrow> st \<in> set service_statuses \<and> region_ok (it_region item)"
  "item_ok (item\<lparr>it_region := r, it_status := st\<rparr>) \<longleftrightarrow> st \<in> set service_statuses \<and> region_ok r"
  "item_ok (item\<lparr>it_status := st, it_region := r\<rparr>) \<longleftrightarrow> st \<in> set service_statuses \<and> region_ok r"
  "item_ok (item\<lparr>it_region := r\<rparr>) \<longleftrightarrow> it_status item \<in> set service_statuses \<and> region_ok r"
  by (simp_all add: item_ok_def)

lemma region_ok_empty [simp]: "region_ok []" by (simp add: region_ok_def)

lemma statuses_in [simp]:
  "service_available \<in> set service_statuses" "service_unavailable \<in> set service_statuses"
  "service_restricted \<in> set service_statuses" "service_disallowed_isp \<in> set service_statuses"
  "service_blocked \<in> set service_statuses" "service_unsupported_region \<in> set service_statuses"
  "service_originals_only \<in> set service_statuses" "service_coming_soon \<in> set service_statuses"
  "service_timeout \<in> set service_statuses" "service_failed \<in> set service_statuses"
  by (simp_all add: service_statuses_def)

lemma yields_judge_get:
  "(\<And>r item. it_region item = [] \<Longrightarrow> item_ok (f r item)) \<Longrightarrow>
   yields (Suc 0) item_ok (State_Monad.bind (service_get env url cap) (\<lambda>result. State_Monad.return (judge f result)))"
  by (rule yields_bind[OF yields_get, where b = 0]) (auto intro: yields_return judge_ok)

lemma yields_judge_scan:
  "(\<And>r item. it_region item = [] \<Longrightarrow> item_ok (f r item)) \<Longrightarrow>
   yields (Suc 0) item_ok (State_Monad.bind (service_scan env url until) (\<lambda>result. State_Monad.return (judge f result)))"
  by (rule yields_bind[OF yields_scan, where b = 0]) (auto intro: yields_return judge_ok)

lemma yields_weaken: "yields a P m \<Longrightarrow> a \<le> n \<Longrightarrow> yields n P m"
  unfolding yields_def by (meson add_le_cancel_left le_trans)

lemma check_reachable_ok: "yields (Suc 0) item_ok (check_reachable url env)"
  unfolding check_reachable_def
proof (rule yields_bind[OF yields_get, where b = 0])
  fix result
  show "yields 0 item_ok (State_Monad.return
     (let item = item_from result
      in if it_status item \<noteq> [] then item
         else (case result of None \<Rightarrow> item | Some r \<Rightarrow> item\<lparr>it_status := status_from_code (res_status r)\<rparr>)))"
    using item_from_cases[of result]
    by (intro yields_return) (auto simp: Let_def split: option.splits)
qed simp

lemma simple_rules_ok:
  "yields (Suc 0) item_ok (check_claude env)" "yields (Suc 0) item_ok (check_gemini env)"
  "yields (Suc 0) item_ok (check_you_tube_premium env)" "yields (Suc 0) item_ok (check_spotify env)"
  "yields (Suc 0) item_ok (check_tik_tok env)" "yields (Suc 0) item_ok (check_discord env)"
  "yields (Suc 0) item_ok (check_prime_video env)" "yields (Suc 0) item_ok (bilibili_episode env url)"
  "yields (Suc 0) item_ok (netflix_from_cdn env)"
  unfolding check_claude_def check_gemini_def check_you_tube_premium_def check_spotify_def
    check_tik_tok_def check_discord_def check_prime_video_def bilibili_episode_def netflix_from_cdn_def
  by (rule yields_judge_get yields_judge_scan;
      simp add: claude_item_def gemini_item_def you_tube_item_def spotify_item_def tik_tok_status_def
        tik_tok_region_def discord_item_def prime_video_item_def bilibili_status_def netflix_cdn_item_def
        Let_def split: option.split list.split)+


lemma item_from_None_ok [simp]: "item_ok (item_from None)"
  by (rule item_from_ok) (simp add: answered_def)

lemma check_bilibili_ok: "yields 2 item_ok (check_bilibili env)"
  unfolding check_bilibili_def
  by (rule yields_bind[OF simple_rules_ok(8), where b = "Suc 0"])
     (auto intro: yields_return yields_weaken simple_rules_ok(8) simp: region_ok_def is_upper_def)

lemma check_chat_gpt_ok: "yields 3 item_ok (check_chat_gpt env)"
  unfolding check_chat_gpt_def
proof (rule yields_bind[OF yields_get, where b = 2],
    rule yields_bind[OF yields_get, where b = "Suc 0"], rule yields_bind[OF yields_get, where b = 0],
    rule yields_return, unfold Let_def)
  fix ios trace web :: "probe_result option"
  let ?item = "judge (\<lambda>r item. item\<lparr>it_status := chat_gpt_ios_status r\<rparr>) ios"
  have item: "item_ok ?item"
    by (rule judge_ok) (simp add: chat_gpt_ios_status_def)
  let ?item1 = "case trace of None \<Rightarrow> ?item
     | Some t \<Rightarrow> if answered (item_from trace) trace
         then ?item\<lparr>it_region := normalize_region (trace_value (res_body t) ''loc'')\<rparr> else ?item"
  have item1: "item_ok ?item1"
    using item by (auto simp: item_ok_def split: option.splits)
  then show "item_ok (case web of None \<Rightarrow> ?item1
     | Some w \<Rightarrow> if answered (item_from web) web \<and> body_contains w [''unsupported_country'']
         then ?item1\<lparr>it_status := service_unsupported_region\<rparr> else ?item1)"
    by (cases web) (simp_all add: item_ok_def)
qed simp_all

lemma netflix_region_ok: "yields (Suc 0) region_ok (netflix_region env)"
  unfolding netflix_region_def
  by (rule yields_bind[OF yields_send, where b = 0], rule yields_return)
     (auto simp: netflix_region_of_def Let_def split: option.splits)

lemma netflix_titles_ok: "netflix_titles f s = Some st \<Longrightarrow> st \<in> set service_statuses"
  by (auto simp: netflix_titles_def split: if_splits)

lemma netflix_verdict_ok: "it_region item = [] \<Longrightarrow> yields (Suc 0) item_ok (netflix_verdict env item f s)"
  using netflix_titles_ok[of f s]
  by (auto simp: netflix_verdict_def intro!: yields_return yields_bind[OF netflix_region_ok, where b = 0]
      split: option.split)

lemma netflix_second_ok: "it_region item = [] \<Longrightarrow> yields 2 item_ok (netflix_second env item f)"
  unfolding netflix_second_def
  by (rule yields_bind[OF yields_get, where b = "Suc 0"])
     (auto intro: yields_return item_from_ok netflix_verdict_ok split: option.split)

lemma netflix_first_ok: "yields 3 item_ok (netflix_first env)"
  unfolding netflix_first_def
  by (rule yields_bind[OF yields_get, where b = 2])
     (auto intro: yields_return item_from_ok netflix_second_ok simp: item_from_cases(2) split: option.split)

lemma check_netflix_ok: "yields 4 item_ok (check_netflix env)"
  unfolding check_netflix_def
  by (rule yields_bind[OF simple_rules_ok(9), where b = 3]) (auto intro: yields_return netflix_first_ok)

lemma disney_steps_ok:
  "disney_device_step device = Inl item \<Longrightarrow> item_ok item"
  "disney_token_step token base = Inl item \<Longrightarrow> it_region base = [] \<Longrightarrow> item_ok item"
  "it_region base = [] \<Longrightarrow> item_ok (disney_session_item session base)"
  using item_from_ok[of device] item_from_ok[of token] item_from_cases(2)
  by (auto simp: disney_device_step_def disney_token_step_def disney_session_item_def Let_def
      split: option.splits if_splits)

lemma disney_session_ok: "it_region item = [] \<Longrightarrow> yields (Suc 0) item_ok (disney_session env item refresh)"
  unfolding disney_session_def
  by (rule yields_bind[OF yields_send, where b = 0]) (auto intro: yields_return disney_steps_ok(3))

lemma disney_token_ok: "it_region item = [] \<Longrightarrow> yields 2 item_ok (disney_token env item assertion)"
  unfolding disney_token_def
  by (rule yields_bind[OF yields_send, where b = "Suc 0"])
     (auto intro: yields_return disney_steps_ok(2) disney_session_ok split: sum.split)

lemma check_disney_plus_ok: "yields 3 item_ok (check_disney_plus env)"
  unfolding check_disney_plus_def
  by (rule yields_bind[OF yields_send, where b = 2])
     (auto intro: yields_return disney_steps_ok(1) disney_token_ok simp: item_from_cases(2)
       split: sum.split)

lemma service_rules_ok: "\<forall>(name, f) \<in> set service_rules. \<forall>env. yields 4 item_ok (f env)"
  unfolding service_rules_def
  by (simp add: simple_rules_ok[THEN yields_weaken] check_reachable_ok[THEN yields_weaken]
      check_bilibili_ok[THEN yields_weaken] check_chat_gpt_ok[THEN yields_weaken] check_netflix_ok
      check_disney_plus_ok[THEN yields_weaken])

lemma service_checkers_ok:
  "ck \<in> set service_checkers \<Longrightarrow> \<exists>f. ck_check ck = rule f \<and> yields 4 item_ok (f env)"
  using service_rules_ok by (fastforce simp: service_checkers_def)

lemma run_rule: "run_state (rule f env) s = (case run_state (f env) s of (item, s1) \<Rightarrow> (Some item, s1))"
  by (simp add: rule_def State_Monad.bind_def State_Monad.return_def split: prod.split)

lemma yieldsD:
  "yields n P m \<Longrightarrow> run_state m s = (x, s') \<Longrightarrow> P x \<and> ss_requests s' \<le> ss_requests s + n"
  unfolding yields_def by (metis fst_conv snd_conv)

lemma stamp_item_ok:
  "item_ok (stamp_item ck world stamp hs item) = item_ok item"
  "it_name (stamp_item ck world stamp hs item) = ck_name ck"
  "it_epoch (stamp_item ck world stamp hs item) = fst stamp"
  "it_version (stamp_item ck world stamp hs item) = snd stamp"
  by (simp_all add: stamp_item_def item_ok_def)

lemma blank_failed_ok: "item_ok (blank_item\<lparr>it_status := service_failed\<rparr>)"
  by (simp add: item_ok_def blank_item_def)

text \<open>C17. Whatever the network, the parsers and the clock answer, a run of any of the thirteen checks
  reports, under the check's name and the stamp of its start, one of the ten statuses of the
  contract with the host, never a blank one, and a region that is empty or two upper-case letters;
  and it sends at most eight requests, its retry included.\<close>

theorem service_checks_keep_contract:
  assumes "ck \<in> set service_checkers"
    "run_service_check world stamp ck proxy_name timeout = (item, requests)"
  shows "it_status item \<in> set service_statuses \<and>
    (it_region item = [] \<or> length (it_region item) = 2 \<and> list_all is_upper (it_region item)) \<and>
    it_name item = ck_name ck \<and> (it_epoch item, it_version item) = stamp \<and> requests \<le> 8"
proof -
  let ?env = "\<lparr>se_world = world, se_proxy = proxy_name, se_timeout = timeout\<rparr>"
  obtain f where f: "ck_check ck = rule f" "yields 4 item_ok (f ?env)"
    using service_checkers_ok[OF assms(1)] by blast
  obtain i1 s1 where r1: "run_state (f ?env) \<lparr>ss_requests = 0, ss_hits = []\<rparr> = (i1, s1)" by fastforce
  obtain i2 s2 where r2: "run_state (f ?env) s1 = (i2, s2)" by fastforce
  have ok: "item_ok i1" "item_ok i2" "ss_requests s1 \<le> 4" "ss_requests s2 \<le> 8"
    using yieldsD[OF f(2) r1] yieldsD[OF f(2) r2] by auto
  have "item_ok item \<and> it_name item = ck_name ck \<and> (it_epoch item, it_version item) = stamp \<and> requests \<le> 8"
    using assms(2) ok blank_failed_ok r1 r2 f(1)
    by (auto simp: run_service_check_def Let_def run_rule stamp_item_ok split: if_splits)
  then show ?thesis by (auto simp: item_ok_def region_ok_def)
qed


definition discord_world :: service_world where
  "discord_world = \<lparr>sv_probe = (\<lambda>k req. Some ((blank_result (pq_url req) (0, 0))
       \<lparr>res_status := 200, res_body := CHR 0x22 # ''country_code'' @ [CHR 0x22] @ '': '' @ quote ''de''\<rparr>)),
     sv_countries = (\<lambda>_. None), sv_url_path = (\<lambda>_. None), sv_ctx_err = False, sv_has_budget = True,
     sv_now = 7\<rparr>"

theorem service_checks_keep_contract_witness:
  "let r = run_service_check discord_world (3, 4) \<lparr>ck_name = ''discord'', ck_check = rule check_discord\<rparr> [] 5
   in it_status (fst r) \<in> set service_statuses \<and> it_epoch (fst r) = 3 \<and> snd r \<le> 8"
proof -
  let ?ck = "\<lparr>ck_name = ''discord'', ck_check = rule check_discord\<rparr>"
  obtain item n where r: "run_service_check discord_world (3, 4) ?ck [] 5 = (item, n)" by fastforce
  have "?ck \<in> set service_checkers" by (simp add: service_checkers_def service_rules_def)
  from service_checks_keep_contract[OF this r] show ?thesis by (auto simp: r Let_def)
qed

subsection \<open>The newest claim is the live one\<close>

text \<open>The claims not released yet, each with its service.\<close>

inductive claims_reachable :: "service_claims \<Rightarrow> (string \<times> nat) set \<Rightarrow> bool" where
  claims_start: "claims_reachable \<lparr>cl_table = Map.empty, cl_next = 0, cl_cancelled = {}\<rparr> {}"
| claims_claim: "claims_reachable c held \<Longrightarrow> claim_service name c = (claim, c') \<Longrightarrow>
     claims_reachable c' (insert (name, claim) held)"
| claims_release: "claims_reachable c held \<Longrightarrow> (name, claim) \<in> held \<Longrightarrow>
     claims_reachable (release_service name claim c) (held - {(name, claim)})"

definition claims_inv :: "service_claims \<Rightarrow> (string \<times> nat) set \<Rightarrow> bool" where
  "claims_inv c held \<longleftrightarrow>
     (\<forall>name claim. cl_table c name = Some claim \<longleftrightarrow> (name, claim) \<in> held \<and> claim \<notin> cl_cancelled c) \<and>
     (\<forall>name claim. (name, claim) \<in> held \<longrightarrow> claim < cl_next c) \<and>
     (\<forall>claim \<in> cl_cancelled c. claim < cl_next c) \<and>
     (\<forall>name a b. (name, a) \<in> held \<and> (name, b) \<in> held \<and> a < b \<longrightarrow> a \<in> cl_cancelled c) \<and>
     (\<forall>n m claim. (n, claim) \<in> held \<and> (m, claim) \<in> held \<longrightarrow> n = m)"

lemma claims_inv_claim:
  assumes "claims_inv c held" "claim_service name c = (claim, c')"
  shows "claims_inv c' (insert (name, claim) held)"
proof -
  have new: "claim = cl_next c" "cl_table c' = (cl_table c)(name \<mapsto> claim)" "cl_next c' = Suc claim"
    "cl_cancelled c' = cl_cancelled c \<union> set_option (cl_table c name)"
    using assms(2) by (auto simp: claim_service_def split: option.splits)
  note i = assms(1)[unfolded claims_inv_def]
  have fresh: "(n, claim) \<notin> held" "claim \<notin> cl_cancelled c" "cl_table c n \<noteq> Some claim" for n
    using i new(1) by auto
  have own: "(n, k) \<in> held \<and> cl_table c name = Some k \<longrightarrow> n = name" for n k
    using i by blast
  show ?thesis
    unfolding claims_inv_def
  proof (intro conjI allI ballI impI)
    fix n k
    show "cl_table c' n = Some k \<longleftrightarrow> (n, k) \<in> insert (name, claim) held \<and> k \<notin> cl_cancelled c'"
      using i fresh own unfolding new by (cases "n = name") auto
  next
    fix n k assume "(n, k) \<in> insert (name, claim) held"
    then show "k < cl_next c'" using i new by (auto intro: less_SucI)
  next
    fix k assume "k \<in> cl_cancelled c'"
    then show "k < cl_next c'" using i new by (auto intro: less_SucI)
  next
    fix n a b assume "(n, a) \<in> insert (name, claim) held \<and> (n, b) \<in> insert (name, claim) held \<and> a < b"
    then consider "b = claim" "n = name" "(name, a) \<in> held" | "a = claim" "(n, b) \<in> held" "a < b"
      | "(n, a) \<in> held" "(n, b) \<in> held" "a < b" by auto
    then show "a \<in> cl_cancelled c'"
    proof cases
      case 1
      then have "a \<in> cl_cancelled c \<or> cl_table c name = Some a" using i by blast
      then show ?thesis unfolding new by auto
    next
      case 2
      then have "b < claim" using i new(1) by blast
      then show ?thesis using 2 by simp
    next
      case 3
      then have "a \<in> cl_cancelled c" using i by blast
      then show ?thesis unfolding new by simp
    qed
  next
    fix n m k assume "(n, k) \<in> insert (name, claim) held \<and> (m, k) \<in> insert (name, claim) held"
    then have "n = name \<and> k = claim \<or> (n, k) \<in> held" "m = name \<and> k = claim \<or> (m, k) \<in> held" by auto
    moreover have "\<forall>n m k. (n, k) \<in> held \<and> (m, k) \<in> held \<longrightarrow> n = m"
      using i by (elim conjE) assumption
    ultimately show "n = m" using fresh(1) by metis
  qed
qed

lemma claims_inv_release:
  assumes "claims_inv c held" "(name, claim) \<in> held"
  shows "claims_inv (release_service name claim c) (held - {(name, claim)})"
proof -
  let ?c = "release_service name claim c"
  note i = assms(1)[unfolded claims_inv_def]
  have unique: "(n, claim) \<in> held \<Longrightarrow> n = name" for n using i assms(2) by blast
  have table: "cl_table c n = Some k \<longleftrightarrow> (n, k) \<in> held \<and> k \<notin> cl_cancelled c" for n k
    using i by blast
  show ?thesis
    unfolding claims_inv_def
  proof (intro conjI allI ballI impI)
    fix n k
    show "cl_table ?c n = Some k \<longleftrightarrow> (n, k) \<in> held - {(name, claim)} \<and> k \<notin> cl_cancelled ?c"
    proof (cases "n = name \<and> cl_table c name = Some claim")
      case True
      then have "(name, k) \<in> held \<and> k \<notin> cl_cancelled c \<longrightarrow> k = claim" using table[of name k] by auto
      then show ?thesis using True by (auto simp: release_service_def)
    next
      case False
      have "cl_table ?c n = cl_table c n" using False by (auto simp: release_service_def)
      moreover have "(n, k) \<in> held \<and> k \<notin> cl_cancelled c \<Longrightarrow> k \<noteq> claim"
        using False table unique by metis
      ultimately show ?thesis by (auto simp: table release_service_def)
    qed
  next
    fix n k assume "(n, k) \<in> held - {(name, claim)}"
    then show "k < cl_next ?c" using i by (auto simp: release_service_def)
  next
    fix k assume "k \<in> cl_cancelled ?c"
    then show "k < cl_next ?c" using i assms(2) by (auto simp: release_service_def)
  next
    fix n a b
    assume "(n, a) \<in> held - {(name, claim)} \<and> (n, b) \<in> held - {(name, claim)} \<and> a < b"
    then have "a \<in> cl_cancelled c" using i by blast
    then show "a \<in> cl_cancelled ?c" by (simp add: release_service_def)
  next
    fix n m k
    assume "(n, k) \<in> held - {(name, claim)} \<and> (m, k) \<in> held - {(name, claim)}"
    then show "n = m" using i by blast
  qed
qed

lemma claims_inv_reachable: "claims_reachable c held \<Longrightarrow> claims_inv c held"
proof (induction rule: claims_reachable.induct)
  case claims_start
  then show ?case by (simp add: claims_inv_def)
qed (auto intro: claims_inv_claim claims_inv_release)

text \<open>C18. However checks are claimed and released, the claim in the table for a service is exactly the
  one of its unreleased claims whose context still runs; so a service has one live check at most, and
  every older one than an unreleased claim is cancelled.\<close>

theorem newest_claim_lives:
  assumes "claims_reachable c held"
  shows "(\<forall>name claim. cl_table c name = Some claim \<longleftrightarrow> (name, claim) \<in> held \<and> claim \<notin> cl_cancelled c) \<and>
    (\<forall>name a b. (name, a) \<in> held \<and> (name, b) \<in> held \<and> a < b \<longrightarrow> a \<in> cl_cancelled c)"
  using claims_inv_reachable[OF assms] unfolding claims_inv_def by (elim conjE, intro conjI) assumption+

definition two_claims :: service_claims where
  "two_claims = \<lparr>cl_table = [''discord'' \<mapsto> 1], cl_next = 2, cl_cancelled = {0}\<rparr>"

lemma two_claims_reachable: "claims_reachable two_claims {(''discord'', 1), (''discord'', 0)}"
proof -
  have "claims_reachable \<lparr>cl_table = [''discord'' \<mapsto> 0], cl_next = 1, cl_cancelled = {}\<rparr> {(''discord'', 0)}"
    by (rule claims_claim[OF claims_start, of "''discord''" 0]) (simp add: claim_service_def)
  then show ?thesis
    by (rule claims_claim[of _ _ "''discord''" 1]) (simp add: claim_service_def two_claims_def)
qed

theorem newest_claim_lives_witness:
  "cl_table two_claims ''discord'' = Some 1 \<and> 0 \<in> cl_cancelled two_claims"
proof -
  note t = newest_claim_lives[OF two_claims_reachable]
  have "0 \<in> cl_cancelled two_claims"
    using t[THEN conjunct2, THEN spec, THEN spec, THEN spec, of "''discord''" 0 1] by simp
  moreover have "cl_table two_claims ''discord'' = Some 1"
    using t[THEN conjunct1, THEN spec, THEN spec, of "''discord''" 1] by (simp add: two_claims_def)
  ultimately show ?thesis by blast
qed

subsection \<open>Scanning for Gemini's region\<close>

lemma index_of_least:
  "prefix w (drop p s) \<Longrightarrow> p \<le> length s \<Longrightarrow> \<exists>i \<le> p. index_of s w = Some i"
proof (induction s arbitrary: p)
  case (Cons c s)
  show ?case
  proof (cases p)
    case 0
    then show ?thesis using Cons.prems by auto
  next
    case (Suc q)
    then obtain i where "i \<le> q" "index_of s w = Some i" using Cons.IH[of q] Cons.prems by auto
    then show ?thesis using Suc by auto
  qed
qed simp

lemma index_of_append: "index_of s w = Some i \<Longrightarrow> index_of (s @ t) w = Some i"
proof (induction s arbitrary: i)
  case Nil
  then show ?case by (cases t) (auto split: if_splits)
next
  case (Cons c s)
  show ?case
  proof (cases "prefix w (c # s)")
    case True
    then have "prefix w ((c # s) @ t)" by (rule prefix_prefix)
    then show ?thesis using True Cons.prems by simp
  next
    case False
    then obtain j where j: "index_of s w = Some j" "i = Suc j" using Cons.prems by auto
    have "length w \<le> length (c # s)" using index_of_Some[OF Cons.prems] by simp
    then have "\<not> prefix w ((c # s) @ t)"
      using False prefix_length_prefix[of w "(c # s) @ t" "c # s"] by auto
    then show ?thesis using False Cons.IH[OF j(1)] j(2) by simp
  qed
qed

lemma index_of_drop:
  assumes "index_of (drop k s) w = Some i"
  shows "\<exists>j \<le> k + i. index_of s w = Some j"
proof -
  have "i + length w \<le> length (drop k s)" "take (length w) (drop i (drop k s)) = w"
    using index_of_Some[OF assms] by auto
  then have "prefix w (drop (k + i) s)"
    by (metis add.commute drop_drop take_is_prefix)
  moreover have "w = [] \<Longrightarrow> index_of s w = Some 0" by (cases s) auto
  moreover have "w \<noteq> [] \<Longrightarrow> k + i \<le> length s"
    using \<open>i + length w \<le> length (drop k s)\<close> by (cases w) auto
  ultimately show ?thesis
    using index_of_least[of w "k + i" s] by (cases "w = []") auto
qed

lemma scan_loop_cases:
  "scan_loop until eager left pieces buffer = buffer @ take left (concat pieces) \<or>
   (\<exists>k. until (drop k (scan_loop until eager left pieces buffer)))"
proof (induction until eager left pieces buffer rule: scan_loop.induct)
  case (1 until eager left pieces buffer)
  obtain bs ended left' rest where
    r: "limited_read eager left probe_scan_chunk pieces = (bs, ended, left', rest)"
    by (metis prod_cases4)
  have n: "0 < probe_scan_chunk" by (simp add: probe_scan_chunk_def)
  note sp = limited_read_split[OF r n]
  let ?until = "until (drop (length buffer - probe_scan_overlap) (buffer @ bs))"
  consider "bs \<noteq> [] \<and> ?until" | "\<not> (bs \<noteq> [] \<and> ?until)" "ended" | "\<not> (bs \<noteq> [] \<and> ?until)" "\<not> ended"
    by blast
  then show ?case
  proof cases
    case 1
    then have "scan_loop until eager left pieces buffer = buffer @ bs"
      using r by (subst scan_loop.simps) (simp add: Let_def)
    then show ?thesis using 1 by metis
  next
    case 2
    then have "scan_loop until eager left pieces buffer = buffer @ bs"
      using r by (subst scan_loop.simps) (auto simp: Let_def)
    then show ?thesis using sp(1) sp(2)[OF 2(2)] by simp
  next
    case 3
    then have "scan_loop until eager left pieces buffer = scan_loop until eager left' rest (buffer @ bs)"
      using r by (subst scan_loop.simps) (auto simp: Let_def)
    then show ?thesis
      using "1.IH"[OF r[symmetric] refl refl refl refl 3(1,2)] sp(1) by simp
  qed
qed

lemma gemini_found_drop: "gemini_found (drop k s) \<Longrightarrow> gemini_found s"
proof -
  assume "gemini_found (drop k s)"
  then obtain i where i: "index_of (drop k s) gemini_region_marker = Some i"
    "i + length gemini_region_marker + 3 \<le> length (drop k s)"
    by (auto simp: gemini_found_def split: option.splits)
  obtain j where "j \<le> k + i" "index_of s gemini_region_marker = Some j"
    using index_of_drop[OF i(1)] by blast
  then show ?thesis using i(2) by (auto simp: gemini_found_def)
qed

lemma gemini_item_prefix:
  "gemini_found s \<Longrightarrow> gemini_item (r\<lparr>res_body := s @ t\<rparr>) item = gemini_item (r\<lparr>res_body := s\<rparr>) item"
  by (auto simp: gemini_found_def gemini_item_def index_of_append Let_def split: option.splits)

text \<open>The verdict on Gemini does not depend on where the scan of its page stopped: judging the
  scanned body gives what judging the whole page, up to the cap, would give, however the page arrives.\<close>

theorem gemini_scan_is_whole_page:
  "gemini_item (r\<lparr>res_body := read_probe_body (Some gemini_found) eager cap pieces\<rparr>) item =
   gemini_item (r\<lparr>res_body := take cap (concat pieces)\<rparr>) item"
proof -
  let ?s = "scan_loop gemini_found eager cap pieces []"
  show ?thesis
  proof (cases "?s = take cap (concat pieces)")
    case False
    then have "gemini_found ?s"
      using scan_loop_cases[of gemini_found eager cap pieces "[]"] gemini_found_drop by auto
    moreover obtain t where "take cap (concat pieces) = ?s @ t"
      using scan_loop_prefix[of gemini_found eager cap pieces "[]"] by (auto simp: prefix_def)
    ultimately show ?thesis using gemini_item_prefix[where s = ?s and t = t] by (simp add: read_probe_body_def)
  qed (simp add: read_probe_body_def)
qed

text \<open>The patterns that read a token or a country out of the answers of Disney+, Spotify and
  Discord are the direct reader of a non-empty string member: its first occurrence in the body, with
  white space allowed around the colon only, up to the next quotation mark.\<close>

theorem json_patterns_read_members:
  "first_submatch disney_assertion_pattern body = string_member ''assertion'' body \<and>
   first_submatch disney_refresh_pattern body = string_member ''refresh_token'' body \<and>
   first_submatch disney_country_pattern body = string_member ''countryCode'' body \<and>
   first_submatch spotify_country_pattern body = string_member ''countryCode'' body \<and>
   first_submatch discord_country_pattern body = string_member ''country_code'' body"
  by (simp add: disney_assertion_pattern_def disney_refresh_pattern_def disney_country_pattern_def
      spotify_country_pattern_def discord_country_pattern_def first_submatch_member)

end
