(* ===== verification/Providers.thy ===== *)
theory Providers
  imports Go_Netip
begin

text \<open>
  \<open>core/provider.go\<close> and \<open>core/geo.go\<close>, with \<open>MethodError\<close> of \<open>core/method.go\<close>: the external providers
  and their updates, the claims that keep one update per resource, how a failed request is
  classified for the host, and the geo resources with their updater.

  A Go error is its message with the chain \<open>errors.As\<close> walks. What mihomo and the network answer is an
  argument. The claims are an interface (locale \<open>exclusive_claims\<close>) interpreted on the code's table.
\<close>

subsection \<open>Errors\<close>

datatype err_kind =
  UrlError | UnknownAuthority | HostnameMismatch | InvalidCertificate | CertificateVerification
| RecordHeader | TlsAlert | DnsError | IpNotFound | ContextDeadline | OsDeadline | OpError
| ConnRefused | ConnReset | EndOfFile | UnexpectedEnd | OtherError

text \<open>A layer of the chain: \<open>Some\<close> timeout flag where its type is a \<open>net.Error\<close>.\<close>

record err_layer =
  ly_kind :: err_kind
  ly_net :: "bool option"

record 'e method_error_of =
  me_code :: string
  me_message :: string
  me_details :: 'e

datatype detail = DText string | DNumber nat

type_synonym details = "(string \<times> detail) list"
type_synonym method_error = "details method_error_of"

text \<open>An error that is, or is not, a \<open>MethodError\<close> already.\<close>

record go_err =
  er_text :: string
  er_chain :: "err_layer list"
  er_method :: "method_error option"

definition as_method_error :: "go_err \<Rightarrow> method_error" where
  "as_method_error e =
     (case er_method e of
        Some m \<Rightarrow> m
      | None \<Rightarrow> \<lparr>me_code = ''core_error'', me_message = er_text e, me_details = []\<rparr>)"

definition has_kind :: "go_err \<Rightarrow> err_kind list \<Rightarrow> bool" where
  "has_kind e kinds \<longleftrightarrow> list_ex (\<lambda>l. ly_kind l \<in> set kinds) (er_chain e)"

text \<open>\<open>errors.As(err, &networkError)\<close>: the first layer that is a \<open>net.Error\<close>.\<close>

definition net_error :: "go_err \<Rightarrow> bool option" where
  "net_error e = Option.bind (find (\<lambda>l. ly_net l \<noteq> None) (er_chain e)) ly_net"

subsection \<open>Classifying a failed request\<close>

record request_failure =
  rf_code :: string
  rf_reason :: string
  rf_status :: nat

definition provider_request_failure_reason :: "go_err \<Rightarrow> string" where
  "provider_request_failure_reason e =
     (if has_kind e [UnknownAuthority, HostnameMismatch, InvalidCertificate, CertificateVerification,
           RecordHeader, TlsAlert] then ''tls''
      else if has_kind e [DnsError, IpNotFound] then ''dns''
      else if has_kind e [ContextDeadline, OsDeadline] \<or> net_error e = Some True then ''timeout''
      else if has_kind e [OpError, ConnRefused, ConnReset, EndOfFile, UnexpectedEnd] then ''connection''
      else [])"

text \<open>The status a message like \<open>404 Not Found\<close> starts with: three digits before a space.\<close>

definition leading_status :: "string \<Rightarrow> nat option" where
  "leading_status message =
     (if 4 \<le> length message \<and> message ! 3 = CHR '' '' \<and> list_all is_digit (take 3 message)
      then (let status = decimal_value (take 3 message)
            in if 100 \<le> status \<and> status \<le> 599 then Some status else None)
      else None)"

definition classify_provider_request_error :: "go_err \<Rightarrow> request_failure option" where
  "classify_provider_request_error e =
     (case leading_status (er_text e) of
        Some status \<Rightarrow> Some \<lparr>rf_code = ''request_bad_response'', rf_reason = [], rf_status = status\<rparr>
      | None \<Rightarrow>
          (let reason = provider_request_failure_reason e
           in if reason \<noteq> [] \<or> has_kind e [UrlError] \<or> net_error e \<noteq> None
              then Some \<lparr>rf_code = ''request_error'', rf_reason = reason, rf_status = 0\<rparr>
              else None))"

definition request_method_error :: "go_err \<Rightarrow> details \<Rightarrow> method_error option" where
  "request_method_error e details =
     map_option (\<lambda>f. \<lparr>me_code = rf_code f, me_message = er_text e,
         me_details = details
           @ (if rf_reason f \<noteq> [] then [(''reason'', DText (rf_reason f))] else [])
           @ (if rf_status f \<noteq> 0 then [(''statusCode'', DNumber (rf_status f))] else [])\<rparr>)
       (classify_provider_request_error e)"

definition provider_error :: "string \<Rightarrow> string \<Rightarrow> string \<Rightarrow> method_error" where
  "provider_error code name message =
     \<lparr>me_code = code, me_message = message, me_details = [(''providerName'', DText name)]\<rparr>"

definition provider_update_error :: "string \<Rightarrow> go_err \<Rightarrow> method_error" where
  "provider_update_error name e =
     (case request_method_error e [(''providerName'', DText name)] of
        Some m \<Rightarrow> m
      | None \<Rightarrow> provider_error ''provider_update_error'' name (er_text e))"

subsection \<open>Claims on a resource\<close>

text \<open>The claims by key; the flag marks those taken for mihomo's own updater.\<close>

type_synonym update_claims = "string \<rightharpoonup> bool"

definition claim_update_as :: "string \<Rightarrow> bool \<Rightarrow> update_claims \<Rightarrow> bool \<times> update_claims" where
  "claim_update_as key from_hook c =
     (case c key of Some _ \<Rightarrow> (False, c) | None \<Rightarrow> (True, c(key \<mapsto> from_hook)))"

definition claim_update :: "string \<Rightarrow> update_claims \<Rightarrow> bool \<times> update_claims" where
  "claim_update key c = claim_update_as key False c"

definition release_update :: "string \<Rightarrow> update_claims \<Rightarrow> update_claims" where
  "release_update key c = c(key := None)"

definition release_hook_update :: "string \<Rightarrow> update_claims \<Rightarrow> update_claims" where
  "release_hook_update key c = (if c key = Some True then c(key := None) else c)"

text \<open>What an update relies on, whatever holds the claims.\<close>

locale exclusive_claims =
  fixes claimed :: "'c \<Rightarrow> string \<Rightarrow> bool"
    and acquire :: "string \<Rightarrow> 'c \<Rightarrow> bool \<times> 'c"
    and give_back :: "string \<Rightarrow> 'c \<Rightarrow> 'c"
  assumes acquire_iff: "fst (acquire k c) \<longleftrightarrow> \<not> claimed c k"
    and acquire_claims: "\<not> claimed c k \<Longrightarrow> claimed (snd (acquire k c)) k' \<longleftrightarrow> k' = k \<or> claimed c k'"
    and acquire_refused: "claimed c k \<Longrightarrow> snd (acquire k c) = c"
    and give_back_frees: "claimed (give_back k c) k' \<longleftrightarrow> k' \<noteq> k \<and> claimed c k'"
begin

lemma bracket: "fst (acquire k c) \<Longrightarrow> claimed (give_back k (snd (acquire k c))) k' \<longleftrightarrow> claimed c k'"
  by (auto simp: acquire_iff acquire_claims give_back_frees)

lemma second_refused: "fst (acquire k c) \<Longrightarrow> \<not> fst (acquire k (snd (acquire k c)))"
  by (simp add: acquire_iff acquire_claims)

lemma others_free: "fst (acquire k c) \<Longrightarrow> k' \<noteq> k \<Longrightarrow> fst (acquire k' (snd (acquire k c))) \<longleftrightarrow> fst (acquire k' c)"
  by (simp add: acquire_iff acquire_claims)

lemma refused_keeps: "\<not> fst (acquire k c) \<Longrightarrow> snd (acquire k c) = c"
  by (simp add: acquire_iff acquire_refused)

end

interpretation updates: exclusive_claims "\<lambda>c k. c k \<noteq> None" claim_update release_update
  by unfold_locales
    (auto simp: claim_update_def claim_update_as_def release_update_def split: option.splits)

subsection \<open>External providers\<close>

datatype vehicle = CompatibleVehicle | OtherVehicle string

datatype provider_class = ProxySet | RuleSet | UnknownProvider

record 'i provider =
  pv_name :: string
  pv_class :: provider_class
  pv_vehicle :: vehicle
  pv_type :: string
  pv_vehicle_type :: string
  pv_count :: nat
  pv_updated :: int
  pv_path :: string
  pv_subscription :: "'i option"

text \<open>mihomo's snapshots, each with distinct names.\<close>

record 'i providers =
  ps_proxies :: "(string \<times> 'i provider) list"
  ps_rules :: "(string \<times> 'i provider) list"

definition external :: "(string \<times> 'i provider) list \<Rightarrow> (string \<times> 'i provider) list" where
  "external ps = filter (\<lambda>(n, p). pv_vehicle p \<noteq> CompatibleVehicle) ps"

text \<open>A rule provider takes the place of a proxy provider of the same name.\<close>

definition external_providers :: "'i providers \<Rightarrow> (string \<times> 'i provider) list" where
  "external_providers ps =
     filter (\<lambda>(n, p). n \<notin> fst ` set (external (ps_rules ps))) (external (ps_proxies ps))
       @ external (ps_rules ps)"

definition lookup_external_provider :: "'i providers \<Rightarrow> string \<Rightarrow> 'i provider option" where
  "lookup_external_provider ps name =
     (case map_of (ps_rules ps) name of
        Some p \<Rightarrow>
          if pv_vehicle p \<noteq> CompatibleVehicle then Some p
          else (case map_of (ps_proxies ps) name of
                  Some q \<Rightarrow> if pv_vehicle q \<noteq> CompatibleVehicle then Some q else None
                | None \<Rightarrow> None)
      | None \<Rightarrow>
          (case map_of (ps_proxies ps) name of
             Some q \<Rightarrow> if pv_vehicle q \<noteq> CompatibleVehicle then Some q else None
           | None \<Rightarrow> None))"

record 'i external_provider =
  ep_name :: string
  ep_type :: string
  ep_vehicle_type :: string
  ep_count :: nat
  ep_updated :: int
  ep_path :: string
  ep_subscription :: "'i option"

definition to_external_provider :: "'i provider \<Rightarrow> 'i external_provider option" where
  "to_external_provider p =
     (if pv_class p = UnknownProvider then None
      else Some \<lparr>ep_name = pv_name p, ep_type = pv_type p, ep_vehicle_type = pv_vehicle_type p,
        ep_count = pv_count p, ep_updated = pv_updated p, ep_path = pv_path p,
        ep_subscription = (if pv_class p = ProxySet then pv_subscription p else None)\<rparr>)"

definition handle_get_external_providers :: "'i providers \<Rightarrow> 'i external_provider list" where
  "handle_get_external_providers ps =
     sort_key ep_name (List.map_filter (\<lambda>(n, p). to_external_provider p) (external_providers ps))"

definition handle_get_external_provider :: "'i providers \<Rightarrow> string \<Rightarrow> 'i external_provider option" where
  "handle_get_external_provider ps name =
     Option.bind (lookup_external_provider ps name) to_external_provider"

text \<open>
  An update up to the moment it runs, and from its end on; other updates may come between. The flag
  of the end is whether the route is refreshed.
\<close>

definition begin_update ::
  "'i providers \<Rightarrow> string \<Rightarrow> update_claims \<Rightarrow> (method_error + 'i provider) \<times> update_claims" where
  "begin_update ps name c =
     (case lookup_external_provider ps name of
        None \<Rightarrow> (Inl (provider_error ''provider_not_found'' name ''external provider does not exist''), c)
      | Some p \<Rightarrow>
          (case claim_update (''provider:'' @ name) c of
             (False, c1) \<Rightarrow> (Inl (provider_error ''provider_updating'' name ''external provider is updating''), c1)
           | (True, c1) \<Rightarrow> (Inr p, c1)))"

definition end_update ::
  "string \<Rightarrow> method_error option \<Rightarrow> update_claims \<Rightarrow> method_error option \<times> bool \<times> update_claims" where
  "end_update name outcome c =
     (outcome, outcome = None, release_update (''provider:'' @ name) c)"

definition update_external_provider ::
  "'i providers \<Rightarrow> string \<Rightarrow> ('i provider \<Rightarrow> method_error option) \<Rightarrow> update_claims
   \<Rightarrow> method_error option \<times> bool \<times> update_claims" where
  "update_external_provider ps name update c =
     (case begin_update ps name c of
        (Inl e, c1) \<Rightarrow> (Some e, False, c1)
      | (Inr p, c1) \<Rightarrow> end_update name (update p) c1)"

definition handle_update_external_provider ::
  "'i providers \<Rightarrow> ('i provider \<Rightarrow> go_err option) \<Rightarrow> string \<Rightarrow> update_claims
   \<Rightarrow> method_error option \<times> bool \<times> update_claims" where
  "handle_update_external_provider ps fetch name c =
     update_external_provider ps name (\<lambda>p. map_option (provider_update_error name) (fetch p)) c"

definition side_update_external_provider ::
  "('i provider \<Rightarrow> string \<Rightarrow> string option) \<Rightarrow> 'i provider \<Rightarrow> string \<Rightarrow> string option" where
  "side_update_external_provider load p data =
     (if pv_class p = UnknownProvider then Some ''not external provider'' else load p data)"

definition handle_side_load_external_provider ::
  "'i providers \<Rightarrow> ('i provider \<Rightarrow> string \<Rightarrow> string option) \<Rightarrow> string \<Rightarrow> string \<Rightarrow> update_claims
   \<Rightarrow> method_error option \<times> bool \<times> update_claims" where
  "handle_side_load_external_provider ps load name data c =
     update_external_provider ps name
       (\<lambda>p. map_option (provider_error ''provider_update_error'' name)
              (side_update_external_provider load p data)) c"

text \<open>
  \<open>handleDumpRuleSet\<close> tries the two behaviours in turn; \<open>convert\<close> is mihomo's \<open>ConvertToMrs\<close> run
  backwards, with its error.
\<close>

datatype rule_behavior = DomainRules | IpCidrRules | ClassicalRules

fun dump_attempts ::
  "(rule_behavior \<Rightarrow> bytes \<Rightarrow> string + string) \<Rightarrow> bytes \<Rightarrow> rule_behavior list \<Rightarrow> string list \<Rightarrow> string + string" where
  "dump_attempts convert buf [] errs = Inl (join [CHR 0x0A] errs)"
| "dump_attempts convert buf (b # bs) errs =
     (case convert b buf of Inr text \<Rightarrow> Inr text | Inl e \<Rightarrow> dump_attempts convert buf bs (errs @ [e]))"

definition handle_dump_rule_set ::
  "(rule_behavior \<Rightarrow> bytes \<Rightarrow> string + string) \<Rightarrow> string + bytes \<Rightarrow> string + string" where
  "handle_dump_rule_set convert file =
     (case file of
        Inl e \<Rightarrow> Inl e
      | Inr buf \<Rightarrow> dump_attempts convert buf [DomainRules, IpCidrRules] [])"

subsection \<open>Clearing a profile's providers\<close>

text \<open>Paths are their elements; the last is the decimal of the id.\<close>

definition format_int :: "int \<Rightarrow> string" where
  "format_int k = (if k < 0 then CHR ''-'' # show_nat (nat (- k)) else show_nat (nat k))"

definition provider_paths :: "string list \<Rightarrow> int \<Rightarrow> string list \<times> string list" where
  "provider_paths home profile_id =
     (home @ [''profiles'', ''providers''], home @ [''profiles'', ''providers'', format_int profile_id])"

text \<open>
  The entries of the file system by their paths. \<open>os.RemoveAll\<close> takes a path away with all below it,
  or fails (\<open>Some\<close> error) having kept some of it; \<open>os.Remove\<close> refuses a directory that is not empty, and
  may fail anyway.
\<close>

type_synonym entries = "string list list"

definition remove_all :: "(string \<times> (string list \<Rightarrow> bool)) option \<Rightarrow> string list \<Rightarrow> entries \<Rightarrow> string option \<times> entries" where
  "remove_all failure path es =
     (case failure of
        None \<Rightarrow> (None, filter (\<lambda>e. \<not> prefix path e) es)
      | Some (err, kept) \<Rightarrow> (Some err, filter (\<lambda>e. \<not> prefix path e \<or> kept e) es))"

definition remove_dir :: "bool \<Rightarrow> string list \<Rightarrow> entries \<Rightarrow> entries" where
  "remove_dir ok path es =
     (if ok \<and> \<not> list_ex (strict_prefix path) es then filter (\<lambda>e. e \<noteq> path) es else es)"

definition handle_clear_effect ::
  "bool \<Rightarrow> string list \<Rightarrow> (string \<times> (string list \<Rightarrow> bool)) option \<Rightarrow> bool \<Rightarrow> int \<Rightarrow> entries \<Rightarrow> string option \<times> entries" where
  "handle_clear_effect is_init home failure root_ok profile_id es =
     (if \<not> is_init then (Some ''not initialized'', es)
      else if profile_id \<le> 0 then (Some ''invalid profile id'', es)
      else (case provider_paths home profile_id of (root, target) \<Rightarrow>
              (case remove_all failure target es of
                 (Some err, es1) \<Rightarrow> (Some err, es1)
               | (None, es1) \<Rightarrow> (None, remove_dir root_ok root es1))))"

subsection \<open>Geo resources\<close>

definition geo_types :: "string list" where
  "geo_types = [''MMDB'', ''ASN'', ''GEOIP'', ''GEOSITE'']"

text \<open>The links in force, mihomo's updater settings, and how often each link was written.\<close>

record geo_state =
  ge_urls :: "string \<Rightarrow> string"
  ge_writes :: "string \<Rightarrow> nat"
  ge_auto :: bool
  ge_interval :: int
  ge_registered :: nat
  ge_stopped :: nat

definition set_geo_resource_url :: "string \<Rightarrow> string \<Rightarrow> geo_state \<Rightarrow> geo_state" where
  "set_geo_resource_url geo_type link g =
     (let t = to_upper geo_type
      in if t \<notin> set geo_types then g
         else if link \<noteq> [] \<and> link \<noteq> ge_urls g t
         then g\<lparr>ge_urls := (ge_urls g)(t := link), ge_writes := (ge_writes g)(t := Suc (ge_writes g t))\<rparr>
         else g)"

text \<open>The start of a manual geo update, and its end on a goroutine of its own.\<close>

definition handle_update_geo_data :: "string \<Rightarrow> update_claims \<Rightarrow> string option \<times> update_claims" where
  "handle_update_geo_data geo_type c =
     (if geo_type \<notin> set geo_types then (Some (''unknown geo resource: '' @ geo_type), c)
      else (case claim_update (''geo:'' @ geo_type) c of
          (False, c1) \<Rightarrow> (Some (''geo update already in progress: '' @ geo_type), c1)
        | (True, c1) \<Rightarrow> (None, c1)))"

definition finish_geo_update :: "string \<Rightarrow> update_claims \<Rightarrow> update_claims" where
  "finish_geo_update geo_type c = release_update (''geo:'' @ geo_type) c"

record geo_update_status =
  gs_type :: string
  gs_updating :: bool
  gs_skipped :: bool
  gs_error :: string

text \<open>mihomo's hook: the claims, whether the route is moved, and the status sent to the host.\<close>

definition on_geo_update ::
  "string \<Rightarrow> bool \<Rightarrow> bool \<Rightarrow> string option \<Rightarrow> update_claims \<Rightarrow> bool \<times> geo_update_status \<times> update_claims" where
  "on_geo_update geo_type updating skipped err c =
     (let status = \<lparr>gs_type = geo_type, gs_updating = updating, gs_skipped = skipped,
                    gs_error = (case err of None \<Rightarrow> [] | Some e \<Rightarrow> e)\<rparr>
      in if updating then (False, status, snd (claim_update_as (''geo:'' @ geo_type) True c))
         else (\<not> skipped \<and> err = None, status, release_hook_update (''geo:'' @ geo_type) c))"

definition reconcile_geo_updater :: "geo_state \<Rightarrow> geo_state" where
  "reconcile_geo_updater g =
     (if ge_auto g then g\<lparr>ge_registered := Suc (ge_registered g)\<rparr>
      else g\<lparr>ge_stopped := Suc (ge_stopped g)\<rparr>)"

definition sync_geo_updater :: "bool option \<Rightarrow> int option \<Rightarrow> geo_state \<Rightarrow> geo_state" where
  "sync_geo_updater auto_update interval g =
     (let auto_changed = (case auto_update of None \<Rightarrow> False | Some a \<Rightarrow> a \<noteq> ge_auto g);
          interval_changed = (case interval of None \<Rightarrow> False | Some i \<Rightarrow> i \<noteq> ge_interval g);
          g1 = (if auto_changed then g\<lparr>ge_auto := the auto_update\<rparr> else g);
          g2 = (if interval_changed then g1\<lparr>ge_interval := the interval\<rparr> else g1)
      in if auto_changed \<or> interval_changed then reconcile_geo_updater g2 else g2)"

subsection \<open>One update per resource\<close>

text \<open>
  The manual updates that run, by key, beside mihomo's own geo updates, which tell of their start and
  end through the hook and are not bound by the claims.
\<close>

record update_system =
  us_claims :: update_claims
  us_running :: "string set"

inductive update_step :: "'i providers \<Rightarrow> update_system \<Rightarrow> update_system \<Rightarrow> bool" for ps where
  provider_starts: "begin_update ps name (us_claims s) = (Inr p, c) \<Longrightarrow>
     update_step ps s (s\<lparr>us_claims := c, us_running := insert (''provider:'' @ name) (us_running s)\<rparr>)"
| provider_refused: "begin_update ps name (us_claims s) = (Inl e, c) \<Longrightarrow>
     update_step ps s (s\<lparr>us_claims := c\<rparr>)"
| provider_ends: "''provider:'' @ name \<in> us_running s \<Longrightarrow>
     update_step ps s (s\<lparr>us_claims := snd (snd (end_update name outcome (us_claims s))),
       us_running := us_running s - {''provider:'' @ name}\<rparr>)"
| geo_starts: "handle_update_geo_data t (us_claims s) = (None, c) \<Longrightarrow>
     update_step ps s (s\<lparr>us_claims := c, us_running := insert (''geo:'' @ t) (us_running s)\<rparr>)"
| geo_refused: "handle_update_geo_data t (us_claims s) = (Some e, c) \<Longrightarrow>
     update_step ps s (s\<lparr>us_claims := c\<rparr>)"
| geo_ends: "''geo:'' @ t \<in> us_running s \<Longrightarrow>
     update_step ps s (s\<lparr>us_claims := finish_geo_update t (us_claims s),
       us_running := us_running s - {''geo:'' @ t}\<rparr>)"
| geo_hook: "update_step ps s (s\<lparr>us_claims := snd (snd (on_geo_update t updating skipped err (us_claims s)))\<rparr>)"

inductive update_reachable :: "'i providers \<Rightarrow> update_system \<Rightarrow> bool" for ps where
  update_reach_start: "update_reachable ps \<lparr>us_claims = Map.empty, us_running = {}\<rparr>"
| update_reach_step: "update_reachable ps s \<Longrightarrow> update_step ps s s' \<Longrightarrow> update_reachable ps s'"

definition update_inv :: "update_system \<Rightarrow> bool" where
  "update_inv s \<longleftrightarrow> (\<forall>k. k \<in> us_running s \<longleftrightarrow> us_claims s k = Some False)"

lemma begin_update_cases:
  "begin_update ps name c = (r, c') \<Longrightarrow>
   (case r of Inl _ \<Rightarrow> c' = c
    | Inr _ \<Rightarrow> c (''provider:'' @ name) = None \<and> c' = c(''provider:'' @ name \<mapsto> False))"
  by (auto simp: begin_update_def claim_update_def claim_update_as_def split: option.splits prod.splits bool.splits)

lemma handle_update_geo_data_cases:
  "handle_update_geo_data t c = (r, c') \<Longrightarrow>
   (case r of Some _ \<Rightarrow> c' = c | None \<Rightarrow> c (''geo:'' @ t) = None \<and> c' = c(''geo:'' @ t \<mapsto> False))"
  by (auto simp: handle_update_geo_data_def claim_update_def claim_update_as_def
      split: option.splits if_splits)

lemma update_inv_step: "update_step ps s s' \<Longrightarrow> update_inv s \<Longrightarrow> update_inv s'"
proof (induction rule: update_step.induct)
  case (provider_starts name s p c)
  then show ?case using begin_update_cases[OF provider_starts(1)] by (auto simp: update_inv_def)
next
  case (provider_refused name s e c)
  then show ?case using begin_update_cases[OF provider_refused(1)] by (auto simp: update_inv_def)
next
  case (provider_ends name s outcome)
  then show ?case by (auto simp: update_inv_def end_update_def release_update_def)
next
  case (geo_starts t s c)
  then show ?case using handle_update_geo_data_cases[OF geo_starts(1)] by (auto simp: update_inv_def)
next
  case (geo_refused t s e c)
  then show ?case using handle_update_geo_data_cases[OF geo_refused(1)] by (auto simp: update_inv_def)
next
  case (geo_ends t s)
  then show ?case by (auto simp: update_inv_def finish_geo_update_def release_update_def)
next
  case (geo_hook s t updating skipped err)
  then show ?case
    by (auto simp: update_inv_def on_geo_update_def release_hook_update_def claim_update_as_def Let_def
        split: option.splits)
qed

lemma update_inv_reachable: "update_reachable ps s \<Longrightarrow> update_inv s"
proof (induction rule: update_reachable.induct)
  case update_reach_start
  then show ?case by (simp add: update_inv_def)
next
  case (update_reach_step s s')
  then show ?case by (blast intro: update_inv_step)
qed


definition geo_updating :: update_system where
  "geo_updating = \<lparr>us_claims = [''geo:ASN'' \<mapsto> False], us_running = {''geo:ASN''}\<rparr>"

lemma geo_updating_reachable: "update_reachable (\<lparr>ps_proxies = [], ps_rules = []\<rparr> :: unit providers) geo_updating"
proof -
  have "update_step (\<lparr>ps_proxies = [], ps_rules = []\<rparr> :: unit providers)
      \<lparr>us_claims = Map.empty, us_running = {}\<rparr> geo_updating"
    using geo_starts[of "''ASN''" "\<lparr>us_claims = Map.empty, us_running = {}\<rparr>" "[''geo:ASN'' \<mapsto> False]"]
    by (simp add: geo_updating_def handle_update_geo_data_def geo_types_def claim_update_def
        claim_update_as_def)
  then show ?thesis by (blast intro: update_reachable.intros)
qed


text \<open>A failed update of a provider is reported under one of five codes, names the provider in its
  details and, when the server answered with an error status, that status; it refreshes no route.
  A successful one refreshes it. Either way the claims are what they were before.\<close>

theorem provider_update_outcome:
  "case handle_update_external_provider ps fetch name c of (outcome, refreshes, c') \<Rightarrow>
     c' = c \<and> refreshes = (outcome = None) \<and>
     (case outcome of None \<Rightarrow> \<exists>p. lookup_external_provider ps name = Some p \<and> fetch p = None
      | Some m \<Rightarrow>
          me_code m \<in> {''provider_not_found'', ''provider_updating'', ''request_bad_response'',
                       ''request_error'', ''provider_update_error''} \<and>
          (''providerName'', DText name) \<in> set (me_details m) \<and>
          ((me_code m = ''request_bad_response'') =
             (\<exists>status \<in> {100..599}. (''statusCode'', DNumber status) \<in> set (me_details m))))"
proof -
  have status: "100 \<le> n \<and> n \<le> 599" if "leading_status t = Some n" for t n
    using that by (auto simp: leading_status_def Let_def split: if_splits)
  have m: "me_code (provider_update_error name e) \<in>
        {''request_bad_response'', ''request_error'', ''provider_update_error''} \<and>
      (''providerName'', DText name) \<in> set (me_details (provider_update_error name e)) \<and>
      ((me_code (provider_update_error name e) = ''request_bad_response'') =
       (\<exists>status \<in> {100..599}. (''statusCode'', DNumber status) \<in> set (me_details (provider_update_error name e))))"
    for e
    using status[of "er_text e"]
    by (auto simp: provider_update_error_def request_method_error_def provider_error_def
        classify_provider_request_error_def Let_def split: option.splits)
  show ?thesis
  proof (cases "begin_update ps name c")
    case (Pair r c1)
    show ?thesis
    proof (cases r)
      case (Inl e)
      then have "me_code e = ''provider_not_found'' \<or> me_code e = ''provider_updating''"
        "me_details e = [(''providerName'', DText name)]"
        using Pair by (auto simp: begin_update_def provider_error_def split: option.splits prod.splits bool.splits)
      then show ?thesis using Inl Pair begin_update_cases[OF Pair]
        by (auto simp: handle_update_external_provider_def update_external_provider_def)
    next
      case (Inr p)
      then have l: "lookup_external_provider ps name = Some p"
        using Pair by (auto simp: begin_update_def split: option.splits prod.splits bool.splits)
      have "c1(''provider:'' @ name := None) = c"
        using begin_update_cases[OF Pair] Inr by auto
      then show ?thesis using Inr Pair l m
        by (cases "fetch p")
           (auto simp: handle_update_external_provider_def update_external_provider_def end_update_def
             release_update_def)
    qed
  qed
qed


subsection \<open>Clearing stays below the profile\<close>

text \<open>The last element of what is removed is the decimal of a positive number: no separator, no dots.\<close>

lemma profile_element: "0 < k \<Longrightarrow> list_all is_digit (format_int k) \<and> format_int k \<noteq> []"
  by (simp add: format_int_def show_nat_digits)

lemma remove_all_set:
  "set (snd (remove_all failure path es)) \<subseteq> set es"
  "e \<in> set es \<Longrightarrow> \<not> prefix path e \<Longrightarrow> e \<in> set (snd (remove_all failure path es))"
  "fst (remove_all failure path es) = None \<Longrightarrow> e \<in> set (snd (remove_all failure path es)) \<Longrightarrow> \<not> prefix path e"
  by (auto simp: remove_all_def split: option.splits)

lemma remove_dir_set:
  "set (remove_dir ok path es) \<subseteq> set es"
  "e \<in> set es \<Longrightarrow> e \<noteq> path \<Longrightarrow> e \<in> set (remove_dir ok path es)"
  "path \<in> set es \<Longrightarrow> path \<notin> set (remove_dir ok path es) \<Longrightarrow> e \<in> set (remove_dir ok path es) \<Longrightarrow> \<not> strict_prefix path e"
  by (auto simp: remove_dir_def list_ex_iff split: if_splits)

lemma clear_effect_cases:
  obtains (kept) err where "handle_clear_effect is_init home failure root_ok k es = (Some err, es)" "\<not> (is_init \<and> 0 < k)"
  | (failed) err where "is_init" "0 < k"
      "handle_clear_effect is_init home failure root_ok k es = (Some err, snd (remove_all failure (snd (provider_paths home k)) es))"
  | (cleared) "is_init" "0 < k" "fst (remove_all failure (snd (provider_paths home k)) es) = None"
      "handle_clear_effect is_init home failure root_ok k es =
         (None, remove_dir root_ok (fst (provider_paths home k)) (snd (remove_all failure (snd (provider_paths home k)) es)))"
proof (cases "is_init \<and> 0 < k")
  case False
  then show thesis using kept by (cases is_init) (simp_all add: handle_clear_effect_def)
next
  case True
  then show thesis
    using failed cleared
    by (cases "remove_all failure (snd (provider_paths home k)) es"; cases "fst (remove_all failure (snd (provider_paths home k)) es)")
      (auto simp: handle_clear_effect_def provider_paths_def)
qed

lemma clear_effect_facts:
  assumes "handle_clear_effect is_init home failure root_ok k es = (r, es')" "provider_paths home k = (root, target)"
  shows "set es - set es' \<subseteq> (if is_init \<and> 0 < k then insert root {e. prefix target e} else {}) \<and>
    set es' \<subseteq> set es \<and>
    {e \<in> set es'. r = None \<and> prefix target e} = {} \<and>
    {e \<in> set es'. root \<in> set es - set es' \<and> strict_prefix root e} = {}"
proof -
  have far: "\<not> prefix target root" using assms(2) by (auto simp: provider_paths_def dest!: prefix_length_le)
  show ?thesis
  proof (cases rule: clear_effect_cases[of is_init home failure root_ok k es])
    case (kept err)
    then show ?thesis using assms(1) by auto
  next
    case (failed err)
    then show ?thesis
      using assms remove_all_set[where failure = failure and path = target and es = es] far by auto
  next
    case cleared
    let ?es = "snd (remove_all failure target es)"
    have es': "es' = remove_dir root_ok root ?es" "r = None" "fst (remove_all failure target es) = None"
      using cleared assms by auto
    note a = remove_all_set[where failure = failure and path = target and es = es]
    note d = remove_dir_set[where ok = root_ok and path = root and es = ?es]
    have "set es - set es' \<subseteq> insert root {e. prefix target e}"
      unfolding es'(1) using a(2) d(2) by blast
    moreover have "set es' \<subseteq> set es" "{e \<in> set es'. r = None \<and> prefix target e} = {}"
      unfolding es'(1) using a(1,3) d(1) es'(3) by blast+
    moreover have "{e \<in> set es'. root \<in> set es - set es' \<and> strict_prefix root e} = {}"
      unfolding es'(1) using a(2)[of root] d(3) far by blast
    ultimately show ?thesis using cleared(1,2) by simp
  qed
qed

text \<open>C20. Clearing a profile's effects removes nothing but what lies under the provider directory named by
  the decimal of its positive id, and the directory of all of them when it is empty; when it answers
  without an error nothing of the profile's is left.\<close>

theorem clear_effect_stays_inside:
  "case provider_paths home k of (root, target) \<Rightarrow>
   case handle_clear_effect is_init home failure root_ok k es of (r, es') \<Rightarrow>
     set es - set es' \<subseteq> (if is_init \<and> 0 < k then insert root {e. prefix target e} else {}) \<and>
     set es' \<subseteq> set es \<and>
     {e \<in> set es'. r = None \<and> prefix target e} = {} \<and>
     {e \<in> set es'. root \<in> set es - set es' \<and> strict_prefix root e} = {} \<and>
     (0 < k) = (k \<noteq> 0 \<and> last target \<noteq> [] \<and> list_all is_digit (last target))"
proof -
  obtain root target r es' where e: "provider_paths home k = (root, target)"
      "handle_clear_effect is_init home failure root_ok k es = (r, es')"
    by fastforce
  have "last target = format_int k" using e(1) by (auto simp: provider_paths_def)
  then have "(0 < k) = (k \<noteq> 0 \<and> last target \<noteq> [] \<and> list_all is_digit (last target))"
    using profile_element[of k] by (auto simp: format_int_def is_digit_def show_nat_digits)
  then show ?thesis
    using clear_effect_facts[OF e(2,1)] by (simp only: e prod.case)
qed

end
