(* ===== verification/Rule_Sets.thy ===== *)
theory Rule_Sets
  imports Providers
begin

text \<open>
  \<open>core/rule_set.go\<close>: rule sets, classified as domains, address ranges or rules, compiled to mihomo's
  \<open>mrs\<close> form and written beside their source. The YAML decoder and mihomo's converter are arguments.

  The lemmas show where a rule set may be written, that a write replaces its file or leaves it as it
  was, and what a classified set holds.
\<close>

definition err_rule_set_empty :: method_error where
  "err_rule_set_empty = \<lparr>me_code = ''rule_set_empty'', me_message = ''rule set has no usable entries'',
     me_details = []\<rparr>"

definition err_rule_set_mixed :: method_error where
  "err_rule_set_mixed = \<lparr>me_code = ''rule_set_mixed'', me_message = ''rule set mixes domains and IP ranges'',
     me_details = []\<rparr>"

definition err_rule_set_invalid :: method_error where
  "err_rule_set_invalid = \<lparr>me_code = ''rule_set_invalid'',
     me_message = ''rule set is not a readable mrs file'', me_details = []\<rparr>"

definition zstd_magic :: bytes where
  "zstd_magic = [CHR 0x28, CHR 0xB5, CHR 0x2F, CHR 0xFD]"

subsection \<open>Where a rule set is kept\<close>

definition cache_name_char :: "char \<Rightarrow> bool" where
  "cache_name_char c \<longleftrightarrow> is_letter c \<or> is_digit c \<or> c = CHR ''.'' \<or> c = CHR ''-'' \<or> c = CHR ''_''"

text \<open>Paths are their elements.\<close>

definition rule_set_cache_path :: "string list \<Rightarrow> string \<Rightarrow> string list option" where
  "rule_set_cache_path home name =
     (if name = [] \<or> hd name = CHR ''.'' then None
      else if \<not> list_all cache_name_char name then None
      else Some (home @ [''providers'', ''rules'', name]))"

subsection \<open>Classifying\<close>

definition plain_domain :: "string \<Rightarrow> bool" where
  "plain_domain value \<longleftrightarrow> value \<noteq> [] \<and> hd value \<noteq> CHR ''.'' \<and>
     \<not> list_ex (\<lambda>c. c \<in> {CHR ''+'', CHR ''*'', CHR ''/''}) value"

definition parse_cidr :: "string \<Rightarrow> string option" where
  "parse_cidr entry =
     (if parse_prefix entry \<noteq> None then Some entry
      else map_option (\<lambda>a. show_single_prefix (with_zone [] a)) (parse_addr entry))"

text \<open>One entry of a classical set: a domain, a range, or neither.\<close>

datatype classical_key = DomainKey string | CidrKey string

definition classical_entry :: "string \<Rightarrow> classical_key option" where
  "classical_entry entry =
     (case cut CHR '','' entry of (rule_type, rest, found) \<Rightarrow>
        if \<not> found \<or> contains rest '','' then None
        else (let value = trim_space rest; kind = to_upper (trim_space rule_type)
              in if kind = ''DOMAIN''
                 then (if plain_domain value then Some (DomainKey value) else None)
                 else if kind = ''DOMAIN-SUFFIX''
                 then (if plain_domain value then Some (DomainKey (''+.'' @ value)) else None)
                 else if kind = ''IP-CIDR'' \<or> kind = ''IP-CIDR6''
                 then (if parse_prefix value \<noteq> None then Some (CidrKey value) else None)
                 else None))"

fun classical_loop :: "string list \<Rightarrow> string list \<Rightarrow> string list \<Rightarrow> (string list \<times> string list) option" where
  "classical_loop [] domains cidrs = Some (domains, cidrs)"
| "classical_loop (entry # entries) domains cidrs =
     (case classical_entry entry of
        None \<Rightarrow> None
      | Some (DomainKey d) \<Rightarrow> classical_loop entries (domains @ [d]) cidrs
      | Some (CidrKey k) \<Rightarrow> classical_loop entries domains (cidrs @ [k]))"

definition classify_classical :: "string list \<Rightarrow> rule_behavior \<times> string list" where
  "classify_classical entries =
     (case classical_loop entries [] [] of
        None \<Rightarrow> (ClassicalRules, [])
      | Some (domains, cidrs) \<Rightarrow>
          if cidrs = [] then (DomainRules, domains)
          else if domains = [] then (IpCidrRules, cidrs)
          else (ClassicalRules, []))"

definition classify_rule_set :: "string list \<Rightarrow> method_error + rule_behavior \<times> string list" where
  "classify_rule_set entries =
     (if entries = [] then Inl err_rule_set_empty
      else if list_ex (\<lambda>entry. contains entry '','') entries then Inr (classify_classical entries)
      else (let cidrs = List.map_filter parse_cidr entries
            in if length cidrs = 0 then Inr (DomainRules, entries)
               else if length cidrs = length entries then Inr (IpCidrRules, cidrs)
               else Inl err_rule_set_mixed))"

subsection \<open>Compiling\<close>

datatype rule_format = YamlFormat | TextFormat | MrsFormat

record rule_set_info =
  ri_behavior :: string
  ri_format :: string

fun behavior_name :: "rule_behavior \<Rightarrow> string" where
  "behavior_name DomainRules = ''domain''"
| "behavior_name IpCidrRules = ''ipcidr''"
| "behavior_name ClassicalRules = ''classical''"

fun format_name :: "rule_format \<Rightarrow> string" where
  "format_name YamlFormat = ''yaml''"
| "format_name TextFormat = ''text''"
| "format_name MrsFormat = ''mrs''"

definition rule_set_info_of :: "rule_format \<Rightarrow> rule_behavior \<Rightarrow> rule_set_info" where
  "rule_set_info_of format behavior = \<lparr>ri_behavior = behavior_name behavior, ri_format = format_name format\<rparr>"

text \<open>
  The outside: the \<open>payload\<close> and \<open>rules\<close> lists YAML decodes (None is its error), whether mihomo reads
  the bytes as \<open>mrs\<close> of a behaviour, and its compilation.
\<close>

record rule_world =
  rw_yaml :: "bytes \<Rightarrow> (string list option \<times> string list option) option"
  rw_is_mrs :: "rule_behavior \<Rightarrow> bytes \<Rightarrow> bool"
  rw_convert :: "rule_behavior \<Rightarrow> bytes \<Rightarrow> bytes option"

definition rule_set_entries :: "rule_world \<Rightarrow> bytes \<Rightarrow> rule_format \<times> string list" where
  "rule_set_entries w buf =
     (case rw_yaml w buf of
        Some (payload, rules) \<Rightarrow>
          if payload \<noteq> None \<or> rules \<noteq> None
          then (YamlFormat, filter (\<lambda>e. e \<noteq> []) (map trim_space
                  ((case payload of None \<Rightarrow> [] | Some l \<Rightarrow> l) @ (case rules of None \<Rightarrow> [] | Some l \<Rightarrow> l))))
          else (TextFormat, filter (\<lambda>l. l \<noteq> [] \<and> hd l \<noteq> CHR ''#'' \<and> \<not> prefix ''//'' l)
                  (map trim_space (split_on (CHR 0x0A) buf)))
      | None \<Rightarrow> (TextFormat, filter (\<lambda>l. l \<noteq> [] \<and> hd l \<noteq> CHR ''#'' \<and> \<not> prefix ''//'' l)
                  (map trim_space (split_on (CHR 0x0A) buf))))"

definition compile_rule_set ::
  "rule_world \<Rightarrow> bytes \<Rightarrow> bool \<Rightarrow> method_error + rule_set_info \<times> bytes option" where
  "compile_rule_set w buf allow_empty =
     (if prefix zstd_magic buf
      then (case find (\<lambda>b. rw_is_mrs w b buf) [DomainRules, IpCidrRules] of
              Some b \<Rightarrow> Inr (rule_set_info_of MrsFormat b, None)
            | None \<Rightarrow> Inl err_rule_set_invalid)
      else (case rule_set_entries w buf of (format, entries) \<Rightarrow>
              if entries = [] \<and> allow_empty then Inr (rule_set_info_of format ClassicalRules, None)
              else (case classify_rule_set entries of
                      Inl e \<Rightarrow> Inl e
                    | Inr (behavior, keys) \<Rightarrow>
                        if behavior = ClassicalRules then Inr (rule_set_info_of format behavior, None)
                        else (case rw_convert w behavior (join [CHR 0x0A] keys) of
                                None \<Rightarrow> Inl err_rule_set_empty
                              | Some mrs \<Rightarrow> Inr (rule_set_info_of format behavior, Some mrs)))))"

subsection \<open>Writing\<close>

text \<open>The directory, entry by entry: files, and links another user may have put there.\<close>

datatype node = FileNode bytes | LinkNode "string list" | DirNode

type_synonym files = "string list \<rightharpoonup> node"

text \<open>What the system answers to the calls of one write.\<close>

record write_answers =
  wa_mkdir :: "string option"
  wa_remove :: bool
  wa_open :: "string option"
  wa_write :: "(nat \<times> string) option"
  wa_close :: "string option"
  wa_rename :: "string option"
  wa_cleanup :: bool

text \<open>\<open>os.Remove\<close> takes the entry itself away, a link as much as a file, when it succeeds.\<close>

definition remove_entry :: "bool \<Rightarrow> string list \<Rightarrow> files \<Rightarrow> files" where
  "remove_entry ok path fs = (if ok then fs(path := None) else fs)"

definition temp_path :: "string list \<Rightarrow> string list" where
  "temp_path path = butlast path @ [last path @ ''.tmp'']"

text \<open>\<open>O_EXCL\<close> refuses whatever is still there. What is written is what \<open>Write\<close> took before its error.\<close>

definition write_rule_set_file ::
  "write_answers \<Rightarrow> string list \<Rightarrow> bytes \<Rightarrow> files \<Rightarrow> string option \<times> files" where
  "write_rule_set_file a path buf fs =
     (case wa_mkdir a of
        Some e \<Rightarrow> (Some e, fs)
      | None \<Rightarrow>
          (let temp = temp_path path; fs1 = remove_entry (wa_remove a) temp fs
           in case wa_open a of
                Some e \<Rightarrow> (Some e, fs1)
              | None \<Rightarrow>
                  if fs1 temp \<noteq> None then (Some ''file exists'', fs1)
                  else (let fs2 = fs1(temp \<mapsto> FileNode (case wa_write a of None \<Rightarrow> buf | Some (n, _) \<Rightarrow> take n buf));
                            err = (case wa_write a of Some (_, e) \<Rightarrow> Some e | None \<Rightarrow> wa_close a)
                        in case err of
                             Some e \<Rightarrow> (Some e, remove_entry (wa_cleanup a) temp fs2)
                           | None \<Rightarrow>
                               (case wa_rename a of
                                  Some e \<Rightarrow> (Some e, remove_entry (wa_cleanup a) temp fs2)
                                | None \<Rightarrow> (None, fs2(temp := None, path := fs2 temp))))))"

record compile_params =
  cp_name :: string
  cp_url :: string

text \<open>\<open>downloadRuleSet\<close> over mihomo's HTTP vehicle.\<close>

definition download_rule_set :: "(string \<Rightarrow> go_err + bytes) \<Rightarrow> string \<Rightarrow> method_error + bytes" where
  "download_rule_set fetch url =
     (case fetch url of
        Inr buf \<Rightarrow> Inr buf
      | Inl e \<Rightarrow> Inl (case request_method_error e [] of Some m \<Rightarrow> m | None \<Rightarrow> as_method_error e))"

definition core_error :: "string \<Rightarrow> method_error" where
  "core_error text = \<lparr>me_code = ''core_error'', me_message = text, me_details = []\<rparr>"

definition mrs_path :: "string list \<Rightarrow> string list" where
  "mrs_path path = butlast path @ [last path @ ''.mrs'']"

text \<open>
  \<open>handleCompileRuleSet\<close>: the source is downloaded or read, compiled, kept when it was downloaded, and
  its compiled form written beside it. \<open>a0\<close> and \<open>a1\<close> answer the two writes.
\<close>

definition handle_compile_rule_set ::
  "rule_world \<Rightarrow> bool \<Rightarrow> string list \<Rightarrow> (string \<Rightarrow> go_err + bytes) \<Rightarrow> (string list \<Rightarrow> string + bytes)
   \<Rightarrow> write_answers \<Rightarrow> write_answers \<Rightarrow> compile_params \<Rightarrow> files
   \<Rightarrow> (method_error + rule_set_info) \<times> files" where
  "handle_compile_rule_set w is_init home fetch read a0 a1 params fs =
     (if \<not> is_init then (Inl (core_error ''not initialized''), fs)
      else (case rule_set_cache_path home (cp_name params) of
          None \<Rightarrow> (Inl \<lparr>me_code = ''invalid_arguments'', me_message = ''invalid rule set name'',
                       me_details = []\<rparr>, fs)
        | Some source \<Rightarrow>
            (case (if cp_url params \<noteq> [] then download_rule_set fetch (cp_url params)
                   else map_sum core_error id (read source)) of
               Inl e \<Rightarrow> (Inl e, fs)
             | Inr buf \<Rightarrow>
                 (case compile_rule_set w buf (cp_url params = []) of
                    Inl e \<Rightarrow> (Inl e, fs)
                  | Inr (info, mrs) \<Rightarrow>
                      (case (if cp_url params \<noteq> [] then write_rule_set_file a0 source buf fs else (None, fs)) of
                         (Some e, fs1) \<Rightarrow> (Inl (core_error e), fs1)
                       | (None, fs1) \<Rightarrow>
                           (case mrs of
                              None \<Rightarrow> (Inr info, fs1)
                            | Some m \<Rightarrow>
                                (case write_rule_set_file a1 (mrs_path source) m fs1 of
                                   (Some e, fs2) \<Rightarrow> (Inl (core_error e), fs2)
                                 | (None, fs2) \<Rightarrow> (Inr info, fs2))))))))"


subsection \<open>Ranges\<close>

lemma parse_prefix_bits: "parse_prefix s = Some (a, n) \<Longrightarrow> n \<le> bit_len a"
  by (auto simp: parse_prefix_def split: option.splits prod.splits if_splits)

lemma parse_cidr_sound:
  assumes "parse_cidr entry = Some c"
  shows "parse_prefix c \<noteq> None \<and> parse_cidr c = Some c \<and>
    (parse_prefix entry \<noteq> None \<longrightarrow> c = entry) \<and>
    (\<forall>a. parse_prefix entry = None \<longrightarrow> parse_addr entry = Some a \<longrightarrow>
       parse_prefix c = Some (with_zone [] a, bit_len a))"
proof (cases "parse_prefix entry = None")
  case True
  then obtain a where a: "parse_addr entry = Some a" "c = show_single_prefix (with_zone [] a)"
    using assms by (auto simp: parse_cidr_def)
  have "parse_prefix c = Some (with_zone [] a, bit_len a)"
    using parse_single_prefix[OF parse_addr_ok[OF a(1)]] a(2) by simp
  then show ?thesis using True a(1) by (simp add: parse_cidr_def)
next
  case False
  then show ?thesis using assms by (auto simp: parse_cidr_def)
qed

subsection \<open>What a classified set holds\<close>

lemma classical_loop_keys:
  "classical_loop entries ds cs = Some (ds', cs') \<Longrightarrow>
   length ds' + length cs' = length entries + length ds + length cs \<and>
   (\<forall>k \<in> set cs'. k \<in> set cs \<or> parse_prefix k \<noteq> None) \<and>
   (\<forall>k \<in> set ds'. k \<in> set ds \<or> plain_domain k \<or> (\<exists>d. k = ''+.'' @ d \<and> plain_domain d))"
proof (induction entries ds cs rule: classical_loop.induct)
  case (2 entry entries ds cs)
  have sound: "(\<forall>d. classical_entry entry = Some (DomainKey d) \<longrightarrow> plain_domain d \<or> (\<exists>e. d = ''+.'' @ e \<and> plain_domain e)) \<and>
      (\<forall>k. classical_entry entry = Some (CidrKey k) \<longrightarrow> parse_prefix k \<noteq> None)"
    by (auto simp: classical_entry_def Let_def split: prod.splits if_splits)
  show ?case
  proof (cases "classical_entry entry")
    case None
    then show ?thesis using "2.prems" by simp
  next
    case (Some key)
    show ?thesis
    proof (cases key)
      case (DomainKey d)
      then show ?thesis using "2.IH"(1)[OF Some DomainKey] "2.prems" Some sound by fastforce
    next
      case (CidrKey k)
      then show ?thesis using "2.IH"(2)[OF Some CidrKey] "2.prems" Some sound by fastforce
    qed
  qed
qed auto

definition keys_fit :: "rule_behavior \<Rightarrow> string list \<Rightarrow> string list \<Rightarrow> bool" where
  "keys_fit behavior entries keys \<longleftrightarrow>
     (case behavior of
        ClassicalRules \<Rightarrow> keys = []
      | IpCidrRules \<Rightarrow> length keys = length entries \<and> list_all (\<lambda>k. parse_prefix k \<noteq> None) keys
      | DomainRules \<Rightarrow> length keys = length entries \<and>
          list_all (\<lambda>k. (k \<in> set entries \<and> parse_cidr k = None) \<or> plain_domain k \<or>
             (prefix ''+.'' k \<and> plain_domain (drop 2 k))) keys)"

lemma classify_classical_fits:
  assumes "classify_classical entries = (behavior, keys)"
  shows "keys_fit behavior entries keys"
proof (cases "classical_loop entries [] []")
  case None
  then show ?thesis using assms by (auto simp: classify_classical_def keys_fit_def)
next
  case (Some r)
  then show ?thesis
    using assms classical_loop_keys[of entries "[]" "[]" "fst r" "snd r"]
    by (fastforce simp: classify_classical_def keys_fit_def list_all_iff split: if_splits prod.splits)
qed

lemma map_filter_full: "length (List.map_filter f xs) = length xs \<Longrightarrow> list_all (\<lambda>x. f x \<noteq> None) xs"
proof (induction xs)
  case (Cons x xs)
  have "length (List.map_filter f xs) \<le> length xs" by (simp add: List.map_filter_def)
  then show ?case using Cons by (cases "f x") (auto simp: List.map_filter_simps)
qed (simp add: List.map_filter_simps)

lemma map_filter_none: "List.map_filter f xs = [] \<longleftrightarrow> list_all (\<lambda>x. f x = None) xs"
  by (induction xs) (auto simp: List.map_filter_simps split: option.splits)

lemma classify_fits:
  assumes "classify_rule_set entries = Inr (behavior, keys)"
  shows "entries \<noteq> [] \<and> keys_fit behavior entries keys"
proof -
  let ?cidrs = "List.map_filter parse_cidr entries"
  have ne: "entries \<noteq> []" using assms by (auto simp: classify_rule_set_def)
  show ?thesis
  proof (cases "list_ex (\<lambda>entry. contains entry '','') entries")
    case True
    then show ?thesis using ne assms classify_classical_fits by (simp add: classify_rule_set_def)
  next
    case False
    have "list_all (\<lambda>k. parse_prefix k \<noteq> None) ?cidrs"
      using parse_cidr_sound by (auto simp: list_all_iff List.map_filter_def)
    then show ?thesis
      using ne assms False map_filter_none[of parse_cidr entries]
      by (auto simp: classify_rule_set_def keys_fit_def Let_def list_all_iff split: if_splits)
  qed
qed



text \<open>An entry taken as a range is kept when it is a prefix already, and is otherwise written as the
  prefix that reads back as the very address, without its zone, at its full length; reading the result
  again changes nothing.\<close>

theorem cidr_roundtrip:
  assumes "parse_cidr entry = Some c"
  shows "parse_prefix c \<noteq> None \<and> parse_cidr c = Some c \<and>
    (parse_prefix entry \<noteq> None \<longrightarrow> c = entry) \<and>
    (\<forall>a. parse_prefix entry = None \<longrightarrow> parse_addr entry = Some a \<longrightarrow>
       parse_prefix c = Some (with_zone [] a, bit_len a))"
  using assms by (rule parse_cidr_sound)

theorem cidr_roundtrip_witness:
  "parse_prefix ''1.2.3.4/32'' = Some (V4 [1, 2, 3, 4], 32)"
proof -
  have shown: "show_addr (V4 [1, 2, 3, 4]) = ''1.2.3.4''"
    by (simp add: show_v4_def show_nat.simps digit_char_def char_of_eq_iff)
  have a: "parse_addr ''1.2.3.4'' = Some (V4 [1, 2, 3, 4])"
    using parse_show_addr[of "V4 [1, 2, 3, 4]"] unfolding shown by simp
  have p: "parse_prefix ''1.2.3.4'' = None"
    by (simp add: parse_prefix_def cut_last_def)
  have "show_single_prefix (V4 [1, 2, 3, 4]) = ''1.2.3.4/32''"
    by (simp add: show_single_prefix_def shown[simplified] show_nat.simps digit_char_def char_of_eq_iff)
  then have "parse_cidr ''1.2.3.4'' = Some ''1.2.3.4/32''"
    by (simp add: parse_cidr_def a p)
  from cidr_roundtrip[OF this] p a show ?thesis by simp
qed

subsection \<open>What a compilation may write\<close>

lemma temp_path_neq [simp]: "path \<noteq> [] \<Longrightarrow> temp_path path \<noteq> path"
  using append_butlast_last_id[of path] by (auto simp: temp_path_def dest: arg_cong[where f = last])

lemma write_rule_set_file_effect:
  assumes "write_rule_set_file a path buf fs = (r, fs')" "path \<noteq> []"
  shows "(r = None \<longrightarrow> fs' path = Some (FileNode buf) \<and> fs' (temp_path path) = None) \<and>
    (r \<noteq> None \<longrightarrow> fs' path = fs path) \<and>
    (\<forall>q. q \<notin> {path, temp_path path} \<longrightarrow> fs' q = fs q)"
  using assms temp_path_neq[OF assms(2)] not_sym[OF temp_path_neq[OF assms(2)]]
  by (auto simp: write_rule_set_file_def remove_entry_def Let_def split: option.splits if_splits)

definition cache_entry :: "string list \<Rightarrow> string \<Rightarrow> string list" where
  "cache_entry home name = home @ [''providers'', ''rules'', name]"

lemma cache_entry_paths [simp]:
  "temp_path (cache_entry home name) = cache_entry home (name @ ''.tmp'')"
  "mrs_path (cache_entry home name) = cache_entry home (name @ ''.mrs'')"
  "cache_entry home n = cache_entry home m \<longleftrightarrow> n = m"
  "cache_entry home n \<noteq> []"
  by (simp_all add: temp_path_def mrs_path_def cache_entry_def butlast_append)

lemma rule_set_cache_path_cases:
  "rule_set_cache_path home name = Some p \<longleftrightarrow>
     p = cache_entry home name \<and> name \<noteq> [] \<and> hd name \<noteq> CHR ''.'' \<and> list_all cache_name_char name"
  by (auto simp: rule_set_cache_path_def cache_entry_def)

text \<open>The entries one call may touch.\<close>

definition own_entries :: "string list \<Rightarrow> string \<Rightarrow> string list list" where
  "own_entries home name = map (\<lambda>ending. cache_entry home (name @ ending)) [[], ''.tmp'', ''.mrs'', ''.mrs.tmp'']"

text \<open>The bytes a call works on, downloaded or read.\<close>

definition rule_set_source ::
  "(string \<Rightarrow> go_err + bytes) \<Rightarrow> (string list \<Rightarrow> string + bytes) \<Rightarrow> string list \<Rightarrow> compile_params \<Rightarrow> method_error + bytes" where
  "rule_set_source fetch read source params =
     (if cp_url params \<noteq> [] then download_rule_set fetch (cp_url params)
      else map_sum core_error id (read source))"

lemma write_cases:
  assumes "path \<noteq> []"
  obtains (ok) fs' where "write_rule_set_file a path buf fs = (None, fs')" "fs' path = Some (FileNode buf)"
      "\<forall>q. q \<noteq> path \<longrightarrow> q \<noteq> temp_path path \<longrightarrow> fs' q = fs q"
  | (failed) e fs' where "write_rule_set_file a path buf fs = (Some e, fs')" "fs' path = fs path"
      "\<forall>q. q \<noteq> path \<longrightarrow> q \<noteq> temp_path path \<longrightarrow> fs' q = fs q"
proof -
  obtain r fs' where w: "write_rule_set_file a path buf fs = (r, fs')" by fastforce
  note e = write_rule_set_file_effect[OF w assms]
  show thesis using w e ok[of fs'] failed[of _ fs'] by (cases r) auto
qed

lemma temp_of_entry: "cache_entry home name \<noteq> temp_path (cache_entry home (name @ ''.mrs''))"
  "temp_path (cache_entry home name) \<noteq> cache_entry home (name @ ''.mrs'')"
  "cache_entry home name \<noteq> cache_entry home (name @ ''.mrs'')"
  by simp_all

text \<open>The two writes of a call, and what they leave.\<close>

definition compile_outcome ::
  "rule_world \<Rightarrow> method_error + bytes \<Rightarrow> string list \<Rightarrow> string list \<Rightarrow> bool \<Rightarrow> files
   \<Rightarrow> (method_error + rule_set_info) \<times> files \<Rightarrow> bool" where
  "compile_outcome w input src mrs_file fetched fs result \<longleftrightarrow>
     (case result of
        (Inr info, fs') \<Rightarrow>
          (\<exists>buf mrs. input = Inr buf \<and> compile_rule_set w buf (\<not> fetched) = Inr (info, mrs) \<and>
             fs' src = (if fetched then Some (FileNode buf) else fs src) \<and>
             fs' mrs_file = (case mrs of Some m \<Rightarrow> Some (FileNode m) | None \<Rightarrow> fs mrs_file))
      | (Inl e, fs') \<Rightarrow>
          fs' mrs_file = fs mrs_file \<and>
          (fs' src = fs src \<or> (\<exists>buf. fetched \<and> input = Inr buf \<and> fs' src = Some (FileNode buf))))"

lemma handle_compile_facts:
  fixes name home defines "src \<equiv> cache_entry home name"
  assumes "name = cp_name params"
  shows "compile_outcome w (rule_set_source fetch read src params) src (mrs_path src) (cp_url params \<noteq> []) fs
      (handle_compile_rule_set w is_init home fetch read a0 a1 params fs) \<and>
    (\<forall>q. snd (handle_compile_rule_set w is_init home fetch read a0 a1 params fs) q \<noteq> fs q \<longrightarrow>
       is_init \<and> rule_set_cache_path home name \<noteq> None \<and> q \<in> set (own_entries home name))"
proof (cases "is_init \<and> rule_set_cache_path home name \<noteq> None")
  case False
  then show ?thesis using assms by (auto simp: handle_compile_rule_set_def compile_outcome_def split: option.splits)
next
  case True
  then have path: "rule_set_cache_path home name = Some src"
    by (auto simp: src_def rule_set_cache_path_def cache_entry_def split: if_splits)
  let ?in = "rule_set_source fetch read src params"
  let ?url = "cp_url params \<noteq> []"
  have own: "set (own_entries home name) = {src, temp_path src, mrs_path src, temp_path (mrs_path src)}"
    by (simp add: own_entries_def src_def)
  have src: "src \<noteq> []" "mrs_path src \<noteq> []" "src \<noteq> mrs_path src" "temp_path src \<noteq> mrs_path src"
      "src \<noteq> temp_path (mrs_path src)"
    by (simp_all add: src_def)
  note unfold = handle_compile_rule_set_def assms(2)[symmetric] path rule_set_source_def[symmetric]
  show ?thesis
  proof (cases ?in)
    case (Inl e)
    then show ?thesis using True by (simp add: unfold compile_outcome_def)
  next
    case (Inr buf)
    show ?thesis
    proof (cases "compile_rule_set w buf (cp_url params = [])")
      case e: (Inl e)
      show ?thesis using True Inr e by (simp add: unfold compile_outcome_def)
    next
      case c: (Inr im)
      obtain info mrs where im: "im = (info, mrs)" by fastforce
      let ?fin = "\<lambda>fs1. (case mrs of None \<Rightarrow> (Inr info, fs1) | Some m \<Rightarrow>
          (case write_rule_set_file a1 (mrs_path src) m fs1 of (Some e, fs2) \<Rightarrow> (Inl (core_error e), fs2)
             | (None, fs2) \<Rightarrow> (Inr info, fs2)))"
      have last: "(case ?fin fs1 of (Inr i, fs2) \<Rightarrow> i = info \<and> fs2 src = fs1 src \<and>
            fs2 (mrs_path src) = (case mrs of Some m \<Rightarrow> Some (FileNode m) | None \<Rightarrow> fs1 (mrs_path src))
          | (Inl e, fs2) \<Rightarrow> fs2 src = fs1 src \<and> fs2 (mrs_path src) = fs1 (mrs_path src)) \<and>
          (\<forall>q. snd (?fin fs1) q \<noteq> fs1 q \<longrightarrow> q = mrs_path src \<or> q = temp_path (mrs_path src))" for fs1
      proof (cases mrs)
        case None
        then show ?thesis by simp
      next
        case (Some m)
        show ?thesis
          by (rule write_cases[OF src(2), of a1 m fs1]) (use Some src in auto)
      qed
      show ?thesis
      proof (cases ?url)
        case False
        then have "handle_compile_rule_set w is_init home fetch read a0 a1 params fs = ?fin fs"
          using True Inr[unfolded rule_set_source_def] c False
          by (simp add: handle_compile_rule_set_def assms(2)[symmetric] path im)
        then show ?thesis using last[of fs] False Inr c own im True
          by (auto simp: compile_outcome_def split: sum.splits prod.splits)
      next
        case url: True
        show ?thesis
        proof (rule write_cases[OF src(1), of a0 buf fs])
          fix e fs1
          assume a: "write_rule_set_file a0 src buf fs = (Some e, fs1)" "fs1 src = fs src"
            "\<forall>q. q \<noteq> src \<longrightarrow> q \<noteq> temp_path src \<longrightarrow> fs1 q = fs q"
          then have "handle_compile_rule_set w is_init home fetch read a0 a1 params fs = (Inl (core_error e), fs1)"
            using True Inr[unfolded rule_set_source_def] c url
            by (simp add: handle_compile_rule_set_def assms(2)[symmetric] path im)
          then show ?thesis using a src own True path by (auto simp: compile_outcome_def)
        next
          fix fs1
          assume a: "write_rule_set_file a0 src buf fs = (None, fs1)" "fs1 src = Some (FileNode buf)"
            "\<forall>q. q \<noteq> src \<longrightarrow> q \<noteq> temp_path src \<longrightarrow> fs1 q = fs q"
          then have h: "handle_compile_rule_set w is_init home fetch read a0 a1 params fs = ?fin fs1"
            using True Inr[unfolded rule_set_source_def] c url
            by (simp add: handle_compile_rule_set_def assms(2)[symmetric] path im)
          have m1: "fs1 (mrs_path src) = fs (mrs_path src)" using a(3) src by metis
          have "snd (?fin fs1) q \<noteq> fs q \<Longrightarrow> q \<in> set (own_entries home name)" for q
            using last[of fs1] a(3) own by (cases "q = src \<or> q = temp_path src") auto
          moreover have "compile_outcome w ?in src (mrs_path src) ?url fs (?fin fs1)"
            using last[of fs1] url Inr c im a(2) m1
            by (auto simp: compile_outcome_def split: sum.splits prod.splits option.splits)
          ultimately show ?thesis using h True by simp
        qed
      qed
    qed
  qed
qed


text \<open>A compilation that answers with a result has the compiled form of the very bytes it read or
  downloaded in place, and a downloaded source; one that fails leaves the compiled form as it was, and
  the source too unless the whole download replaced it.\<close>

theorem compilation_outcome:
  "compile_outcome w (rule_set_source fetch read (cache_entry home (cp_name params)) params)
     (cache_entry home (cp_name params)) (cache_entry home (cp_name params @ ''.mrs''))
     (cp_url params \<noteq> []) fs (handle_compile_rule_set w is_init home fetch read a0 a1 params fs)"
  using handle_compile_facts[OF refl, where params = params] by simp

end
