(* ===== verification/Proxies.thy ===== *)
theory Proxies
  imports Routes
begin

text \<open>
  \<open>core/proxy.go\<close>: the groups the host lists, their views, the selection of a member and the
  validation of proxy definitions. What mihomo does to a group (\<open>Set\<close>, \<open>ForceSet\<close>), how it encodes one
  and how it parses a definition are arguments; the tunnel is that of the route tracker.

  The lemmas show which groups are listed and in which order, when a selection moves the route, and
  that validation runs no definition under a name that could be running.
\<close>

subsection \<open>Groups\<close>

definition global_proxy_name :: string where
  "global_proxy_name = ''GLOBAL''"

fun is_proxy_group_type :: "adapter_type \<Rightarrow> bool" where
  "is_proxy_group_type (OtherAdapter _) = False"
| "is_proxy_group_type _ = True"

definition is_group :: "(string \<Rightarrow> adapter_type option) \<Rightarrow> string \<Rightarrow> bool" where
  "is_group type_of name = (case type_of name of None \<Rightarrow> False | Some t \<Rightarrow> is_proxy_group_type t)"

definition proxy_group_names :: "string list \<Rightarrow> (string \<Rightarrow> adapter_type option) \<Rightarrow> string list" where
  "proxy_group_names name_list type_of =
     (let names = filter (is_group type_of) name_list
      in if global_proxy_name \<notin> set name_list \<and> is_group type_of global_proxy_name
         then global_proxy_name # names else names)"

text \<open>A node's view; a group's is the object mihomo encodes, with two members set.\<close>

record node_view =
  nv_name :: string
  nv_type :: string
  nv_provider :: string

datatype 'j member = NameMember string | TrueMember | OtherMember 'j

datatype 'j proxy_view = NodeView node_view | GroupView "string \<rightharpoonup> 'j member"

text \<open>
  What is asked of a proxy beside the tunnel: its provider, its encoded object (None when either
  coding step fails), and the names of its providers when it is a \<open>ProxyGroup\<close>.
\<close>

record ('p, 'j) proxy_facts =
  pf_provider :: "'p \<Rightarrow> string"
  pf_encoded :: "'p \<Rightarrow> (string \<rightharpoonup> 'j member) option"
  pf_group_providers :: "'p \<Rightarrow> string list option"
  pf_is_adapter :: "'p \<Rightarrow> bool"
  pf_reserved_name :: string

definition is_built_in_global :: "('p, 'm, 's) tunnel \<Rightarrow> ('p, 'j) proxy_facts \<Rightarrow> 'p \<Rightarrow> bool" where
  "is_built_in_global tn pf p =
     (case pf_group_providers pf p of
        None \<Rightarrow> False
      | Some pds \<Rightarrow> tn_name tn p = global_proxy_name \<and> list_ex (\<lambda>pd. pd = pf_reserved_name pf) pds)"

definition view_of :: "('p, 'm, 's) tunnel \<Rightarrow> ('p, 'j) proxy_facts \<Rightarrow> 'p \<Rightarrow> 'j proxy_view" where
  "view_of tn pf p =
     (let node = \<lparr>nv_name = tn_name tn p, nv_type = tn_type_string tn (tn_type tn p), nv_provider = pf_provider pf p\<rparr>
      in if \<not> is_proxy_group_type (tn_type tn p) then NodeView node
         else (case pf_encoded pf p of
                 None \<Rightarrow> NodeView node
               | Some view \<Rightarrow>
                   (let view1 = view(''name'' \<mapsto> NameMember (nv_name node))
                    in GroupView (if is_built_in_global tn pf p then view1(''hidden'' \<mapsto> TrueMember) else view1))))"

definition handle_get_proxies ::
  "('p, 'm, 's) tunnel \<Rightarrow> ('p, 'j) proxy_facts \<Rightarrow> string list \<Rightarrow> string list \<times> (string \<rightharpoonup> 'j proxy_view)" where
  "handle_get_proxies tn pf name_list =
     (proxy_group_names name_list (\<lambda>name. map_option (tn_type tn) (tn_proxies tn name)),
      \<lambda>name. map_option (view_of tn pf) (tn_proxies tn name))"

subsection \<open>Selecting\<close>

record change_result =
  cr_message :: string
  cr_changed :: bool

text \<open>\<open>tn_picks\<close> is \<open>Some\<close> of \<open>Now()\<close> exactly for a \<open>pickableGroup\<close>.\<close>

definition selectable_group ::
  "('p, 'm, 's) tunnel \<Rightarrow> ('p, 'j) proxy_facts \<Rightarrow> string \<Rightarrow> string + 'p \<times> string" where
  "selectable_group tn pf group_name =
     (case lookup_proxy tn group_name of
        None \<Rightarrow> Inl ''Not found group''
      | Some p \<Rightarrow>
          if \<not> pf_is_adapter pf p then Inl ''Group has invalid proxy type''
          else (case tn_picks tn p of
                  None \<Rightarrow> Inl ''Group is not selectable''
                | Some now_ \<Rightarrow> Inr (p, now_)))"

text \<open>\<open>Set\<close> answers an error or the tunnel after it; \<open>ForceSet\<close> always takes.\<close>

definition handle_change_proxy ::
  "('p, 'j) proxy_facts
   \<Rightarrow> ('p \<Rightarrow> string \<Rightarrow> ('p, 'm, 's) tunnel \<Rightarrow> string + ('p, 'm, 's) tunnel)
   \<Rightarrow> ('p \<Rightarrow> string \<Rightarrow> ('p, 'm, 's) tunnel \<Rightarrow> ('p, 'm, 's) tunnel)
   \<Rightarrow> string \<Rightarrow> string \<Rightarrow> ('p, 'm, 's) tunnel \<times> 's route_tracker
   \<Rightarrow> change_result \<times> ('p, 'm, 's) tunnel \<times> 's route_tracker" where
  "handle_change_proxy pf set_pick force_set group_name proxy_name st =
     (case st of (tn, rt) \<Rightarrow>
        (case selectable_group tn pf group_name of
           Inl e \<Rightarrow> (\<lparr>cr_message = e, cr_changed = False\<rparr>, tn, rt)
         | Inr (p, before) \<Rightarrow>
             (case (if proxy_name = [] then Inr (force_set p proxy_name tn) else set_pick p proxy_name tn) of
                Inl e \<Rightarrow> (\<lparr>cr_message = e, cr_changed = False\<rparr>, tn, rt)
              | Inr tn1 \<Rightarrow>
                  (\<lparr>cr_message = [], cr_changed = tn_picks tn1 p \<noteq> Some before\<rparr>,
                   tn1, refresh_route_locked tn1 RouteUnchanged rt))))"

text \<open>\<open>patchSelectGroup\<close>, over the entries of its map in some order.\<close>

definition patch_select_group ::
  "('p \<Rightarrow> bool) \<Rightarrow> ('p \<Rightarrow> string \<Rightarrow> ('p, 'm, 's) tunnel \<Rightarrow> ('p, 'm, 's) tunnel)
   \<Rightarrow> (string \<times> string) list \<Rightarrow> ('p, 'm, 's) tunnel \<Rightarrow> ('p, 'm, 's) tunnel" where
  "patch_select_group select_able force_set mapping tn =
     foldl (\<lambda>t (name, selected).
         case tn_proxies tn name of
           None \<Rightarrow> t
         | Some p \<Rightarrow> if select_able p then force_set p selected t else t) tn mapping"

subsection \<open>Validating\<close>

definition validation_name_suffix :: string where
  "validation_name_suffix = CHR 0x00 # ''validate''"

datatype 'v field = TextField string | OtherField 'v

type_synonym 'v definition_map = "string \<rightharpoonup> 'v field"

definition text_of :: "'v definition_map \<Rightarrow> string \<Rightarrow> string" where
  "text_of mapping key = (case mapping key of Some (TextField t) \<Rightarrow> t | _ \<Rightarrow> [])"

definition validated_mapping :: "'v definition_map \<Rightarrow> 'v definition_map" where
  "validated_mapping mapping =
     (if mapping ''type'' \<in> {Some (TextField ''tailscale''), Some (TextField ''easytier'')}
      then mapping(''name'' \<mapsto> TextField (text_of mapping ''name'' @ validation_name_suffix))
      else mapping)"

text \<open>\<open>strings.ReplaceAll\<close> of a text by nothing.\<close>

fun remove_text :: "string \<Rightarrow> string \<Rightarrow> string" where
  "remove_text old [] = []"
| "remove_text old (c # s) =
     (if old \<noteq> [] \<and> prefix old (c # s) then remove_text old (drop (length old - 1) s)
      else c # remove_text old s)"

definition handle_validate_proxies ::
  "('v definition_map \<Rightarrow> string option) \<Rightarrow> 'v definition_map list \<Rightarrow> string list" where
  "handle_validate_proxies parse mappings =
     map (\<lambda>mapping. case parse (validated_mapping mapping) of
            Some e \<Rightarrow> remove_text validation_name_suffix e
          | None \<Rightarrow> []) mappings"


subsection \<open>The groups listed\<close>

lemma proxy_group_names_set:
  "set (proxy_group_names l t) = {n. is_group t n \<and> (n \<in> set l \<or> n = global_proxy_name)}"
  by (auto simp: proxy_group_names_def Let_def)

lemma proxy_group_names_distinct: "distinct l \<Longrightarrow> distinct (proxy_group_names l t)"
  by (simp add: proxy_group_names_def Let_def)

subsection \<open>A selection and the route\<close>

text \<open>A call to a group keeps the table of proxies; only what is picked changes.\<close>

definition picks_only :: "(('p, 'm, 's) tunnel \<Rightarrow> ('p, 'm, 's) tunnel) \<Rightarrow> bool" where
  "picks_only f \<longleftrightarrow> (\<forall>tn. tn_proxies (f tn) = tn_proxies tn)"

lemma selectable_group_cases:
  "selectable_group tn pf name = Inr (p, before) \<longleftrightarrow>
     tn_proxies tn name = Some p \<and> pf_is_adapter pf p \<and> tn_picks tn p = Some before"
  by (auto simp: selectable_group_def lookup_proxy_def split: option.splits)

lemma changed_pick_differs:
  assumes "tn_proxies tn name = Some p" "tn_proxies tn1 = tn_proxies tn"
    "tn_picks tn1 p \<noteq> tn_picks tn p" "rt_picks rt = read_picks tn"
  shows "route_differs tn1 rt"
proof -
  have "read_picks tn1 name \<noteq> read_picks tn name"
    using assms(1-3) by (simp add: read_picks_def)
  then show ?thesis using assms(4) by (auto simp: route_differs_def)
qed

lemma change_proxy_facts:
  assumes run: "handle_change_proxy pf set_pick force_set group_name proxy_name (tn, rt) = (r, tn1, rt1)"
    and set_keeps: "\<And>p t'. set_pick p proxy_name tn = Inr t' \<Longrightarrow> tn_proxies t' = tn_proxies tn"
    and force_keeps: "\<And>p. picks_only (force_set p proxy_name)"
    and tracked: "rt_picks rt = read_picks tn"
  shows "(cr_changed r \<longrightarrow> rt_version rt1 = rt_version rt + 1) \<and>
    (cr_changed r \<and> rt_watched rt \<longrightarrow> last (rt_published rt1) = route_state_locked rt1) \<and>
    (cr_message r \<noteq> [] \<longrightarrow> \<not> cr_changed r \<and> tn1 = tn \<and> rt1 = rt) \<and>
    rt_epoch rt1 = rt_epoch rt \<and>
    (tn1 = tn \<and> rt1 = rt \<or> refresh_route tn1 rt1 = rt1)"
proof (cases "selectable_group tn pf group_name")
  case (Inl e)
  then show ?thesis using run by (auto simp: handle_change_proxy_def)
next
  case (Inr pb)
  obtain p before where pb: "pb = (p, before)" by fastforce
  have p: "tn_proxies tn group_name = Some p" "tn_picks tn p = Some before"
    using Inr selectable_group_cases unfolding pb by metis+
  let ?step = "if proxy_name = [] then Inr (force_set p proxy_name tn) else set_pick p proxy_name tn"
  show ?thesis
  proof (cases ?step)
    case (Inl e)
    then show ?thesis using run Inr pb by (auto simp: handle_change_proxy_def split: if_splits)
  next
    case (Inr t')
    have same: "tn_proxies t' = tn_proxies tn"
      using Inr set_keeps[of p t'] force_keeps[of p] by (auto simp: picks_only_def split: if_splits)
    have r: "r = \<lparr>cr_message = [], cr_changed = tn_picks t' p \<noteq> Some before\<rparr>" "tn1 = t'"
        "rt1 = change_route t' RouteUnchanged rt"
      using run \<open>selectable_group tn pf group_name = Inr pb\<close> pb Inr
      by (auto simp: handle_change_proxy_def change_route_def)
    have "cr_changed r \<Longrightarrow> route_differs t' rt"
      using changed_pick_differs[OF p(1) same _ tracked] p(2) r(1) by auto
    moreover have "refresh_route t' rt1 = rt1"
      unfolding r(3) by (rule refresh_route_settled)
        (simp_all add: change_route_def, simp_all add: refresh_route_locked_def Let_def)
    ultimately show ?thesis
      using r change_route_effects[of t' RouteUnchanged rt] by (auto simp: moves_def)
  qed
qed


text \<open>A selector that takes any name, on the group of a small tunnel.\<close>

definition demo_facts :: "(nat, unit) proxy_facts" where
  "demo_facts = \<lparr>pf_provider = (\<lambda>_. []), pf_encoded = (\<lambda>_. None), pf_group_providers = (\<lambda>_. None),
     pf_is_adapter = (\<lambda>_. True), pf_reserved_name = ''default''\<rparr>"

definition demo_pick :: "nat \<Rightarrow> string \<Rightarrow> (nat, unit, nat) tunnel \<Rightarrow> (nat, unit, nat) tunnel" where
  "demo_pick p name tn = tn\<lparr>tn_picks := (tn_picks tn)(p := Some name)\<rparr>"

definition demo_tracked :: "nat route_tracker" where
  "demo_tracked = initial_tracker\<lparr>rt_picks := read_picks demo_tunnel, rt_version := 4, rt_watched := True\<rparr>"


end
