(* ===== verification/Core_Config.thy ===== *)
theory Core_Config
  imports Providers Proxies
begin

text \<open>
  \<open>core/config.go\<close> and \<open>core/lifecycle.go\<close>: the configuration in force, its update in place, the
  listeners, and the life of the Core from its setup to its shutdown. All of it runs under \<open>configMu\<close>,
  so each operation is one step of the state.

  What mihomo does with a whole configuration (\<open>hub.ApplyConfig\<close>), how it loads one, and what its
  built-in default is, are arguments. mihomo's enumerations are numbers, its options opaque texts.

  The lemmas show that what the process runs with is always what the configuration says, what an
  update changes and what it tells the route tracker.
\<close>

subsection \<open>The configuration\<close>

record tun_options =
  tu_enable :: bool
  tu_device :: string
  tu_stack :: int
  tu_auto_route :: bool
  tu_rest :: string

datatype log_level = DebugLevel | OtherLevel int

record general =
  g_port :: int
  g_socks_port :: int
  g_redir_port :: int
  g_tproxy_port :: int
  g_mixed_port :: int
  g_shadow_socks :: string
  g_vmess :: string
  g_tuic :: string
  g_tun :: tun_options
  g_allow_lan :: bool
  g_bind_address :: string
  g_skip_auth_prefixes :: "string list"
  g_lan_allowed :: "string list"
  g_lan_disallowed :: "string list"
  g_authentication :: "string list"
  g_find_process_mode :: int
  g_mode :: int
  g_log_level :: log_level
  g_ipv6 :: bool
  g_tcp_concurrent :: bool
  g_unified_delay :: bool

record controller =
  co_address :: string
  co_tls_address :: string
  co_unix :: string
  co_pipe :: string
  co_routing_mark :: int
  co_secret :: string
  co_doh :: string
  co_origins :: "string list"
  co_private_network :: bool

record tls_options =
  tl_certificate :: string
  tl_private_key :: string
  tl_client_auth_type :: string
  tl_client_auth_cert :: string
  tl_ech_key :: string

text \<open>\<open>'x\<close> is the rest of a configuration, its proxies and its rules.\<close>

record 'x config =
  cf_general :: general
  cf_controller :: controller
  cf_tls :: "tls_options option"
  cf_users :: "(string \<times> string) list"
  cf_ntp_write :: bool
  cf_listeners :: string
  cf_rest :: 'x

subsection \<open>What the process runs with\<close>

record listening =
  ls_inbound :: string
  ls_ports :: "int list"
  ls_servers :: "string list"
  ls_tun :: "tun_options option"

record server_config =
  sc_controller :: controller
  sc_debug :: bool
  sc_tls :: "tls_options option"

text \<open>
  mihomo's process-wide settings. \<open>pr_listening\<close> is None while nothing listens; \<open>pr_servers\<close> holds the
  controllers built so far, the last one serving; the last two count what was dropped and freed.
\<close>

record process =
  pr_find_process_mode :: int
  pr_mode :: int
  pr_log_level :: log_level
  pr_disable_ipv6 :: bool
  pr_tcp_concurrent :: bool
  pr_unified_delay :: bool
  pr_users :: "(string \<times> string) list"
  pr_skip_auth_prefixes :: "string list"
  pr_lan_allowed :: "string list"
  pr_lan_disallowed :: "string list"
  pr_allow_lan :: bool
  pr_bind_address :: string
  pr_listening :: "listening option"
  pr_servers :: "server_config list"
  pr_skip_cert_verify :: bool
  pr_test_url :: string
  pr_resets :: nat
  pr_updater_stops :: nat

definition route_config :: "'x config \<Rightarrow> server_config" where
  "route_config cfg = \<lparr>sc_controller = cf_controller cfg,
     sc_debug = (g_log_level (cf_general cfg) = DebugLevel), sc_tls = cf_tls cfg\<rparr>"

subsection \<open>Listeners\<close>

definition listening_for :: "bool \<Rightarrow> 'x config \<Rightarrow> listening \<Rightarrow> listening" where
  "listening_for android cfg old =
     (let g = cf_general cfg
      in \<lparr>ls_inbound = cf_listeners cfg,
          ls_ports = [g_port g, g_socks_port g, g_redir_port g, g_tproxy_port g, g_mixed_port g],
          ls_servers = [g_shadow_socks g, g_vmess g, g_tuic g],
          ls_tun = (if android then ls_tun old else Some (g_tun g))\<rparr>)"

definition no_listening :: listening where
  "no_listening = \<lparr>ls_inbound = [], ls_ports = [], ls_servers = [], ls_tun = None\<rparr>"

definition update_listeners :: "bool \<Rightarrow> bool \<Rightarrow> 'x config option \<Rightarrow> process \<Rightarrow> process" where
  "update_listeners android running cfg pr =
     (case cfg of
        None \<Rightarrow> pr
      | Some c \<Rightarrow>
          if \<not> running then pr
          else (let g = cf_general c
                in pr\<lparr>pr_allow_lan := g_allow_lan g,
                      pr_skip_auth_prefixes := g_skip_auth_prefixes g,
                      pr_lan_allowed := g_lan_allowed g,
                      pr_lan_disallowed := g_lan_disallowed g,
                      pr_bind_address := g_bind_address g,
                      pr_listening := Some (listening_for android c
                        (case pr_listening pr of Some l \<Rightarrow> l | None \<Rightarrow> no_listening))\<rparr>))"

definition stop_listener :: "process \<Rightarrow> process" where
  "stop_listener pr = pr\<lparr>pr_listening := None\<rparr>"

definition reset_connection :: "process \<Rightarrow> process" where
  "reset_connection pr = pr\<lparr>pr_resets := Suc (pr_resets pr)\<rparr>"

subsection \<open>Updating in place\<close>

record tun_schema =
  ts_enable :: bool
  ts_device :: "string option"
  ts_stack :: "int option"
  ts_auto_route :: "bool option"

record update_params =
  up_tun :: "tun_schema option"
  up_allow_lan :: "bool option"
  up_mixed_port :: "int option"
  up_find_process_mode :: "int option"
  up_mode :: "int option"
  up_log_level :: "log_level option"
  up_ipv6 :: "bool option"
  up_tcp_concurrent :: "bool option"
  up_external_controller :: "string option"
  up_secret :: "string option"
  up_unified_delay :: "bool option"
  up_authentication :: "string list option"
  up_geo_auto_update :: "bool option"
  up_geo_update_interval :: "int option"
  up_geox_url :: "(string \<times> string) list"
  up_skip_cert_verify :: "bool option"

fun override :: "'a option \<Rightarrow> 'a \<Rightarrow> 'a" where
  "override None v = v"
| "override (Some w) _ = w"

definition patch_tun :: "tun_schema \<Rightarrow> tun_options \<Rightarrow> tun_options" where
  "patch_tun p t =
     t\<lparr>tu_enable := ts_enable p, tu_auto_route := override (ts_auto_route p) (tu_auto_route t),
       tu_device := override (ts_device p) (tu_device t), tu_stack := override (ts_stack p) (tu_stack t)\<rparr>"

text \<open>The fields of the general section, in the order of the code, with mihomo's setting of each.\<close>

definition update_general :: "update_params \<Rightarrow> general \<Rightarrow> general" where
  "update_general u g =
     (let g1 = g\<lparr>g_mixed_port := override (up_mixed_port u) (g_mixed_port g),
                g_allow_lan := override (up_allow_lan u) (g_allow_lan g),
                g_find_process_mode := override (up_find_process_mode u) (g_find_process_mode g),
                g_tcp_concurrent := override (up_tcp_concurrent u) (g_tcp_concurrent g),
                g_unified_delay := override (up_unified_delay u) (g_unified_delay g),
                g_mode := override (up_mode u) (g_mode g),
                g_log_level := override (up_log_level u) (g_log_level g),
                g_ipv6 := override (up_ipv6 u) (g_ipv6 g)\<rparr>
      in case up_tun u of None \<Rightarrow> g1 | Some p \<Rightarrow> g1\<lparr>g_tun := patch_tun p (g_tun g1)\<rparr>)"

definition update_settings :: "update_params \<Rightarrow> process \<Rightarrow> process" where
  "update_settings u pr =
     pr\<lparr>pr_find_process_mode := override (up_find_process_mode u) (pr_find_process_mode pr),
        pr_tcp_concurrent := override (up_tcp_concurrent u) (pr_tcp_concurrent pr),
        pr_unified_delay := override (up_unified_delay u) (pr_unified_delay pr),
        pr_mode := override (up_mode u) (pr_mode pr),
        pr_log_level := override (up_log_level u) (pr_log_level pr),
        pr_disable_ipv6 := override (map_option Not (up_ipv6 u)) (pr_disable_ipv6 pr)\<rparr>"

definition update_change :: "update_params \<Rightarrow> general \<Rightarrow> route_change" where
  "update_change u g =
     (let c = (case up_mode u of
                 None \<Rightarrow> RouteUnchanged
               | Some m \<Rightarrow> if g_mode g \<noteq> m then RouteMoved else RouteUnchanged)
      in case up_ipv6 u of
           None \<Rightarrow> c
         | Some b \<Rightarrow> if g_ipv6 g \<noteq> b then RouteReset else c)"

definition patch_controller :: "update_params \<Rightarrow> 'x config \<times> process \<Rightarrow> 'x config \<times> process" where
  "patch_controller u st =
     (case st of (cfg, pr) \<Rightarrow>
        (let co = cf_controller cfg;
             address = override (up_external_controller u) (co_address co);
             secret = override (up_secret u) (co_secret co)
         in if address = co_address co \<and> secret = co_secret co then (cfg, pr)
            else (let cfg1 = cfg\<lparr>cf_controller := co\<lparr>co_address := address, co_secret := secret\<rparr>\<rparr>
                  in (cfg1, pr\<lparr>pr_servers := pr_servers pr @ [route_config cfg1]\<rparr>))))"

definition users_of :: "string list \<Rightarrow> (string \<times> string) list" where
  "users_of = List.map_filter (\<lambda>line. case cut CHR '':'' line of
      (user, pass, found) \<Rightarrow> if found then Some (user, pass) else None)"

definition apply_authentication :: "string list \<Rightarrow> 'x config \<times> process \<Rightarrow> 'x config \<times> process" where
  "apply_authentication authentication st =
     (case st of (cfg, pr) \<Rightarrow>
        (let users = users_of authentication;
             cfg1 = cfg\<lparr>cf_general := (cf_general cfg)\<lparr>g_authentication := authentication\<rparr>, cf_users := users\<rparr>;
             pr1 = pr\<lparr>pr_users := users\<rparr>
         in if users \<noteq> []
            then (cfg1\<lparr>cf_general := (cf_general cfg1)\<lparr>g_skip_auth_prefixes := []\<rparr>\<rparr>,
                  pr1\<lparr>pr_skip_auth_prefixes := []\<rparr>)
            else (cfg1, pr1)))"

subsection \<open>The Core\<close>

record ('x, 'p, 'm, 's) core =
  cs_init :: bool
  cs_running :: bool
  cs_sdk :: "32 word"
  cs_home :: string
  cs_config :: "'x config option"
  cs_process :: process
  cs_geo :: geo_state
  cs_tunnel :: "('p, 'm, 's) tunnel"
  cs_route :: "'s route_tracker"

definition err_config_not_applied :: string where "err_config_not_applied = ''config is not applied''"
definition err_not_initialized :: string where "err_not_initialized = ''not initialized''"

definition update_config ::
  "bool \<Rightarrow> update_params \<Rightarrow> ('x, 'p, 'm, 's) core \<Rightarrow> string option \<times> ('x, 'p, 'm, 's) core" where
  "update_config android u s =
     (case cs_config s of
        None \<Rightarrow> (Some err_config_not_applied, s)
      | Some cfg \<Rightarrow>
          (let change = update_change u (cf_general cfg);
               st1 = (cfg\<lparr>cf_general := update_general u (cf_general cfg)\<rparr>, update_settings u (cs_process s));
               st2 = patch_controller u st1;
               st3 = (case up_authentication u of None \<Rightarrow> st2 | Some a \<Rightarrow> apply_authentication a st2);
               pr4 = (snd st3)\<lparr>pr_skip_cert_verify := override (up_skip_cert_verify u) (pr_skip_cert_verify (snd st3))\<rparr>;
               pr5 = update_listeners android (cs_running s) (Some (fst st3)) pr4;
               geo1 = foldl (\<lambda>g (t, link). set_geo_resource_url t link g) (cs_geo s) (up_geox_url u);
               geo2 = sync_geo_updater (up_geo_auto_update u) (up_geo_update_interval u) geo1
           in (None, s\<lparr>cs_config := Some (fst st3), cs_process := pr5, cs_geo := geo2,
                       cs_route := (if change \<noteq> RouteUnchanged
                                    then change_route (cs_tunnel s) change (cs_route s) else cs_route s)\<rparr>)))"

subsection \<open>Setting up\<close>

record setup_params =
  sp_selected :: "(string \<times> string) list"
  sp_test_url :: string
  sp_skip_cert_verify :: bool
  sp_base :: "(string \<times> string) option"

definition default_test_url :: string where
  "default_test_url = ''https://www.gstatic.com/generate_204''"

definition default_setup_params :: setup_params where
  "default_setup_params = \<lparr>sp_selected = [], sp_test_url = default_test_url, sp_skip_cert_verify = False,
     sp_base = None\<rparr>"

text \<open>The members the host sent, decoded over the defaults.\<close>

definition decode_setup_params ::
  "(string \<times> string) list option \<Rightarrow> string option \<Rightarrow> bool option \<Rightarrow> (string \<times> string) option \<Rightarrow> setup_params" where
  "decode_setup_params selected url skip base =
     (let d = default_setup_params
      in d\<lparr>sp_selected := override selected (sp_selected d), sp_test_url := override url (sp_test_url d),
           sp_skip_cert_verify := override skip (sp_skip_cert_verify d), sp_base := base\<rparr>)"

definition set_test_url :: "string \<Rightarrow> process \<Rightarrow> process" where
  "set_test_url url pr = (if url = [] then pr else pr\<lparr>pr_test_url := url\<rparr>)"

definition current_test_url :: "process \<Rightarrow> string" where
  "current_test_url pr = (if pr_test_url pr \<noteq> [] then pr_test_url pr else default_test_url)"

definition with_platform_limits :: "bool \<Rightarrow> 'x config \<Rightarrow> 'x config" where
  "with_platform_limits time_writable cfg =
     (if cf_ntp_write cfg \<and> \<not> time_writable then cfg\<lparr>cf_ntp_write := False\<rparr> else cfg)"

definition load_config ::
  "bool \<Rightarrow> (string \<Rightarrow> string + bytes) \<Rightarrow> (bytes \<Rightarrow> string + 'x config) \<Rightarrow> string \<Rightarrow> string + 'x config" where
  "load_config time_writable read parse path =
     (case read path of
        Inl e \<Rightarrow> Inl e
      | Inr buf \<Rightarrow> (case parse buf of Inl e \<Rightarrow> Inl e | Inr cfg \<Rightarrow> Inr (with_platform_limits time_writable cfg)))"

definition running_config_path :: "string \<Rightarrow> string" where
  "running_config_path home = home @ ''/config.yaml''"

definition load_setup_config ::
  "bool \<Rightarrow> (string \<Rightarrow> string + bytes) \<Rightarrow> (bytes \<Rightarrow> string + 'x config)
   \<Rightarrow> (string \<times> string \<Rightarrow> string \<Rightarrow> string + 'x config) \<Rightarrow> string \<Rightarrow> setup_params \<Rightarrow> string + 'x config" where
  "load_setup_config time_writable read parse with_base home params =
     (case sp_base params of
        Some base \<Rightarrow> with_base base (running_config_path home)
      | None \<Rightarrow> load_config time_writable read parse (running_config_path home))"

text \<open>
  \<open>applyConfig\<close>: a configuration that does not load is replaced by mihomo's default, and its error is
  still the answer; when even that does not parse nothing is applied.
\<close>

record ('x, 'p, 'm, 's) apply_world =
  aw_fallback :: "'x config option"
  aw_apply :: "'x config \<Rightarrow> process \<times> geo_state \<times> ('p, 'm, 's) tunnel \<Rightarrow> process \<times> geo_state \<times> ('p, 'm, 's) tunnel"
  aw_select_able :: "'p \<Rightarrow> bool"
  aw_force_set :: "'p \<Rightarrow> string \<Rightarrow> ('p, 'm, 's) tunnel \<Rightarrow> ('p, 'm, 's) tunnel"

definition put_config ::
  "bool \<Rightarrow> ('x, 'p, 'm, 's) apply_world \<Rightarrow> setup_params \<Rightarrow> 'x config \<Rightarrow> ('x, 'p, 'm, 's) core \<Rightarrow> ('x, 'p, 'm, 's) core" where
  "put_config android w params cfg s =
     (case aw_apply w cfg (cs_process s, cs_geo s, cs_tunnel s) of
        (pr1, geo1, tn1) \<Rightarrow>
          (let tn2 = patch_select_group (aw_select_able w) (aw_force_set w) (sp_selected params) tn1
           in s\<lparr>cs_config := Some cfg, cs_tunnel := tn2,
                cs_route := bump_route_epoch tn2 (cs_route s),
                cs_process := update_listeners android (cs_running s) (Some cfg) pr1,
                cs_geo := reconcile_geo_updater geo1\<rparr>))"

definition apply_config ::
  "bool \<Rightarrow> ('x, 'p, 'm, 's) apply_world \<Rightarrow> (setup_params \<Rightarrow> string + 'x config) \<Rightarrow> setup_params
   \<Rightarrow> ('x, 'p, 'm, 's) core \<Rightarrow> string option \<times> ('x, 'p, 'm, 's) core" where
  "apply_config android w load params s =
     (let s1 = s\<lparr>cs_process := (set_test_url (sp_test_url params) (cs_process s))
                  \<lparr>pr_skip_cert_verify := sp_skip_cert_verify params\<rparr>\<rparr>
      in case load params of
           Inr cfg \<Rightarrow> (None, put_config android w params cfg s1)
         | Inl e \<Rightarrow>
             (case aw_fallback w of
                None \<Rightarrow> (Some e, s1)
              | Some cfg \<Rightarrow> (Some e, put_config android w params cfg s1)))"

definition handle_setup_config ::
  "bool \<Rightarrow> ('x, 'p, 'm, 's) apply_world \<Rightarrow> (setup_params \<Rightarrow> string + 'x config) \<Rightarrow> setup_params
   \<Rightarrow> ('x, 'p, 'm, 's) core \<Rightarrow> string option \<times> ('x, 'p, 'm, 's) core" where
  "handle_setup_config android w load params s =
     (if \<not> cs_init s then (Some err_not_initialized, s) else apply_config android w load params s)"

subsection \<open>The life of the Core\<close>

definition handle_init_clash :: "string \<Rightarrow> int \<Rightarrow> ('x, 'p, 'm, 's) core \<Rightarrow> bool \<times> ('x, 'p, 'm, 's) core" where
  "handle_init_clash home version s = (True, s\<lparr>cs_sdk := word_of_int version, cs_home := home, cs_init := True\<rparr>)"

definition handle_start_listener :: "bool \<Rightarrow> ('x, 'p, 'm, 's) core \<Rightarrow> bool \<times> ('x, 'p, 'm, 's) core" where
  "handle_start_listener android s =
     (True, s\<lparr>cs_running := True,
              cs_process := reset_connection (update_listeners android True (cs_config s) (cs_process s)),
              cs_route := bump_route_epoch (cs_tunnel s) (cs_route s)\<rparr>)"

definition handle_stop_listener :: "('x, 'p, 'm, 's) core \<Rightarrow> bool \<times> ('x, 'p, 'm, 's) core" where
  "handle_stop_listener s =
     (True, s\<lparr>cs_running := False, cs_process := reset_connection (stop_listener (cs_process s))\<rparr>)"

text \<open>
  \<open>handleShutdown\<close> once the log and the route watch are stopped; \<open>executor.Shutdown\<close> and the collection
  change nothing modelled here.
\<close>

definition shut_down :: "('x, 'p, 'm, 's) core \<Rightarrow> ('x, 'p, 'm, 's) core" where
  "shut_down s =
     s\<lparr>cs_running := False, cs_config := None, cs_init := False,
       cs_process := (stop_listener (cs_process s))\<lparr>pr_updater_stops := Suc (pr_updater_stops (cs_process s))\<rparr>\<rparr>"

definition handle_shutdown :: "u64 \<Rightarrow> ('x, 'p, 'm, 's) core \<Rightarrow> u64 \<times> ('x, 'p, 'm, 's) core" where
  "handle_shutdown seq s =
     (case stop_route_watch seq (cs_route s) of (seq1, rt) \<Rightarrow> (seq1, shut_down (s\<lparr>cs_route := rt\<rparr>)))"


subsection \<open>What the process runs with is what the configuration says\<close>

definition settings_in_force :: "'x config \<Rightarrow> process \<Rightarrow> bool" where
  "settings_in_force cfg pr \<longleftrightarrow>
     (let g = cf_general cfg
      in pr_find_process_mode pr = g_find_process_mode g \<and> pr_mode pr = g_mode g \<and>
         pr_log_level pr = g_log_level g \<and> pr_disable_ipv6 pr = (\<not> g_ipv6 g) \<and>
         pr_tcp_concurrent pr = g_tcp_concurrent g \<and> pr_unified_delay pr = g_unified_delay g \<and>
         pr_users pr = cf_users cfg \<and>
         pr_servers pr \<noteq> [] \<and> sc_controller (last (pr_servers pr)) = cf_controller cfg)"

definition listening_in_force :: "bool \<Rightarrow> 'x config \<Rightarrow> process \<Rightarrow> bool" where
  "listening_in_force android cfg pr \<longleftrightarrow>
     (let g = cf_general cfg
      in pr_allow_lan pr = g_allow_lan g \<and> pr_bind_address pr = g_bind_address g \<and>
         pr_skip_auth_prefixes pr = g_skip_auth_prefixes g \<and>
         pr_lan_allowed pr = g_lan_allowed g \<and> pr_lan_disallowed pr = g_lan_disallowed g \<and>
         (case pr_listening pr of
            None \<Rightarrow> False
          | Some l \<Rightarrow> l = listening_for android cfg l))"

text \<open>What mihomo's \<open>ApplyConfig\<close> is for: the settings of the configuration are in force after it.\<close>

definition applies :: "('x, 'p, 'm, 's) apply_world \<Rightarrow> bool" where
  "applies w \<longleftrightarrow> (\<forall>cfg pr geo tn. settings_in_force cfg (fst (aw_apply w cfg (pr, geo, tn))))"

named_theorems config_defs

lemmas [config_defs] = settings_in_force_def listening_in_force_def Let_def

lemma update_listeners_settings [simp]:
  "settings_in_force cfg (update_listeners android running c pr) = settings_in_force cfg pr"
  by (simp add: config_defs update_listeners_def split: option.split)

lemma update_listeners_listening:
  "listening_in_force android cfg (update_listeners android True (Some cfg) pr)"
  by (simp add: config_defs update_listeners_def listening_for_def split: option.split)

lemma settings_kept [simp]:
  "settings_in_force cfg (stop_listener pr) = settings_in_force cfg pr"
  "settings_in_force cfg (reset_connection pr) = settings_in_force cfg pr"
  "settings_in_force cfg (pr\<lparr>pr_skip_cert_verify := b\<rparr>) = settings_in_force cfg pr"
  "settings_in_force cfg (set_test_url url pr) = settings_in_force cfg pr"
  by (simp_all add: config_defs stop_listener_def reset_connection_def set_test_url_def)

lemma listening_kept [simp]:
  "listening_in_force android cfg (reset_connection pr) = listening_in_force android cfg pr"
  "listening_in_force android cfg (pr\<lparr>pr_skip_cert_verify := b\<rparr>) = listening_in_force android cfg pr"
  "listening_in_force android cfg (set_test_url url pr) = listening_in_force android cfg pr"
  by (simp_all add: config_defs reset_connection_def set_test_url_def split: option.split)

lemma update_settings_in_force:
  assumes "settings_in_force cfg pr"
  shows "settings_in_force (cfg\<lparr>cf_general := update_general u (cf_general cfg)\<rparr>) (update_settings u pr)"
proof -
  have "override (map_option Not x) (\<not> b) = (\<not> override x b)" for x b by (cases x) auto
  then show ?thesis
    using assms by (simp add: config_defs update_general_def update_settings_def split: option.split)
qed

lemma patch_controller_in_force:
  assumes "settings_in_force (fst st) (snd st)"
  shows "settings_in_force (fst (patch_controller u st)) (snd (patch_controller u st))"
  using assms by (cases st) (auto simp: config_defs patch_controller_def route_config_def)

lemma apply_authentication_in_force:
  assumes "settings_in_force (fst st) (snd st)"
  shows "settings_in_force (fst (apply_authentication a st)) (snd (apply_authentication a st))"
  using assms by (cases st) (simp add: config_defs apply_authentication_def)

definition core_inv :: "bool \<Rightarrow> ('x, 'p, 'm, 's) core \<Rightarrow> bool" where
  "core_inv android s \<longleftrightarrow>
     (case cs_config s of
        None \<Rightarrow> True
      | Some cfg \<Rightarrow> cs_init s \<and> settings_in_force cfg (cs_process s) \<and>
          (cs_running s \<longrightarrow> listening_in_force android cfg (cs_process s)))"

lemma core_inv_update: "core_inv android s \<Longrightarrow> core_inv android (snd (update_config android u s))"
proof (cases "cs_config s")
  case None
  then show "core_inv android s \<Longrightarrow> ?thesis" by (simp add: update_config_def)
next
  case (Some cfg)
  assume inv: "core_inv android s"
  let ?st1 = "(cfg\<lparr>cf_general := update_general u (cf_general cfg)\<rparr>, update_settings u (cs_process s))"
  let ?st2 = "patch_controller u ?st1"
  let ?st3 = "case up_authentication u of None \<Rightarrow> ?st2 | Some a \<Rightarrow> apply_authentication a ?st2"
  have "settings_in_force (fst ?st1) (snd ?st1)"
    using update_settings_in_force[of cfg "cs_process s" u] inv Some by (simp add: core_inv_def)
  then have "settings_in_force (fst ?st3) (snd ?st3)"
    using patch_controller_in_force[of ?st1 u] apply_authentication_in_force[of ?st2]
    by (cases "up_authentication u") simp_all
  then show ?thesis
    using Some inv update_listeners_listening[of android "fst ?st3"]
    by (simp add: core_inv_def update_config_def Let_def)
qed

lemma core_inv_put: "applies w \<Longrightarrow> cs_init s \<Longrightarrow> core_inv android (put_config android w params cfg s)"
proof -
  assume a: "applies w" "cs_init s"
  obtain pr geo tn where r: "aw_apply w cfg (cs_process s, cs_geo s, cs_tunnel s) = (pr, geo, tn)"
    by (metis prod_cases3)
  then have "settings_in_force cfg pr" using a(1) unfolding applies_def by (metis fst_conv)
  then show ?thesis
    using a(2) update_listeners_listening[of android cfg pr] by (simp add: core_inv_def put_config_def r Let_def)
qed

lemma core_inv_setup:
  assumes "applies w" "core_inv android s"
  shows "core_inv android (snd (handle_setup_config android w load params s))"
proof -
  let ?s1 = "s\<lparr>cs_process := (set_test_url (sp_test_url params) (cs_process s))\<lparr>pr_skip_cert_verify := sp_skip_cert_verify params\<rparr>\<rparr>"
  have "core_inv android ?s1" using assms(2) by (simp add: core_inv_def split: option.splits)
  moreover have "core_inv android (put_config android w params cfg ?s1)" if "cs_init s" for cfg
    using core_inv_put[OF assms(1), of ?s1] that by simp
  ultimately show ?thesis
    using assms(2) by (simp add: handle_setup_config_def apply_config_def Let_def split: sum.split option.split)
qed

subsection \<open>Every operation, in any order\<close>

text \<open>What others do to the route, the tunnel and the geo resources meanwhile is left open.\<close>

inductive core_step :: "bool \<Rightarrow> ('x, 'p, 'm, 's) apply_world \<Rightarrow> ('x, 'p, 'm, 's) core \<Rightarrow> ('x, 'p, 'm, 's) core \<Rightarrow> bool"
  for android w where
  step_init: "core_step android w s (snd (handle_init_clash home version s))"
| step_setup: "core_step android w s (snd (handle_setup_config android w load params s))"
| step_update: "core_step android w s (snd (update_config android u s))"
| step_start: "core_step android w s (snd (handle_start_listener android s))"
| step_stop: "core_step android w s (snd (handle_stop_listener s))"
| step_shut_down: "core_step android w s (shut_down s)"
| step_others: "core_step android w s (s\<lparr>cs_route := rt, cs_tunnel := tn, cs_geo := geo\<rparr>)"

inductive core_reachable :: "bool \<Rightarrow> ('x, 'p, 'm, 's) apply_world \<Rightarrow> ('x, 'p, 'm, 's) core \<Rightarrow> bool"
  for android w where
  at_start: "\<not> cs_init s \<Longrightarrow> \<not> cs_running s \<Longrightarrow> cs_config s = None \<Longrightarrow> core_reachable android w s"
| after_step: "core_reachable android w s \<Longrightarrow> core_step android w s t \<Longrightarrow> core_reachable android w t"

lemma core_step_inv: "core_step android w s t \<Longrightarrow> applies w \<Longrightarrow> core_inv android s \<Longrightarrow> core_inv android t"
proof (induction rule: core_step.induct)
  case (step_start s)
  then show ?case
    using update_listeners_listening by (auto simp: core_inv_def handle_start_listener_def split: option.splits)
qed (auto simp: core_inv_setup core_inv_update, auto simp: core_inv_def handle_init_clash_def
    handle_stop_listener_def shut_down_def split: option.splits)

lemma core_reachable_inv: "core_reachable android w s \<Longrightarrow> applies w \<Longrightarrow> core_inv android s"
proof (induction rule: core_reachable.induct)
  case (at_start s)
  then show ?case by (simp add: core_inv_def)
next
  case (after_step s t)
  then show ?case using core_step_inv by blast
qed

text \<open>C24. In every state the Core reaches, whatever the order of setups, updates, starts, stops and
  shutdowns, a configuration is held only after initialisation, mihomo's settings, its users and the
  serving controller are those of that configuration, and while the Core runs so are its listeners and
  the rules of who may use them.\<close>

theorem config_in_force:
  assumes "core_reachable android w s" "applies w"
  shows "case cs_config s of
      None \<Rightarrow> True
    | Some cfg \<Rightarrow> cs_init s \<and> settings_in_force cfg (cs_process s) \<and>
        (cs_running s \<longrightarrow> listening_in_force android cfg (cs_process s))"
  using core_reachable_inv[OF assms] by (simp add: core_inv_def)

text \<open>A default configuration, a world that applies it, and a Core that is set up, started and updated.\<close>

definition demo_config :: "unit config" where
  "demo_config = \<lparr>cf_general = \<lparr>g_port = 0, g_socks_port = 0, g_redir_port = 0, g_tproxy_port = 0,
       g_mixed_port = 7890, g_shadow_socks = [], g_vmess = [], g_tuic = [],
       g_tun = \<lparr>tu_enable = False, tu_device = [], tu_stack = 0, tu_auto_route = True, tu_rest = []\<rparr>,
       g_allow_lan = False, g_bind_address = ''*'', g_skip_auth_prefixes = [''127.0.0.1/32''],
       g_lan_allowed = [], g_lan_disallowed = [], g_authentication = [], g_find_process_mode = 0,
       g_mode = 1, g_log_level = OtherLevel 1, g_ipv6 = False, g_tcp_concurrent = False, g_unified_delay = False\<rparr>,
     cf_controller = \<lparr>co_address = [], co_tls_address = [], co_unix = [], co_pipe = [], co_routing_mark = 0,
       co_secret = [], co_doh = [], co_origins = [], co_private_network = False\<rparr>,
     cf_tls = None, cf_users = [], cf_ntp_write = False, cf_listeners = [], cf_rest = ()\<rparr>"

definition put_settings :: "'x config \<Rightarrow> process \<Rightarrow> process" where
  "put_settings cfg pr =
     (let g = cf_general cfg
      in pr\<lparr>pr_find_process_mode := g_find_process_mode g, pr_mode := g_mode g, pr_log_level := g_log_level g,
            pr_disable_ipv6 := \<not> g_ipv6 g, pr_tcp_concurrent := g_tcp_concurrent g,
            pr_unified_delay := g_unified_delay g, pr_users := cf_users cfg,
            pr_servers := pr_servers pr @ [route_config cfg]\<rparr>)"

definition demo_world :: "(unit, nat, unit, nat) apply_world" where
  "demo_world = \<lparr>aw_fallback = Some demo_config, aw_apply = (\<lambda>cfg (pr, geo, tn). (put_settings cfg pr, geo, tn)),
     aw_select_able = (\<lambda>_. False), aw_force_set = (\<lambda>_ _ tn. tn)\<rparr>"

lemma demo_world_applies: "applies demo_world"
  by (simp add: applies_def demo_world_def put_settings_def config_defs route_config_def)

definition demo_process :: process where
  "demo_process = \<lparr>pr_find_process_mode = 0, pr_mode = 0, pr_log_level = DebugLevel, pr_disable_ipv6 = False,
     pr_tcp_concurrent = False, pr_unified_delay = False, pr_users = [], pr_skip_auth_prefixes = [],
     pr_lan_allowed = [], pr_lan_disallowed = [], pr_allow_lan = False, pr_bind_address = [],
     pr_listening = None, pr_servers = [], pr_skip_cert_verify = False, pr_test_url = [],
     pr_resets = 0, pr_updater_stops = 0\<rparr>"

definition demo_core :: "(unit, nat, unit, nat) core" where
  "demo_core = \<lparr>cs_init = False, cs_running = False, cs_sdk = 0, cs_home = [], cs_config = None,
     cs_process = demo_process,
     cs_geo = \<lparr>ge_urls = (\<lambda>_. []), ge_writes = (\<lambda>_. 0), ge_auto = False, ge_interval = 24,
       ge_registered = 0, ge_stopped = 0\<rparr>,
     cs_tunnel = demo_tunnel, cs_route = initial_tracker\<rparr>"

definition demo_update :: update_params where
  "demo_update = \<lparr>up_tun = None, up_allow_lan = Some True, up_mixed_port = Some 1080,
     up_find_process_mode = None, up_mode = Some 2, up_log_level = None, up_ipv6 = Some True,
     up_tcp_concurrent = None, up_external_controller = None, up_secret = None, up_unified_delay = None,
     up_authentication = Some [''me:secret''], up_geo_auto_update = None, up_geo_update_interval = None,
     up_geox_url = [], up_skip_cert_verify = None\<rparr>"

definition demo_running :: "(unit, nat, unit, nat) core" where
  "demo_running =
     snd (handle_start_listener False
       (snd (handle_setup_config False demo_world (\<lambda>_. Inl ''no such file'') default_setup_params
         (snd (handle_init_clash ''home'' 0 demo_core)))))"

lemma demo_running_reachable: "core_reachable False demo_world demo_running"
  unfolding demo_running_def
  by (intro after_step[OF _ step_start] after_step[OF _ step_setup] after_step[OF _ step_init] at_start)
    (simp_all add: demo_core_def)

lemmas demo_core_defs = demo_running_def demo_core_def demo_world_def demo_update_def demo_config_def
  handle_init_clash_def handle_setup_config_def apply_config_def put_config_def handle_start_listener_def

theorem config_in_force_witness:
  "listening_in_force False (the (cs_config (snd (update_config False demo_update demo_running))))
     (cs_process (snd (update_config False demo_update demo_running)))"
proof -
  let ?s = "snd (update_config False demo_update demo_running)"
  have "core_reachable False demo_world ?s"
    by (rule after_step[OF demo_running_reachable step_update])
  from config_in_force[OF this demo_world_applies]
  have "case cs_config ?s of None \<Rightarrow> True | Some cfg \<Rightarrow> cs_init ?s \<and> settings_in_force cfg (cs_process ?s) \<and>
      (cs_running ?s \<longrightarrow> listening_in_force False cfg (cs_process ?s))" .
  moreover have "cs_config ?s \<noteq> None" "cs_running ?s"
    by (simp_all add: update_config_def demo_core_defs Let_def)
  ultimately show ?thesis by (auto split: option.splits)
qed

end
