(* ===== verification/Config_Updates.thy ===== *)
theory Config_Updates
  imports Core_Config "HOL-Library.Multiset"
begin

text \<open>
  What an update of the configuration in force (\<open>updateConfig\<close> in \<open>core/config.go\<close>) comes to: the settings it
  names assigned one by one, and nothing the second time. The specification knows one setting at a
  time (\<open>assign\<close>); the update of the code is shown to refine it.
\<close>

subsection \<open>An update is its settings, assigned in any order\<close>

text \<open>The specification: one setting at a time, each to its own field.\<close>

datatype setting =
  SetTun tun_schema | SetAllowLan bool | SetMixedPort int | SetFindProcessMode int | SetMode int
| SetLogLevel log_level | SetIPv6 bool | SetTcpConcurrent bool | SetUnifiedDelay bool
| SetAddress string | SetSecret string | SetAuthentication "string list"

abbreviation in_general :: "(general \<Rightarrow> general) \<Rightarrow> 'x config \<Rightarrow> 'x config" where
  "in_general f c \<equiv> c\<lparr>cf_general := f (cf_general c)\<rparr>"

abbreviation in_controller :: "(controller \<Rightarrow> controller) \<Rightarrow> 'x config \<Rightarrow> 'x config" where
  "in_controller f c \<equiv> c\<lparr>cf_controller := f (cf_controller c)\<rparr>"

fun assign :: "setting \<Rightarrow> 'x config \<Rightarrow> 'x config" where
  "assign (SetTun t) c = in_general (\<lambda>g. g\<lparr>g_tun := patch_tun t (g_tun g)\<rparr>) c"
| "assign (SetAllowLan b) c = in_general (g_allow_lan_update (\<lambda>_. b)) c"
| "assign (SetMixedPort p) c = in_general (g_mixed_port_update (\<lambda>_. p)) c"
| "assign (SetFindProcessMode m) c = in_general (g_find_process_mode_update (\<lambda>_. m)) c"
| "assign (SetMode m) c = in_general (g_mode_update (\<lambda>_. m)) c"
| "assign (SetLogLevel l) c = in_general (g_log_level_update (\<lambda>_. l)) c"
| "assign (SetIPv6 b) c = in_general (g_ipv6_update (\<lambda>_. b)) c"
| "assign (SetTcpConcurrent b) c = in_general (g_tcp_concurrent_update (\<lambda>_. b)) c"
| "assign (SetUnifiedDelay b) c = in_general (g_unified_delay_update (\<lambda>_. b)) c"
| "assign (SetAddress a) c = in_controller (co_address_update (\<lambda>_. a)) c"
| "assign (SetSecret a) c = in_controller (co_secret_update (\<lambda>_. a)) c"
| "assign (SetAuthentication a) c =
     in_general (\<lambda>g. g\<lparr>g_authentication := a,
         g_skip_auth_prefixes := (if users_of a = [] then g_skip_auth_prefixes g else [])\<rparr>)
       (c\<lparr>cf_users := users_of a\<rparr>)"

fun setting_kind :: "setting \<Rightarrow> nat" where
  "setting_kind (SetTun _) = 0" | "setting_kind (SetAllowLan _) = 1" | "setting_kind (SetMixedPort _) = 2"
| "setting_kind (SetFindProcessMode _) = 3" | "setting_kind (SetMode _) = 4" | "setting_kind (SetLogLevel _) = 5"
| "setting_kind (SetIPv6 _) = 6" | "setting_kind (SetTcpConcurrent _) = 7" | "setting_kind (SetUnifiedDelay _) = 8"
| "setting_kind (SetAddress _) = 9" | "setting_kind (SetSecret _) = 10" | "setting_kind (SetAuthentication _) = 11"

fun one :: "('a \<Rightarrow> setting) \<Rightarrow> 'a option \<Rightarrow> setting list" where
  "one f None = []"
| "one f (Some v) = [f v]"

definition settings_of :: "update_params \<Rightarrow> setting list" where
  "settings_of u =
     one SetMixedPort (up_mixed_port u) @ one SetAllowLan (up_allow_lan u) @
     one SetFindProcessMode (up_find_process_mode u) @ one SetTcpConcurrent (up_tcp_concurrent u) @
     one SetUnifiedDelay (up_unified_delay u) @ one SetMode (up_mode u) @ one SetLogLevel (up_log_level u) @
     one SetIPv6 (up_ipv6 u) @ one SetTun (up_tun u) @ one SetAddress (up_external_controller u) @
     one SetSecret (up_secret u) @ one SetAuthentication (up_authentication u)"

lemma assign_commute: "setting_kind x \<noteq> setting_kind y \<Longrightarrow> assign x (assign y c) = assign y (assign x c)"
  by (cases x; cases y; simp)

lemma one_set [simp]: "x \<in> set (one f v) \<longleftrightarrow> (\<exists>a. v = Some a \<and> x = f a)"
  by (cases v) auto

lemma settings_of_kinds:
  "x \<in> set (settings_of u) \<Longrightarrow> y \<in> set (settings_of u) \<Longrightarrow> x = y \<or> setting_kind x \<noteq> setting_kind y"
  by (cases x; cases y; simp add: settings_of_def)

lemma fold_one: "fold assign (one f v) = (case v of None \<Rightarrow> id | Some a \<Rightarrow> assign (f a))"
  by (cases v) (simp_all add: fun_eq_iff)

definition updated_config :: "update_params \<Rightarrow> 'x config \<Rightarrow> process \<Rightarrow> 'x config \<times> process" where
  "updated_config u cfg pr =
     (let st = patch_controller u (cfg\<lparr>cf_general := update_general u (cf_general cfg)\<rparr>, update_settings u pr)
      in case up_authentication u of None \<Rightarrow> st | Some a \<Rightarrow> apply_authentication a st)"

lemma updated_config_fold: "fst (updated_config u cfg pr) = fold assign (settings_of u) cfg"
proof -
  have g: "cfg\<lparr>cf_general := update_general u (cf_general cfg)\<rparr> =
      (case up_tun u of None \<Rightarrow> id | Some t \<Rightarrow> assign (SetTun t)) (fold assign
        (one SetMixedPort (up_mixed_port u) @ one SetAllowLan (up_allow_lan u) @
         one SetFindProcessMode (up_find_process_mode u) @ one SetTcpConcurrent (up_tcp_concurrent u) @
         one SetUnifiedDelay (up_unified_delay u) @ one SetMode (up_mode u) @ one SetLogLevel (up_log_level u) @
         one SetIPv6 (up_ipv6 u)) cfg)"
  proof -
    have "(case v of None \<Rightarrow> id | Some a \<Rightarrow> assign (SetMixedPort a)) c = in_general (\<lambda>g. g\<lparr>g_mixed_port := override v (g_mixed_port g)\<rparr>) c"
      "(case w of None \<Rightarrow> id | Some a \<Rightarrow> assign (SetAllowLan a)) c = in_general (\<lambda>g. g\<lparr>g_allow_lan := override w (g_allow_lan g)\<rparr>) c"
      "(case v of None \<Rightarrow> id | Some a \<Rightarrow> assign (SetFindProcessMode a)) c = in_general (\<lambda>g. g\<lparr>g_find_process_mode := override v (g_find_process_mode g)\<rparr>) c"
      "(case w of None \<Rightarrow> id | Some a \<Rightarrow> assign (SetTcpConcurrent a)) c = in_general (\<lambda>g. g\<lparr>g_tcp_concurrent := override w (g_tcp_concurrent g)\<rparr>) c"
      "(case w of None \<Rightarrow> id | Some a \<Rightarrow> assign (SetUnifiedDelay a)) c = in_general (\<lambda>g. g\<lparr>g_unified_delay := override w (g_unified_delay g)\<rparr>) c"
      "(case v of None \<Rightarrow> id | Some a \<Rightarrow> assign (SetMode a)) c = in_general (\<lambda>g. g\<lparr>g_mode := override v (g_mode g)\<rparr>) c"
      "(case l of None \<Rightarrow> id | Some a \<Rightarrow> assign (SetLogLevel a)) c = in_general (\<lambda>g. g\<lparr>g_log_level := override l (g_log_level g)\<rparr>) c"
      "(case w of None \<Rightarrow> id | Some a \<Rightarrow> assign (SetIPv6 a)) c = in_general (\<lambda>g. g\<lparr>g_ipv6 := override w (g_ipv6 g)\<rparr>) c"
      for v w l and c :: "'x config"
      by (cases v; cases w; cases l; simp)+
    note one_field = this
    show ?thesis
      by (simp add: fold_one one_field update_general_def Let_def split: option.split)
  qed
  show ?thesis
    unfolding updated_config_def settings_of_def append_assoc[symmetric]
    by (simp only: fold_append comp_apply g[unfolded append_assoc[symmetric]])
      (cases "up_external_controller u"; cases "up_secret u"; cases "up_authentication u";
        simp add: fold_one patch_controller_def apply_authentication_def Let_def)
qed

lemma update_config_updated:
  "cs_config s = Some cfg \<Longrightarrow>
   cs_config (snd (update_config android u s)) = Some (fst (updated_config u cfg (cs_process s)))"
  by (simp add: update_config_def updated_config_def Let_def)

lemma fold_settings:
  assumes "mset xs = mset (settings_of u)"
  shows "fold assign xs = fold assign (settings_of u)"
proof (rule fold_multiset_equiv[OF _ assms])
  fix x y
  assume "x \<in> set xs" "y \<in> set xs"
  then have "x = y \<or> setting_kind x \<noteq> setting_kind y"
    using settings_of_kinds[of x u y] mset_eq_setD[OF assms] by auto
  then show "assign x \<circ> assign y = assign y \<circ> assign x"
    by (auto simp: fun_eq_iff assign_commute)
qed

text \<open>C25. An update is exactly the settings it names, each assigned to its own field in any order: the
  configuration it leaves refines the specification that knows one setting at a time.\<close>

theorem update_refines_assignments:
  assumes "cs_config s = Some cfg" "mset xs = mset (settings_of u)"
  shows "cs_config (snd (update_config android u s)) = Some (fold assign xs cfg)"
  by (simp only: update_config_updated[OF assms(1)] updated_config_fold fold_settings[OF assms(2)])

theorem update_refines_assignments_witness:
  "cs_config (snd (update_config False demo_update demo_running)) =
     Some (fold assign (rev (settings_of demo_update)) demo_config)"
  by (rule update_refines_assignments)
    (simp_all add: demo_core_defs Let_def)

subsection \<open>An update again changes nothing\<close>

lemma override_again [simp]: "override p (override p v) = override p v"
  by (cases p) auto

lemma patch_tun_again [simp]: "patch_tun p (patch_tun p t) = patch_tun p t"
  by (simp add: patch_tun_def)

lemma updated_config_again:
  "updated_config u (fst (updated_config u cfg pr)) (snd (updated_config u cfg pr)) = updated_config u cfg pr"
proof (cases "up_authentication u")
  case None
  then show ?thesis
    by (cases "up_tun u") (auto simp: updated_config_def patch_controller_def update_general_def update_settings_def Let_def)
next
  case (Some a)
  then show ?thesis
    by (cases "up_tun u") (auto simp: updated_config_def patch_controller_def apply_authentication_def
        update_general_def update_settings_def Let_def)
qed

definition updated_process :: "bool \<Rightarrow> bool \<Rightarrow> update_params \<Rightarrow> 'x config \<Rightarrow> process \<Rightarrow> process" where
  "updated_process android running u cfg pr =
     (case updated_config u cfg pr of (cfg1, pr1) \<Rightarrow>
        update_listeners android running (Some cfg1)
          (pr1\<lparr>pr_skip_cert_verify := override (up_skip_cert_verify u) (pr_skip_cert_verify pr1)\<rparr>))"

lemma update_change_again: "update_change u (cf_general (fst (updated_config u cfg pr))) = RouteUnchanged"
proof -
  have "g_mode (cf_general (fst (updated_config u cfg pr))) = override (up_mode u) (g_mode (cf_general cfg))"
    "g_ipv6 (cf_general (fst (updated_config u cfg pr))) = override (up_ipv6 u) (g_ipv6 (cf_general cfg))"
    by (simp_all add: updated_config_def patch_controller_def apply_authentication_def update_general_def Let_def
        split: option.split)
  then show ?thesis by (cases "up_mode u"; cases "up_ipv6 u") (simp_all add: update_change_def)
qed

text \<open>The listeners read nothing of the process but the TUN of Android, and change nothing an update reads.\<close>

lemma update_listeners_again [simp]:
  "update_listeners android r c (update_listeners android r c pr) = update_listeners android r c pr"
  by (simp add: update_listeners_def listening_for_def Let_def split: option.split)

lemma updated_config_first:
  "pr_servers pr = pr_servers pr' \<Longrightarrow> fst (updated_config u cfg pr) = fst (updated_config u cfg pr')"
  by (simp only: updated_config_fold)

text \<open>What an update does to the process when the controller stays.\<close>

definition settle_process :: "update_params \<Rightarrow> process \<Rightarrow> process" where
  "settle_process u pr =
     (let pr1 = update_settings u pr
      in case up_authentication u of
           None \<Rightarrow> pr1
         | Some a \<Rightarrow>
             if users_of a \<noteq> [] then pr1\<lparr>pr_users := users_of a, pr_skip_auth_prefixes := []\<rparr>
             else pr1\<lparr>pr_users := users_of a\<rparr>)"

lemma updated_config_settled:
  assumes "cfg1 = fst (updated_config u cfg pr)"
  shows "snd (updated_config u cfg1 p) = settle_process u p"
proof -
  have "cf_controller cfg1 = (cf_controller cfg)\<lparr>co_address := override (up_external_controller u) (co_address (cf_controller cfg)),
      co_secret := override (up_secret u) (co_secret (cf_controller cfg))\<rparr>"
    unfolding assms
    by (simp add: updated_config_def patch_controller_def apply_authentication_def Let_def split: option.split)
  then show ?thesis
    by (simp add: updated_config_def patch_controller_def apply_authentication_def settle_process_def Let_def
        split: option.split)
qed

abbreviation put_skip :: "update_params \<Rightarrow> process \<Rightarrow> process" where
  "put_skip u p \<equiv> p\<lparr>pr_skip_cert_verify := override (up_skip_cert_verify u) (pr_skip_cert_verify p)\<rparr>"

lemma settle_through_listeners:
  "update_listeners android r (Some c) (put_skip u (settle_process u (update_listeners android r (Some c) (put_skip u p)))) =
   update_listeners android r (Some c) (put_skip u (settle_process u p))"
  by (cases r; cases "up_authentication u")
    (simp_all add: settle_process_def update_settings_def update_listeners_def listening_for_def Let_def split: option.split)

lemma process_again:
  assumes "updated_config u cfg pr = (cfg1, pr1)"
  shows "updated_config u cfg1 p = (cfg1, settle_process u p)"
    "updated_process android running u cfg1 (updated_process android running u cfg pr) =
     updated_process android running u cfg pr"
proof -
  have "fst (updated_config u cfg1 pr1) = cfg1" "snd (updated_config u cfg1 pr1) = pr1"
    using updated_config_again[of u cfg pr] assms by simp_all
  then have fixed: "fst (updated_config u cfg1 q) = cfg1" "snd (updated_config u cfg1 q) = settle_process u q"
      "settle_process u pr1 = pr1" for q
    using updated_config_settled[of cfg1 u cfg pr] assms by (auto simp: updated_config_fold)
  show c: "updated_config u cfg1 p = (cfg1, settle_process u p)"
    using fixed by (metis prod.collapse)
  have c': "updated_config u cfg1 q = (cfg1, settle_process u q)" for q
    using fixed by (metis prod.collapse)
  show "updated_process android running u cfg1 (updated_process android running u cfg pr) =
     updated_process android running u cfg pr"
    using settle_through_listeners[of android running cfg1 u pr1]
    by (simp add: updated_process_def assms c' fixed(3))
qed

lemma update_config_eq:
  "cs_config s = Some cfg \<Longrightarrow>
   update_config android u s = (None, s\<lparr>cs_config := Some (fst (updated_config u cfg (cs_process s))),
     cs_process := updated_process android (cs_running s) u cfg (cs_process s),
     cs_geo := sync_geo_updater (up_geo_auto_update u) (up_geo_update_interval u)
       (foldl (\<lambda>g (t, link). set_geo_resource_url t link g) (cs_geo s) (up_geox_url u)),
     cs_route := (if update_change u (cf_general cfg) \<noteq> RouteUnchanged
       then change_route (cs_tunnel s) (update_change u (cf_general cfg)) (cs_route s) else cs_route s)\<rparr>)"
  by (simp add: update_config_def updated_config_def updated_process_def Let_def split: prod.split)

abbreviation set_links :: "(string \<times> string) list \<Rightarrow> geo_state \<Rightarrow> geo_state" where
  "set_links l g \<equiv> foldl (\<lambda>g (t, link). set_geo_resource_url t link g) g l"

definition link_set :: "geo_state \<Rightarrow> string \<times> string \<Rightarrow> bool" where
  "link_set g e \<longleftrightarrow> to_upper (fst e) \<notin> set geo_types \<or> snd e = [] \<or> ge_urls g (to_upper (fst e)) = snd e"

lemma set_link_noop: "link_set g (t, l) \<Longrightarrow> set_geo_resource_url t l g = g"
  by (auto simp: link_set_def set_geo_resource_url_def Let_def)

lemma set_link_sets: "link_set (set_geo_resource_url t l g) (t, l)"
  by (simp add: link_set_def set_geo_resource_url_def Let_def)

lemma set_link_keeps: "to_upper t \<noteq> to_upper (fst x) \<Longrightarrow> link_set g x \<Longrightarrow> link_set (set_geo_resource_url t l g) x"
  by (auto simp: link_set_def set_geo_resource_url_def Let_def)

lemma set_links_keep:
  "to_upper (fst x) \<notin> set (map (to_upper \<circ> fst) l) \<Longrightarrow> link_set g x \<Longrightarrow> link_set (set_links l g) x"
proof (induction l arbitrary: g)
  case (Cons a l)
  obtain t k where a: "a = (t, k)" by fastforce
  have "link_set (set_geo_resource_url t k g) x"
    using Cons.prems set_link_keeps[of t x g k] by (auto simp: a)
  then show ?case using Cons.IH[of "set_geo_resource_url t k g"] Cons.prems(1) by (simp add: a)
qed simp

lemma set_links_set: "distinct (map (to_upper \<circ> fst) l) \<Longrightarrow> x \<in> set l \<Longrightarrow> link_set (set_links l g) x"
proof (induction l arbitrary: g)
  case (Cons a l)
  obtain t k where a: "a = (t, k)" by fastforce
  show ?case
  proof (cases "x = a")
    case True
    then show ?thesis
      using Cons.prems(1) set_links_keep[of x l "set_geo_resource_url t k g"] set_link_sets[of t k g]
      by (simp add: a)
  next
    case False
    then show ?thesis using Cons.IH[of "set_geo_resource_url t k g"] Cons.prems by (simp add: a)
  qed
qed simp

lemma set_links_noop: "\<forall>x \<in> set l. link_set g x \<Longrightarrow> set_links l g = g"
  by (induction l) (auto simp: set_link_noop)

lemma sync_facts:
  "ge_urls (sync_geo_updater a i g) = ge_urls g"
  "ge_auto (sync_geo_updater a i g) = override a (ge_auto g)"
  "ge_interval (sync_geo_updater a i g) = override i (ge_interval g)"
  by (cases a; cases i; simp add: sync_geo_updater_def reconcile_geo_updater_def Let_def)+

lemma sync_again: "sync_geo_updater a i (sync_geo_updater a i g) = sync_geo_updater a i g"
proof -
  have "sync_geo_updater a i h = h" if "ge_auto h = override a (ge_auto g)" "ge_interval h = override i (ge_interval g)" for h
    using that by (cases a; cases i) (simp_all add: sync_geo_updater_def Let_def)
  then show ?thesis by (simp add: sync_facts)
qed

lemma geo_again:
  assumes "distinct (map (to_upper \<circ> fst) l)"
  shows "sync_geo_updater a i (set_links l (sync_geo_updater a i (set_links l g))) = sync_geo_updater a i (set_links l g)"
proof -
  have "\<forall>x \<in> set l. link_set (sync_geo_updater a i (set_links l g)) x"
    using set_links_set[OF assms] by (auto simp: link_set_def sync_facts)
  then show ?thesis using set_links_noop sync_again by metis
qed

lemma update_config_again:
  assumes "distinct (map (to_upper \<circ> fst) (up_geox_url u))"
  shows "update_config android u (snd (update_config android u s)) = update_config android u s"
proof (cases "cs_config s")
  case None
  then show ?thesis by (simp add: update_config_def)
next
  case (Some cfg)
  obtain cfg1 pr1 where u: "updated_config u cfg (cs_process s) = (cfg1, pr1)" by fastforce
  let ?t = "snd (update_config android u s)"
  have t: "cs_config ?t = Some cfg1" "cs_running ?t = cs_running s"
      "cs_process ?t = updated_process android (cs_running s) u cfg (cs_process s)"
    by (simp_all add: update_config_eq[OF Some] u)
  have "update_change u (cf_general cfg1) = RouteUnchanged"
    using update_change_again[of u cfg "cs_process s"] by (simp add: u)
  then show ?thesis
    unfolding update_config_eq[OF t(1)] t(2,3)
    using geo_again[OF assms] process_again[OF u] by (simp add: update_config_eq[OF Some] u)
qed

text \<open>An update sent again changes nothing at all: no setting, no listener, no controller built anew,
  no link rewritten, no move of the route. The host's links name each resource once.\<close>

theorem update_again_is_quiet:
  assumes "distinct (map (to_upper \<circ> fst) (up_geox_url u))"
  shows "update_config android u (snd (update_config android u s)) = update_config android u s"
  by (rule update_config_again[OF assms])

theorem update_again_is_quiet_witness:
  "rt_epoch (cs_route (snd (update_config False demo_update demo_running))) = 3 \<and>
   rt_epoch (cs_route (snd (update_config False demo_update (snd (update_config False demo_update demo_running))))) = 3"
proof -
  have "update_config False demo_update (snd (update_config False demo_update demo_running)) =
      update_config False demo_update demo_running"
    by (rule update_again_is_quiet) (simp add: demo_update_def)
  moreover have "rt_epoch (cs_route demo_running) = 2"
    by (simp add: demo_core_defs Let_def bump_route_epoch_def change_route_effects initial_tracker_def)
  moreover have "cs_config demo_running = Some demo_config" "update_change demo_update (cf_general demo_config) = RouteReset"
    by (simp_all add: demo_core_defs Let_def update_change_def)
  ultimately show ?thesis
    by (simp add: update_config_eq change_route_effects)
qed

end
