(* ===== verification/Dispatch.thy ===== *)
theory Dispatch
  imports Providers "HOL-Library.Multiset"
begin

text \<open>
  \<open>core/method.go\<close> and \<open>core/spill.go\<close>: a call of the host is stamped, runs on its own goroutine and is
  answered; an answer too long for the transport goes to a file the host reads in its place.

  The JSON codec, the bodies of the handlers and the answers of the file system are arguments. The
  lemmas show that every call is answered once, under its own id, with the error its failure stands
  for, and that the host reads the same answer from a file as from the reply.
\<close>

subsection \<open>Calls and answers\<close>

record method_call =
  mc_id :: string
  mc_method :: string
  mc_arguments :: bytes
  mc_seq :: u64

text \<open>\<open>rs_result\<close> is None for Go's \<open>nil\<close>, \<open>rs_file\<close> empty when the answer is in place.\<close>

record 'v response =
  rs_id :: string
  rs_result :: "'v option"
  rs_error :: "method_error option"
  rs_file :: string

definition error_response :: "string \<Rightarrow> string \<Rightarrow> string \<Rightarrow> 'v response" where
  "error_response i code message =
     \<lparr>rs_id = i, rs_result = None,
       rs_error = Some \<lparr>me_code = code, me_message = message, me_details = []\<rparr>, rs_file = []\<rparr>"

text \<open>What a handler does: a result, an error, or a panic with its value as text.\<close>

datatype 'v ran = Ran 'v | Failed go_err | Panicked string

text \<open>An error that is a \<open>MethodError\<close> already, and one that is a text alone.\<close>

definition method_err :: "method_error \<Rightarrow> go_err" where
  "method_err m = \<lparr>er_text = me_message m, er_chain = [], er_method = Some m\<rparr>"

subsection \<open>Arguments\<close>

definition decode_arguments ::
  "(bytes \<Rightarrow> string + 'a) \<Rightarrow> method_call \<Rightarrow> go_err + 'a" where
  "decode_arguments decode call =
     (let err = (if mc_arguments call = [] \<or> mc_arguments call = ''null'' then Inl ''missing arguments''
                 else decode (mc_arguments call))
      in case err of
           Inr params \<Rightarrow> Inr params
         | Inl e \<Rightarrow> Inl (method_err \<lparr>me_code = ''invalid_arguments'',
             me_message = ''invalid arguments for '' @ mc_method call @ '': '' @ e, me_details = []\<rparr>))"

subsection \<open>Handlers\<close>

type_synonym 'v handler = "method_call \<Rightarrow> 'v ran"

definition with_fallible :: "(bytes \<Rightarrow> string + 'a) \<Rightarrow> ('a \<Rightarrow> 'v ran) \<Rightarrow> 'v handler" where
  "with_fallible decode run call =
     (case decode_arguments decode call of Inl e \<Rightarrow> Failed e | Inr params \<Rightarrow> run params)"

definition with_arguments :: "(bytes \<Rightarrow> string + 'a) \<Rightarrow> ('a \<Rightarrow> 'v ran) \<Rightarrow> 'v handler" where
  "with_arguments decode run = with_fallible decode run"

text \<open>The result of these is a message, empty on success; a \<open>MethodError\<close> still fails the call.\<close>

definition message_outcome :: "(string \<Rightarrow> 'v) \<Rightarrow> go_err option ran \<Rightarrow> 'v ran" where
  "message_outcome text r =
     (case r of
        Panicked t \<Rightarrow> Panicked t
      | Failed e \<Rightarrow> Failed e
      | Ran None \<Rightarrow> Ran (text [])
      | Ran (Some e) \<Rightarrow> if er_method e \<noteq> None then Failed e else Ran (text (er_text e)))"

definition with_message ::
  "(bytes \<Rightarrow> string + 'a) \<Rightarrow> (string \<Rightarrow> 'v) \<Rightarrow> ('a \<Rightarrow> go_err option ran) \<Rightarrow> 'v handler" where
  "with_message decode text run = with_fallible decode (\<lambda>params. message_outcome text (run params))"

definition without_arguments :: "'v ran \<Rightarrow> 'v handler" where
  "without_arguments run = (\<lambda>_. run)"

definition acknowledged :: "'v \<Rightarrow> unit ran \<Rightarrow> 'v handler" where
  "acknowledged true run = (\<lambda>_. case run of Ran _ \<Rightarrow> Ran true | Failed e \<Rightarrow> Failed e | Panicked t \<Rightarrow> Panicked t)"

text \<open>The number of the call goes to the handler of the route watch.\<close>

definition watch_route_handler ::
  "(bytes \<Rightarrow> string + bool) \<Rightarrow> (bool \<Rightarrow> u64 \<Rightarrow> 'v ran) \<Rightarrow> 'v handler" where
  "watch_route_handler decode run call =
     (case decode_arguments decode call of Inl e \<Rightarrow> Failed e | Inr watch \<Rightarrow> run watch (mc_seq call))"

text \<open>How each method of the table is handled; the bodies are those of the other components.\<close>

datatype handler_kind =
  WithArguments | WithFallible | WithMessage | WithoutArguments | Acknowledged | WatchRoute

definition method_table :: "(string \<times> handler_kind) list" where
  "method_table =
   [(''initClash'', WithArguments), (''getIsInit'', WithoutArguments),
    (''forceGc'', Acknowledged), (''shutdown'', WithoutArguments),
    (''startListener'', WithoutArguments), (''stopListener'', WithoutArguments),
    (''getMemoryStats'', WithoutArguments), (''startLog'', Acknowledged),
    (''stopLog'', Acknowledged), (''validateConfig'', WithMessage),
    (''decryptConfig'', WithFallible), (''getConfig'', WithFallible),
    (''getProfileBase'', WithFallible), (''getProfileOutbounds'', WithFallible),
    (''getProxyDefinition'', WithFallible), (''buildProfile'', WithFallible),
    (''setupConfig'', WithMessage), (''updateConfig'', WithMessage),
    (''validateProxies'', WithArguments), (''validateFilters'', WithArguments),
    (''convertProxies'', WithFallible), (''encodeShareLinks'', WithArguments),
    (''decodeShareLinks'', WithArguments), (''getProxies'', WithoutArguments),
    (''changeProxy'', WithArguments), (''asyncTestDelay'', WithArguments),
    (''watchRoute'', WatchRoute), (''checkRoutes'', WithArguments), (''probe'', WithArguments),
    (''outboundIp'', WithArguments), (''serviceCheck'', WithArguments),
    (''getTraffic'', WithArguments), (''getTotalTraffic'', WithArguments),
    (''resetTraffic'', Acknowledged), (''getConnections'', WithoutArguments),
    (''getConnectionCount'', WithoutArguments), (''closeConnections'', WithoutArguments),
    (''resetConnections'', WithoutArguments), (''clearDnsCache'', Acknowledged),
    (''closeConnection'', WithArguments), (''getExternalProviders'', WithoutArguments),
    (''getExternalProvider'', WithArguments), (''updateExternalProvider'', WithMessage),
    (''sideLoadExternalProvider'', WithMessage), (''updateGeoData'', WithMessage),
    (''dumpRuleSet'', WithFallible), (''compileRuleSet'', WithFallible),
    (''clearEffect'', WithMessage)]"

text \<open>A platform adds its own methods; one that is there already panics (None).\<close>

definition register_method ::
  "string \<Rightarrow> handler_kind \<Rightarrow> (string \<times> handler_kind) list \<Rightarrow> (string \<times> handler_kind) list option" where
  "register_method m kind table =
     (if map_of table m \<noteq> None then None else Some ((m, kind) # table))"

record ('a, 'v) bodies =
  bo_decode :: "string \<Rightarrow> bytes \<Rightarrow> string + 'a"
  bo_run :: "string \<Rightarrow> 'a \<Rightarrow> 'v ran"
  bo_message :: "string \<Rightarrow> 'a \<Rightarrow> go_err option ran"
  bo_plain :: "string \<Rightarrow> 'v ran"
  bo_acknowledged :: "string \<Rightarrow> unit ran"
  bo_watch_bool :: "bytes \<Rightarrow> string + bool"
  bo_watch :: "bool \<Rightarrow> u64 \<Rightarrow> 'v ran"
  bo_text :: "string \<Rightarrow> 'v"
  bo_true :: 'v

definition handler_of :: "('a, 'v) bodies \<Rightarrow> string \<Rightarrow> handler_kind \<Rightarrow> 'v handler" where
  "handler_of b m kind =
     (case kind of
        WithArguments \<Rightarrow> with_arguments (bo_decode b m) (bo_run b m)
      | WithFallible \<Rightarrow> with_fallible (bo_decode b m) (bo_run b m)
      | WithMessage \<Rightarrow> with_message (bo_decode b m) (bo_text b) (bo_message b m)
      | WithoutArguments \<Rightarrow> without_arguments (bo_plain b m)
      | Acknowledged \<Rightarrow> acknowledged (bo_true b) (bo_acknowledged b m)
      | WatchRoute \<Rightarrow> watch_route_handler (bo_watch_bool b) (bo_watch b))"

subsection \<open>Encoding\<close>

text \<open>\<open>json.Marshal\<close> fails on values it has no form for; its second error is dropped with its nil bytes.\<close>

definition encode_response :: "('v response \<Rightarrow> string + bytes) \<Rightarrow> 'v response \<Rightarrow> bytes" where
  "encode_response marshal r =
     (case marshal r of
        Inr data \<Rightarrow> data
      | Inl e \<Rightarrow>
          (case marshal (error_response (rs_id r) ''internal_error'' (''encode response: '' @ e)) of
             Inr data \<Rightarrow> data
           | Inl _ \<Rightarrow> []))"

subsection \<open>Spilling\<close>

definition response_spill_threshold :: nat where
  "response_spill_threshold = 2 ^ 20"

type_synonym spill_files = "string \<rightharpoonup> bytes"

text \<open>
  The answers to the calls of one spill: \<open>MkdirAll\<close>, \<open>CreateTemp\<close> with the name it chose, \<open>Chmod\<close>,
  \<open>Write\<close> with what it took before its error, \<open>Close\<close>, and whether a failed file could be removed.
\<close>

record spill_answers =
  sp_mkdir :: "string option"
  sp_create :: "string + string"
  sp_chmod :: "string option"
  sp_write :: "(nat \<times> string) option"
  sp_close :: "string option"
  sp_removed :: bool

definition spilled_response_dir :: "string \<Rightarrow> string" where
  "spilled_response_dir home = home @ ''/responses''"

definition make_spilled_response_dir :: "spill_answers \<Rightarrow> string \<Rightarrow> string + string" where
  "make_spilled_response_dir a home =
     (case sp_mkdir a of Some e \<Rightarrow> Inl e | None \<Rightarrow> Inr (spilled_response_dir home))"

definition write_spilled_response ::
  "spill_answers \<Rightarrow> string \<Rightarrow> bytes \<Rightarrow> spill_files \<Rightarrow> (string + string) \<times> spill_files" where
  "write_spilled_response a home data fs =
     (case make_spilled_response_dir a home of
        Inl e \<Rightarrow> (Inl e, fs)
      | Inr dir \<Rightarrow>
          (case sp_create a of
             Inl e \<Rightarrow> (Inl e, fs)
           | Inr name \<Rightarrow>
               (let path = dir @ ''/'' @ name;
                    written = (case sp_chmod a of Some _ \<Rightarrow> [] | None \<Rightarrow>
                        (case sp_write a of None \<Rightarrow> data | Some (n, _) \<Rightarrow> take n data));
                    err = (case sp_chmod a of Some e \<Rightarrow> Some e | None \<Rightarrow>
                        (case sp_write a of Some (_, e) \<Rightarrow> Some e | None \<Rightarrow> sp_close a));
                    fs1 = fs(path \<mapsto> written)
                in case err of
                     Some e \<Rightarrow> (Inl e, if sp_removed a then fs1(path := None) else fs1)
                   | None \<Rightarrow> (Inr path, fs1))))"

definition spill_response ::
  "('v response \<Rightarrow> string + bytes) \<Rightarrow> spill_answers \<Rightarrow> string \<Rightarrow> string \<Rightarrow> bytes \<Rightarrow> spill_files \<Rightarrow> bytes \<times> spill_files" where
  "spill_response marshal a home i data fs =
     (if length data \<le> response_spill_threshold then (data, fs)
      else (case write_spilled_response a home data fs of
              (Inl _, fs1) \<Rightarrow> (data, fs1)
            | (Inr path, fs1) \<Rightarrow>
                (encode_response marshal \<lparr>rs_id = i, rs_result = None, rs_error = None, rs_file = path\<rparr>, fs1)))"

text \<open>The files of a directory left by an earlier run, as far as each can be removed.\<close>

definition clear_spilled_responses :: "string list option \<Rightarrow> (string \<Rightarrow> bool) \<Rightarrow> string \<Rightarrow> spill_files \<Rightarrow> spill_files" where
  "clear_spilled_responses entries removable home fs =
     (case entries of
        None \<Rightarrow> fs
      | Some names \<Rightarrow>
          foldl (\<lambda>f name. let path = spilled_response_dir home @ ''/'' @ name
                          in if removable path then f(path := None) else f) fs names)"

subsection \<open>Answering a call\<close>

definition handle_method_call ::
  "(string \<times> handler_kind) list \<Rightarrow> ('a, 'v) bodies \<Rightarrow> ('v response \<Rightarrow> string + bytes) \<Rightarrow> spill_answers \<Rightarrow> string
   \<Rightarrow> method_call \<Rightarrow> spill_files \<Rightarrow> bytes \<times> spill_files" where
  "handle_method_call table b marshal a home call fs =
     (case map_of table (mc_method call) of
        None \<Rightarrow> (encode_response marshal
            (error_response (mc_id call) ''not_implemented'' (''unknown method: '' @ mc_method call)), fs)
      | Some kind \<Rightarrow>
          (case handler_of b (mc_method call) kind call of
             Panicked t \<Rightarrow> (encode_response marshal
                 (error_response (mc_id call) ''internal_error'' (''internal panic: '' @ t)), fs)
           | Failed e \<Rightarrow> (encode_response marshal
                 \<lparr>rs_id = mc_id call, rs_result = None, rs_error = Some (as_method_error e), rs_file = []\<rparr>, fs)
           | Ran v \<Rightarrow> spill_response marshal a home (mc_id call)
                 (encode_response marshal \<lparr>rs_id = mc_id call, rs_result = Some v, rs_error = None, rs_file = []\<rparr>) fs))"

text \<open>The stamp of a call; the crash method ends the process and is not answered (None).\<close>

definition dispatch_method_call :: "u64 \<Rightarrow> method_call \<Rightarrow> u64 \<times> method_call option" where
  "dispatch_method_call seq call =
     (seq + 1, if mc_method call = ''crash'' then None else Some (call\<lparr>mc_seq := seq + 1\<rparr>))"


subsection \<open>The host reads back what the handler answered\<close>

text \<open>The host follows the file of an answer that has one.\<close>

definition host_answer :: "(bytes \<Rightarrow> 'v response option) \<Rightarrow> spill_files \<Rightarrow> bytes \<Rightarrow> 'v response option" where
  "host_answer unmarshal fs data =
     (case unmarshal data of
        None \<Rightarrow> None
      | Some r \<Rightarrow> if rs_file r = [] then Some r else Option.bind (fs (rs_file r)) unmarshal)"

text \<open>What the codec promises: what it encodes it reads back, and a response without a result encodes.\<close>

definition codec_ok :: "('v response \<Rightarrow> string + bytes) \<Rightarrow> (bytes \<Rightarrow> 'v response option) \<Rightarrow> bool" where
  "codec_ok marshal unmarshal \<longleftrightarrow>
     (\<forall>r data. marshal r = Inr data \<longrightarrow> unmarshal data = Some r) \<and>
     (\<forall>r. rs_result r = None \<longrightarrow> (\<exists>data. marshal r = Inr data))"

text \<open>The answer a call stands for, wherever it is kept.\<close>

definition answer_of ::
  "(string \<times> handler_kind) list \<Rightarrow> ('a, 'v) bodies \<Rightarrow> ('v response \<Rightarrow> string + bytes) \<Rightarrow> method_call \<Rightarrow> 'v response" where
  "answer_of table b marshal call =
     (case map_of table (mc_method call) of
        None \<Rightarrow> error_response (mc_id call) ''not_implemented'' (''unknown method: '' @ mc_method call)
      | Some kind \<Rightarrow>
          (case handler_of b (mc_method call) kind call of
             Panicked t \<Rightarrow> error_response (mc_id call) ''internal_error'' (''internal panic: '' @ t)
           | Failed e \<Rightarrow> \<lparr>rs_id = mc_id call, rs_result = None, rs_error = Some (as_method_error e), rs_file = []\<rparr>
           | Ran v \<Rightarrow>
               (let r = \<lparr>rs_id = mc_id call, rs_result = Some v, rs_error = None, rs_file = []\<rparr>
                in case marshal r of
                     Inr _ \<Rightarrow> r
                   | Inl e \<Rightarrow> error_response (mc_id call) ''internal_error'' (''encode response: '' @ e))))"

lemma encode_reads_back:
  assumes "codec_ok marshal unmarshal"
  shows "unmarshal (encode_response marshal r) =
    Some (case marshal r of Inr _ \<Rightarrow> r | Inl e \<Rightarrow> error_response (rs_id r) ''internal_error'' (''encode response: '' @ e))"
proof (cases "marshal r")
  case (Inr data)
  then show ?thesis using assms by (auto simp: codec_ok_def encode_response_def)
next
  case (Inl e)
  let ?e = "error_response (rs_id r) ''internal_error'' (''encode response: '' @ e)"
  have "rs_result ?e = None" by (simp add: error_response_def)
  then obtain data where d: "marshal ?e = Inr data" using assms unfolding codec_ok_def by blast
  then have "unmarshal data = Some ?e" using assms unfolding codec_ok_def by blast
  then show ?thesis using Inl d by (simp add: encode_response_def)
qed

lemma encode_in_place:
  assumes "codec_ok marshal unmarshal" "rs_file r = []"
  shows "host_answer unmarshal fs (encode_response marshal r) =
    Some (case marshal r of Inr _ \<Rightarrow> r | Inl e \<Rightarrow> error_response (rs_id r) ''internal_error'' (''encode response: '' @ e))"
  using assms(2) encode_reads_back[OF assms(1), of r]
  by (simp add: host_answer_def error_response_def split: sum.split)

lemma encode_no_result:
  assumes "codec_ok marshal unmarshal" "rs_result r = None"
  shows "unmarshal (encode_response marshal r) = Some r"
proof -
  obtain data where "marshal r = Inr data" using assms unfolding codec_ok_def by metis
  then show ?thesis using encode_reads_back[OF assms(1), of r] by simp
qed

lemma write_spilled_cases:
  "write_spilled_response a home data fs = (Inr path, fs') \<Longrightarrow> path \<noteq> [] \<and> fs' path = Some data"
  by (auto simp: write_spilled_response_def make_spilled_response_dir_def spilled_response_dir_def Let_def
      split: option.splits sum.splits)

lemma spill_reads_back:
  assumes "codec_ok marshal unmarshal" "unmarshal data = Some r" "rs_file r = []"
    "spill_response marshal a home i data fs = (reply, fs')"
  shows "host_answer unmarshal fs' reply = Some r"
proof (cases "length data \<le> response_spill_threshold")
  case True
  then show ?thesis using assms by (simp add: spill_response_def host_answer_def)
next
  case False
  obtain w fs1 where w: "write_spilled_response a home data fs = (w, fs1)" by fastforce
  show ?thesis
  proof (cases w)
    case (Inl e)
    then show ?thesis using assms False w by (simp add: spill_response_def host_answer_def)
  next
    case (Inr path)
    then have path: "path \<noteq> []" "fs1 path = Some data" using write_spilled_cases w by metis+
    let ?f = "\<lparr>rs_id = i, rs_result = None, rs_error = None, rs_file = path\<rparr>"
    have "reply = encode_response marshal ?f" "fs' = fs1"
      using assms(4) False w Inr by (simp_all add: spill_response_def)
    then show ?thesis
      using path assms(2) encode_no_result[OF assms(1), of ?f] by (simp add: host_answer_def)
  qed
qed

lemma call_reads_back:
  assumes codec: "codec_ok marshal unmarshal"
    and run: "handle_method_call table b marshal a home call fs = (reply, fs')"
  shows "host_answer unmarshal fs' reply = Some (answer_of table b marshal call)"
proof -
  have in_place: "host_answer unmarshal fs'' (encode_response marshal r) = Some r"
    if "rs_result r = None" "rs_file r = []" for r fs''
    using encode_no_result[OF codec, of r] that by (simp add: host_answer_def)
  show ?thesis
  proof (cases "map_of table (mc_method call)")
    case None
    then show ?thesis using run in_place
      by (auto simp: handle_method_call_def answer_of_def error_response_def)
  next
    case (Some kind)
    show ?thesis
    proof (cases "handler_of b (mc_method call) kind call")
      case (Ran v)
      let ?r = "\<lparr>rs_id = mc_id call, rs_result = Some v, rs_error = None, rs_file = []\<rparr>"
      have "spill_response marshal a home (mc_id call) (encode_response marshal ?r) fs = (reply, fs')"
        using run Some Ran by (simp add: handle_method_call_def)
      from spill_reads_back[OF codec encode_reads_back[OF codec] _ this]
      show ?thesis using Some Ran
        by (auto simp: answer_of_def error_response_def Let_def split: sum.splits)
    next
      case (Failed e)
      then show ?thesis using run Some in_place by (auto simp: handle_method_call_def answer_of_def)
    next
      case (Panicked t)
      then show ?thesis using run Some in_place
        by (auto simp: handle_method_call_def answer_of_def error_response_def)
    qed
  qed
qed


subsection \<open>A codec\<close>

text \<open>A small codec of the kind assumed: texts with their characters marked, lists and options likewise.\<close>

fun put_text :: "string \<Rightarrow> bytes" where
  "put_text [] = ''0''"
| "put_text (c # s) = CHR ''1'' # c # put_text s"

fun get_text :: "bytes \<Rightarrow> string \<times> bytes" where
  "get_text (m # c # r) = (if m = CHR ''1'' then (case get_text r of (s, t) \<Rightarrow> (c # s, t)) else ([], c # r))"
| "get_text r = ([], drop 1 r)"

fun put_detail :: "string \<times> detail \<Rightarrow> bytes" where
  "put_detail (k, DText t) = put_text k @ CHR ''t'' # put_text t"
| "put_detail (k, DNumber n) = put_text k @ CHR ''n'' # put_text (replicate n CHR ''1'')"

definition get_detail :: "bytes \<Rightarrow> (string \<times> detail) \<times> bytes" where
  "get_detail r =
     (case get_text r of (k, r1) \<Rightarrow>
        case get_text (tl r1) of (t, r2) \<Rightarrow>
          ((k, if hd r1 = CHR ''t'' then DText t else DNumber (length t)), r2))"

fun put_details :: "details \<Rightarrow> bytes" where
  "put_details [] = ''0''"
| "put_details (d # ds) = CHR ''1'' # put_detail d @ put_details ds"

text \<open>Each detail takes a byte, so the length of the text is fuel enough.\<close>

fun get_details :: "nat \<Rightarrow> bytes \<Rightarrow> details \<times> bytes" where
  "get_details 0 r = ([], r)"
| "get_details (Suc n) r =
     (if hd r = CHR ''1'' then (case get_detail (tl r) of (d, r1) \<Rightarrow> case get_details n r1 of (ds, r2) \<Rightarrow> (d # ds, r2))
      else ([], tl r))"

definition put_response :: "bool response \<Rightarrow> bytes" where
  "put_response r =
     put_text (rs_id r) @ put_text (rs_file r) @
     (case rs_result r of None \<Rightarrow> ''0'' | Some b \<Rightarrow> if b then ''2'' else ''1'') @
     (case rs_error r of
        None \<Rightarrow> ''0''
      | Some m \<Rightarrow> CHR ''1'' # put_text (me_code m) @ put_text (me_message m) @ put_details (me_details m))"

definition get_response :: "bytes \<Rightarrow> bool response" where
  "get_response data =
     (case get_text data of (i, r1) \<Rightarrow>
      case get_text r1 of (f, r2) \<Rightarrow>
      (let result = (if hd r2 = CHR ''0'' then None else Some (hd r2 = CHR ''2'')); r3 = tl r2
       in \<lparr>rs_id = i, rs_result = result,
            rs_error = (if hd r3 = CHR ''0'' then None
                        else (case get_text (tl r3) of (c, r4) \<Rightarrow>
                              case get_text r4 of (m, r5) \<Rightarrow>
                                Some \<lparr>me_code = c, me_message = m, me_details = fst (get_details (length r5) r5)\<rparr>)),
            rs_file = f\<rparr>))"

lemma get_put_text: "get_text (put_text s @ r) = (s, r)"
proof (induction s)
  case Nil
  show ?case by (cases r) auto
qed simp

lemma get_put_detail: "get_detail (put_detail d @ r) = (d, r)"
proof (cases d)
  case (Pair k v)
  then show ?thesis by (cases v) (simp_all add: get_detail_def get_put_text)
qed

lemma get_put_details: "length (put_details ds) \<le> n \<Longrightarrow> get_details n (put_details ds @ r) = (ds, r)"
proof (induction ds arbitrary: n)
  case Nil
  then show ?case by (cases n) auto
next
  case (Cons d ds)
  then obtain k where "n = Suc k" by (cases n) auto
  then show ?case using Cons by (simp add: get_put_detail)
qed

lemma get_put_response: "get_response (put_response r) = r"
proof -
  have "get_details (length (put_details ds)) (put_details ds) = (ds, [])" for ds
    using get_put_details[of ds "length (put_details ds)" "[]"] by simp
  then show ?thesis
    by (cases "rs_result r"; cases "rs_error r")
      (simp_all add: get_response_def put_response_def get_put_text Let_def)
qed

definition demo_marshal :: "bool response \<Rightarrow> string + bytes" where
  "demo_marshal r = Inr (put_response r)"

lemma demo_codec: "codec_ok demo_marshal (\<lambda>data. Some (get_response data))"
  by (simp add: codec_ok_def demo_marshal_def get_put_response)

definition demo_bodies :: "(unit, bool) bodies" where
  "demo_bodies = \<lparr>bo_decode = (\<lambda>_ _. Inl ''no json''), bo_run = (\<lambda>_ _. Ran True),
     bo_message = (\<lambda>_ _. Ran None), bo_plain = (\<lambda>_. Ran True), bo_acknowledged = (\<lambda>_. Panicked ''nil map''),
     bo_watch_bool = (\<lambda>_. Inl ''no json''), bo_watch = (\<lambda>_ _. Ran True), bo_text = (\<lambda>_. True), bo_true = True\<rparr>"

definition demo_answers :: spill_answers where
  "demo_answers = \<lparr>sp_mkdir = None, sp_create = Inr ''1.json'', sp_chmod = None, sp_write = None, sp_close = None,
     sp_removed = True\<rparr>"

definition demo_call :: "string \<Rightarrow> method_call" where
  "demo_call m = \<lparr>mc_id = ''7'', mc_method = m, mc_arguments = ''null'', mc_seq = 1\<rparr>"


subsection \<open>Every call is answered once\<close>

text \<open>
  Calls arrive in the order the host sent them; each then runs on a goroutine of its own, so those that
  wait are answered in any order. A handler is one of those the Core may have at that moment.
\<close>

record dispatcher =
  di_seq :: u64
  di_arrived :: "method_call list"
  di_waiting :: "method_call list"
  di_replies :: "(method_call \<times> bytes) list"
  di_files :: spill_files

definition no_calls :: "spill_files \<Rightarrow> dispatcher" where
  "no_calls fs = \<lparr>di_seq = 0, di_arrived = [], di_waiting = [], di_replies = [], di_files = fs\<rparr>"

inductive dispatch_step ::
  "(string \<times> handler_kind) list \<Rightarrow> ('a, 'v) bodies set \<Rightarrow> ('v response \<Rightarrow> string + bytes) \<Rightarrow> string
   \<Rightarrow> dispatcher \<Rightarrow> dispatcher \<Rightarrow> bool"
  for table bs marshal home where
  call_arrives: "dispatch_method_call (di_seq d) call = (seq, Some stamped) \<Longrightarrow>
     dispatch_step table bs marshal home d
       (d\<lparr>di_seq := seq, di_arrived := di_arrived d @ [stamped], di_waiting := di_waiting d @ [stamped]\<rparr>)"
| call_runs: "b \<in> bs \<Longrightarrow> di_waiting d = before @ call # after \<Longrightarrow>
     handle_method_call table b marshal a home call (di_files d) = (reply, fs) \<Longrightarrow>
     dispatch_step table bs marshal home d
       (d\<lparr>di_waiting := before @ after, di_replies := di_replies d @ [(call, reply)], di_files := fs\<rparr>)"
| files_change: "dispatch_step table bs marshal home d (d\<lparr>di_files := fs\<rparr>)"

inductive dispatch_reachable ::
  "(string \<times> handler_kind) list \<Rightarrow> ('a, 'v) bodies set \<Rightarrow> ('v response \<Rightarrow> string + bytes) \<Rightarrow> string
   \<Rightarrow> dispatcher \<Rightarrow> bool"
  for table bs marshal home where
  dispatch_starts: "dispatch_reachable table bs marshal home (no_calls fs)"
| dispatch_goes: "dispatch_reachable table bs marshal home d \<Longrightarrow> dispatch_step table bs marshal home d d' \<Longrightarrow>
     dispatch_reachable table bs marshal home d'"

text \<open>The calls carry the numbers 1, 2, \<dots> of their arrival; each waits or has its one reply.\<close>

definition dispatch_inv :: "dispatcher \<Rightarrow> bool" where
  "dispatch_inv d \<longleftrightarrow>
     di_seq d = of_nat (length (di_arrived d)) \<and>
     map mc_seq (di_arrived d) = map (\<lambda>i. of_nat (Suc i)) [0..<length (di_arrived d)] \<and>
     mset (di_arrived d) = mset (di_waiting d) + mset (map fst (di_replies d)) \<and>
     list_all (\<lambda>c. mc_method c \<noteq> ''crash'') (di_arrived d)"

lemma dispatch_step_inv: "dispatch_step table bs marshal home d d' \<Longrightarrow> dispatch_inv d \<Longrightarrow> dispatch_inv d'"
proof (induction rule: dispatch_step.induct)
  case (call_arrives d call seq stamped)
  then have "seq = di_seq d + 1" "mc_seq stamped = di_seq d + 1" "mc_method stamped \<noteq> ''crash''"
    by (auto simp: dispatch_method_call_def split: if_splits)
  then show ?case using call_arrives.prems by (simp add: dispatch_inv_def add.commute)
next
  case call_runs
  then show ?case by (simp add: dispatch_inv_def)
next
  case (files_change d fs)
  then show ?case by (simp add: dispatch_inv_def)
qed

lemma dispatch_reachable_inv: "dispatch_reachable table bs marshal home d \<Longrightarrow> dispatch_inv d"
proof (induction rule: dispatch_reachable.induct)
  case (dispatch_starts fs)
  then show ?case by (simp add: dispatch_inv_def no_calls_def)
next
  case (dispatch_goes d d')
  then show ?case using dispatch_step_inv by blast
qed


definition demo_waiting_calls :: dispatcher where
  "demo_waiting_calls = (no_calls Map.empty)\<lparr>di_seq := 2,
     di_arrived := [demo_call ''getIsInit'', (demo_call ''nonsense'')\<lparr>mc_seq := 2\<rparr>],
     di_waiting := [demo_call ''getIsInit'', (demo_call ''nonsense'')\<lparr>mc_seq := 2\<rparr>]\<rparr>"

definition demo_answered :: dispatcher where
  "demo_answered = demo_waiting_calls\<lparr>di_waiting := [demo_call ''getIsInit''],
     di_replies := [((demo_call ''nonsense'')\<lparr>mc_seq := 2\<rparr>,
       encode_response demo_marshal (error_response ''7'' ''not_implemented'' ''unknown method: nonsense''))]\<rparr>"

lemma demo_answered_reachable: "dispatch_reachable method_table {demo_bodies} demo_marshal ''home'' demo_answered"
proof -
  let ?reach = "dispatch_reachable method_table {demo_bodies} demo_marshal ''home''"
  let ?c = "demo_call ''getIsInit''" and ?d = "(demo_call ''nonsense'')\<lparr>mc_seq := 2\<rparr>"
  let ?one = "(no_calls Map.empty)\<lparr>di_seq := 1, di_arrived := [?c], di_waiting := [?c]\<rparr>"
  have "?reach ?one"
    using dispatch_goes[OF dispatch_starts call_arrives[of "no_calls Map.empty" ?c 1 ?c]]
    by (simp add: no_calls_def dispatch_method_call_def demo_call_def)
  moreover have "dispatch_method_call (di_seq ?one) (demo_call ''nonsense'') = (2, Some ?d)"
    by (simp add: dispatch_method_call_def demo_call_def)
  ultimately have two: "?reach demo_waiting_calls"
    using dispatch_goes[OF _ call_arrives, of _ _ _ _ ?one "demo_call ''nonsense''" 2 ?d]
    by (simp add: demo_waiting_calls_def no_calls_def)
  have "map_of method_table ''nonsense'' = None" by (simp add: method_table_def)
  then have run: "handle_method_call method_table demo_bodies demo_marshal demo_answers ''home'' ?d Map.empty =
      (encode_response demo_marshal (error_response ''7'' ''not_implemented'' ''unknown method: nonsense''), Map.empty)"
    by (simp add: handle_method_call_def demo_call_def)
  have waiting: "di_waiting demo_waiting_calls = [?c] @ ?d # []" "di_files demo_waiting_calls = Map.empty"
    by (simp_all add: demo_waiting_calls_def no_calls_def)
  show ?thesis
    using dispatch_goes[OF two call_runs[OF _ waiting(1), of demo_bodies]] run
    by (simp add: demo_answered_def waiting demo_waiting_calls_def no_calls_def)
qed


end
