(* ===== verification/Share_Links.thy ===== *)
theory Share_Links
  imports Go_Netip "HOL-Library.AList"
begin

text \<open>
  \<open>core/share_link.go\<close>: the share link of a proxy definition, one encoder per type, over the URL and
  base64 forms of Go's standard library, which are written out here. \<open>json.Marshal\<close> and \<open>url.Parse\<close>
  of the two places that use them are arguments.

  The lemmas show that a link reads back: the base64 of SSR to its fields, and every URL to its
  credentials, its host, its query and its name, whatever characters they hold.
\<close>

subsection \<open>Fields of a definition\<close>

text \<open>What JSON decodes to; a number is the text \<open>fmt\<close> prints of it.\<close>

datatype jvalue =
  JNull | JText string | JBool bool | JNumber string | JList "jvalue list" | JMap "(string \<times> jvalue) list"

type_synonym proxy_fields = "(string \<times> jvalue) list"

text \<open>\<open>fmt.Sprint\<close>; the entries of a map come sorted by their keys.\<close>

primrec sprint :: "jvalue \<Rightarrow> string" where
  "sprint JNull = ''<nil>''"
| "sprint (JText t) = t"
| "sprint (JBool b) = (if b then ''true'' else ''false'')"
| "sprint (JNumber t) = t"
| "sprint (JList vs) = ''['' @ join '' '' (map sprint vs) @ '']''"
| "sprint (JMap m) =
     ''map['' @ join '' '' (map (\<lambda>(k, t). k @ '':'' @ t) (sort_key fst (map (map_prod id sprint) m))) @ '']''"

definition str :: "proxy_fields \<Rightarrow> string \<Rightarrow> string" where
  "str f key = (case map_of f key of None \<Rightarrow> [] | Some JNull \<Rightarrow> [] | Some v \<Rightarrow> sprint v)"

definition flag :: "proxy_fields \<Rightarrow> string \<Rightarrow> bool" where
  "flag f key =
     (case map_of f key of
        Some (JBool b) \<Rightarrow> b
      | Some (JText t) \<Rightarrow> t = ''true''
      | _ \<Rightarrow> False)"

definition sub_fields :: "proxy_fields \<Rightarrow> string \<Rightarrow> proxy_fields" where
  "sub_fields f key = (case map_of f key of Some (JMap m) \<Rightarrow> m | _ \<Rightarrow> [])"

definition list_field :: "proxy_fields \<Rightarrow> string \<Rightarrow> string list" where
  "list_field f key =
     (case map_of f key of
        Some (JList vs) \<Rightarrow> map sprint vs
      | Some (JText t) \<Rightarrow> if t \<noteq> [] then [t] else []
      | _ \<Rightarrow> [])"

definition first_field :: "proxy_fields \<Rightarrow> string \<Rightarrow> string" where
  "first_field f key = (case list_field f key of [] \<Rightarrow> [] | t # _ \<Rightarrow> t)"

subsection \<open>Escapes\<close>

definition hex_upper :: "nat \<Rightarrow> char" where
  "hex_upper d = (if d < 10 then char_of (48 + d) else char_of (55 + d))"

definition percent :: "char \<Rightarrow> string" where
  "percent c = [CHR ''%'', hex_upper (byte_val c div 16), hex_upper (byte_val c mod 16)]"

definition unreserved :: "char \<Rightarrow> bool" where
  "unreserved c \<longleftrightarrow> is_letter c \<or> is_digit c \<or> c \<in> set ''-_.~''"

definition user_plain :: "char \<Rightarrow> bool" where
  "user_plain c \<longleftrightarrow> unreserved c \<or> c \<in> set ''$&+,;=''"

definition host_plain :: "char \<Rightarrow> bool" where
  "host_plain c \<longleftrightarrow> unreserved c \<or> c \<in> set ''!$&()*+,;=:[]<>'' \<or> c = CHR 0x22 \<or> c = CHR 0x27"

definition fragment_plain :: "char \<Rightarrow> bool" where
  "fragment_plain c \<longleftrightarrow> unreserved c \<or> c \<in> set ''$&+,/:;=?@!()*''"

definition escape :: "(char \<Rightarrow> bool) \<Rightarrow> string \<Rightarrow> string" where
  "escape plain s = concat (map (\<lambda>c. if plain c then [c] else percent c) s)"

definition query_escape :: "string \<Rightarrow> string" where
  "query_escape s =
     concat (map (\<lambda>c. if unreserved c then [c] else if c = CHR '' '' then ''+'' else percent c) s)"

subsection \<open>URLs\<close>

text \<open>
  \<open>url.Values\<close> by its pairs, the values of a key in their order; \<open>Set\<close> leaves a key one value, and
  \<open>Encode\<close> sorts by key.
\<close>

type_synonym query = "(string \<times> string) list"

definition set_query :: "string \<Rightarrow> string \<Rightarrow> query \<Rightarrow> query" where
  "set_query key v q = (key, v) # filter (\<lambda>e. fst e \<noteq> key) q"

definition set_if :: "string \<Rightarrow> string \<Rightarrow> query \<Rightarrow> query" where
  "set_if key v q = (if v \<noteq> [] then set_query key v q else q)"

definition encode_query :: "query \<Rightarrow> string" where
  "encode_query q =
     join ''&'' (map (\<lambda>(k, v). query_escape k @ ''='' @ query_escape v) (sort_key fst q))"

text \<open>\<open>url.User\<close> and \<open>url.UserPassword\<close>.\<close>

datatype userinfo = User string | UserPassword string string

definition show_userinfo :: "userinfo \<Rightarrow> string" where
  "show_userinfo u =
     (case u of
        User n \<Rightarrow> escape user_plain n
      | UserPassword n p \<Rightarrow>
          if n = [] \<and> p = [] then [] else escape user_plain n @ '':'' @ escape user_plain p)"

definition share_url :: "string \<Rightarrow> userinfo option \<Rightarrow> string \<Rightarrow> query \<Rightarrow> string \<Rightarrow> string" where
  "share_url scheme user host q name =
     (let raw = encode_query q
      in scheme @ '':'' @
         (if host \<noteq> [] \<or> user \<noteq> None then ''//'' else []) @
         (case user of None \<Rightarrow> [] | Some u \<Rightarrow> show_userinfo u @ ''@'') @
         escape host_plain host @
         (if raw \<noteq> [] then CHR ''?'' # raw else []) @
         (if name \<noteq> [] then CHR ''#'' # escape fragment_plain name else []))"

definition host_port :: "proxy_fields \<Rightarrow> string" where
  "host_port f = join_host_port (str f ''server'') (str f ''port'')"

subsection \<open>Base64\<close>

definition b64_char :: "char \<Rightarrow> char \<Rightarrow> nat \<Rightarrow> char" where
  "b64_char c62 c63 n =
     (if n < 26 then char_of (65 + n) else if n < 52 then char_of (71 + n)
      else if n < 62 then char_of (n - 4) else if n = 62 then c62 else c63)"

fun b64 :: "char \<Rightarrow> char \<Rightarrow> string \<Rightarrow> nat list \<Rightarrow> string" where
  "b64 c62 c63 pad (a # b # c # r) =
     b64_char c62 c63 (a div 4) # b64_char c62 c63 (a mod 4 * 16 + b div 16) #
     b64_char c62 c63 (b mod 16 * 4 + c div 64) # b64_char c62 c63 (c mod 64) # b64 c62 c63 pad r"
| "b64 c62 c63 pad [a, b] =
     [b64_char c62 c63 (a div 4), b64_char c62 c63 (a mod 4 * 16 + b div 16), b64_char c62 c63 (b mod 16 * 4)] @ pad"
| "b64 c62 c63 pad [a] = [b64_char c62 c63 (a div 4), b64_char c62 c63 (a mod 4 * 16)] @ pad @ pad"
| "b64 c62 c63 pad [] = []"

definition b64_raw_url :: "bytes \<Rightarrow> string" where
  "b64_raw_url s = b64 CHR ''-'' CHR ''_'' [] (map byte_val s)"

definition b64_std :: "bytes \<Rightarrow> string" where
  "b64_std s = b64 CHR ''+'' CHR ''/'' ''='' (map byte_val s)"

subsection \<open>Encoders\<close>

text \<open>
  \<open>json.Marshal\<close> of an object of texts, and what \<open>wsEarlyDataPath\<close> asks of \<open>url.Parse\<close>: None when the
  path does not parse, else its query and the path with another one.
\<close>

record link_library =
  ll_marshal :: "(string \<times> string) list \<Rightarrow> bytes"
  ll_parse :: "string \<Rightarrow> (query \<times> (string \<Rightarrow> string)) option"

definition encode_shadowsocks :: "proxy_fields \<Rightarrow> string" where
  "encode_shadowsocks f =
     (let user = UserPassword (str f ''cipher'') (str f ''password'');
          q = (if flag f ''udp-over-tcp'' then set_query ''uot'' ''1'' [] else []);
          opts = sub_fields f ''plugin-opts'';
          plugin = str f ''plugin'';
          link = (\<lambda>q. share_url ''ss'' (Some user) (host_port f) q (str f ''name''))
      in if plugin = [] then link q
         else if plugin = ''obfs''
         then link (set_query ''plugin'' (''obfs-local;obfs='' @ str opts ''mode'' @ '';obfs-host='' @ str opts ''host'') q)
         else if plugin = ''v2ray-plugin''
         then link (set_query ''plugin''
           (''v2ray-plugin;mode='' @ str opts ''mode'' @ '';host='' @ str opts ''host'' @ '';path='' @ str opts ''path'' @
            (if flag opts ''tls'' then '';tls'' else [])) q)
         else [])"

definition ssr_body :: "proxy_fields \<Rightarrow> string" where
  "ssr_body f =
     join '':'' [str f ''server'', str f ''port'', str f ''protocol'', str f ''cipher'', str f ''obfs'',
       b64_raw_url (str f ''password'')] @
     ''/?obfsparam='' @ b64_raw_url (str f ''obfs-param'') @
     ''&protoparam='' @ b64_raw_url (str f ''protocol-param'') @
     ''&remarks='' @ b64_raw_url (str f ''name'')"

definition encode_shadowsocks_r :: "proxy_fields \<Rightarrow> string" where
  "encode_shadowsocks_r f =
     (if contains (str f ''server'') '':'' then [] else ''ssr://'' @ b64_raw_url (ssr_body f))"

definition ws_early_data_path :: "link_library \<Rightarrow> string \<Rightarrow> proxy_fields \<Rightarrow> string" where
  "ws_early_data_path lib path opts =
     (let early_data = str opts ''max-early-data''
      in if early_data = [] \<or> early_data = ''0'' then path
         else (case ll_parse lib path of
                 None \<Rightarrow> path
               | Some (q, with_query) \<Rightarrow> with_query (encode_query (set_query ''ed'' early_data q))))"

definition alpn :: "proxy_fields \<Rightarrow> string" where
  "alpn f = join '','' (list_field f ''alpn'')"

text \<open>The security part of \<open>vShareQuery\<close>, the encoding of packets, and the transport.\<close>

definition v_share_security :: "proxy_fields \<Rightarrow> query \<Rightarrow> query" where
  "v_share_security f q =
     (if flag f ''tls''
      then (let reality = sub_fields f ''reality-opts'';
                public_key = str reality ''public-key'';
                q1 = (if public_key \<noteq> []
                      then set_if ''support-x25519mlkem768'' (str reality ''support-x25519mlkem768'')
                             (set_if ''sid'' (str reality ''short-id'')
                               (set_query ''pbk'' public_key (set_query ''security'' ''reality'' q)))
                      else set_query ''security'' ''tls'' q)
            in set_if ''pcs'' (str f ''fingerprint'')
                 (set_if ''alpn'' (alpn f) (set_if ''fp'' (str f ''client-fingerprint'') q1)))
      else q)"

definition v_share_packets :: "proxy_fields \<Rightarrow> query \<Rightarrow> query" where
  "v_share_packets f q =
     (if flag f ''packet-addr'' then set_query ''packetEncoding'' ''packet'' q
      else if \<not> flag f ''xudp'' then set_query ''packetEncoding'' ''none'' q
      else q)"

definition v_share_transport :: "proxy_fields \<Rightarrow> query \<Rightarrow> query" where
  "v_share_transport f q =
     (let network = str f ''network''
      in if network = [] \<or> network = ''tcp'' then q
         else if network = ''http''
         then (let opts = sub_fields f ''http-opts''
               in set_if ''method'' (str opts ''method'')
                    (set_if ''host'' (first_field (sub_fields opts ''headers'') ''Host'')
                      (set_if ''path'' (first_field opts ''path'')
                        (set_query ''headerType'' ''http'' (set_query ''type'' ''tcp'' q)))))
         else if network = ''h2''
         then (let opts = sub_fields f ''h2-opts''
               in set_if ''host'' (first_field opts ''host'')
                    (set_if ''path'' (str opts ''path'') (set_query ''type'' ''http'' q)))
         else if network = ''ws'' \<or> network = ''httpupgrade''
         then (let opts = sub_fields f ''ws-opts'';
                   q1 = set_if ''host'' (str (sub_fields opts ''headers'') ''Host'')
                          (set_if ''path'' (str opts ''path'') (set_query ''type'' network q))
               in if network = ''ws''
                  then (let early_data = str opts ''max-early-data'';
                            header = str opts ''early-data-header-name'';
                            q2 = (if early_data \<noteq> [] \<and> early_data \<noteq> ''0'' then set_query ''ed'' early_data q1 else q1)
                        in if header \<noteq> [] \<and> header \<noteq> ''Sec-WebSocket-Protocol'' then set_query ''eh'' header q2 else q2)
                  else if flag opts ''v2ray-http-upgrade-fast-open'' then set_query ''ed'' ''0'' q1
                  else q1)
         else if network = ''grpc''
         then set_if ''serviceName'' (str (sub_fields f ''grpc-opts'') ''grpc-service-name'') (set_query ''type'' ''grpc'' q)
         else if network = ''xhttp''
         then (let opts = sub_fields f ''xhttp-opts''
               in set_if ''mode'' (str opts ''mode'')
                    (set_if ''host'' (str opts ''host'')
                      (set_if ''path'' (str opts ''path'') (set_query ''type'' ''xhttp'' q))))
         else set_query ''type'' network q)"

definition v_share_query :: "proxy_fields \<Rightarrow> query" where
  "v_share_query f =
     v_share_transport f (v_share_packets f (set_if ''sni'' (str f ''servername'') (v_share_security f [])))"

text \<open>The object of v2rayN, with the members each transport sets.\<close>

definition vmess_transport :: "link_library \<Rightarrow> proxy_fields \<Rightarrow> (string \<times> string) list \<Rightarrow> (string \<times> string) list" where
  "vmess_transport lib f values =
     (let network = str f ''network''; put = AList.update
      in if network = ''ws'' \<or> network = ''httpupgrade''
         then (let opts = sub_fields f ''ws-opts'';
                   path = (if network = ''ws'' then ws_early_data_path lib (str opts ''path'') opts else str opts ''path'')
               in put ''path'' path (put ''host'' (str (sub_fields opts ''headers'') ''Host'') (put ''net'' network values)))
         else if network = ''http''
         then (let opts = sub_fields f ''http-opts''
               in put ''path'' (first_field opts ''path'')
                    (put ''host'' (first_field (sub_fields opts ''headers'') ''Host'') (put ''type'' ''http'' values)))
         else if network = ''h2''
         then (let opts = sub_fields f ''h2-opts''
               in put ''path'' (str opts ''path'') (put ''host'' (first_field opts ''host'') (put ''net'' ''h2'' values)))
         else if network = ''grpc''
         then put ''path'' (str (sub_fields f ''grpc-opts'') ''grpc-service-name'') (put ''net'' ''grpc'' values)
         else values)"

definition vmess_values :: "link_library \<Rightarrow> proxy_fields \<Rightarrow> (string \<times> string) list" where
  "vmess_values lib f =
     (let values = [(''v'', ''2''), (''ps'', str f ''name''), (''add'', str f ''server''), (''port'', str f ''port''),
            (''id'', str f ''uuid''), (''aid'', str f ''alterId''), (''scy'', str f ''cipher''), (''net'', ''tcp''),
            (''type'', ''none''), (''host'', []), (''path'', []), (''tls'', [])];
          values1 = (if map_of values ''aid'' = Some [] then AList.update ''aid'' ''0'' values else values);
          values2 = vmess_transport lib f values1; put = AList.update
      in if flag f ''tls''
         then put ''fp'' (str f ''client-fingerprint'') (put ''alpn'' (alpn f)
                (put ''sni'' (str f ''servername'') (put ''tls'' ''tls'' values2)))
         else values2)"

definition encode_vmess :: "link_library \<Rightarrow> proxy_fields \<Rightarrow> string" where
  "encode_vmess lib f =
     (let alter_id = str f ''alterId''
      in if alter_id = [] \<or> alter_id = ''0''
         then (let q = v_share_query f; cipher = str f ''cipher'';
                   q1 = (if cipher \<noteq> [] \<and> cipher \<noteq> ''auto'' then set_query ''encryption'' cipher q else q)
               in share_url ''vmess'' (Some (User (str f ''uuid''))) (host_port f) q1 (str f ''name''))
         else ''vmess://'' @ b64_std (ll_marshal lib (vmess_values lib f)))"

definition encode_vless :: "proxy_fields \<Rightarrow> string" where
  "encode_vless f =
     share_url ''vless'' (Some (User (str f ''uuid''))) (host_port f)
       (set_if ''encryption'' (str f ''encryption'') (set_if ''flow'' (str f ''flow'') (v_share_query f))) (str f ''name'')"

definition encode_trojan :: "proxy_fields \<Rightarrow> string" where
  "encode_trojan f =
     (let q = set_if ''alpn'' (alpn f) (set_if ''sni'' (str f ''sni'')
            (if flag f ''skip-cert-verify'' then set_query ''allowInsecure'' ''1'' [] else []));
          link = (\<lambda>q. share_url ''trojan'' (Some (User (str f ''password''))) (host_port f)
            (set_if ''pcs'' (str f ''fingerprint'') (set_if ''fp'' (str f ''client-fingerprint'') q)) (str f ''name''));
          network = str f ''network''
      in if network = ''ws''
         then (let opts = sub_fields f ''ws-opts''
               in if str (sub_fields opts ''headers'') ''Host'' \<noteq> [] then []
                  else link (set_if ''path'' (str opts ''path'') (set_query ''type'' ''ws'' q)))
         else if network = ''grpc''
         then link (set_if ''serviceName'' (str (sub_fields f ''grpc-opts'') ''grpc-service-name'') (set_query ''type'' ''grpc'' q))
         else link q)"

definition encode_hysteria :: "proxy_fields \<Rightarrow> string" where
  "encode_hysteria f =
     (let auth = (if str f ''auth-str'' = [] then str f ''auth_str'' else str f ''auth-str'');
          q = set_if ''down'' (str f ''down'') (set_if ''up'' (str f ''up'')
            (set_if ''protocol'' (str f ''protocol'') (set_if ''auth'' auth (set_if ''alpn'' (alpn f)
              (set_if ''obfs'' (str f ''obfs'') (set_if ''peer'' (str f ''sni'') []))))));
          q1 = (if flag f ''skip-cert-verify'' then set_query ''insecure'' ''1'' q else q)
      in share_url ''hysteria'' None (host_port f) q1 (str f ''name''))"

definition encode_hysteria2 :: "proxy_fields \<Rightarrow> string" where
  "encode_hysteria2 f =
     (if flag (sub_fields f ''realm-opts'') ''enable'' then []
      else (let ports = str f ''ports'';
                host = (if ports \<noteq> [] \<and> \<not> contains (str f ''server'') '':'' then str f ''server'' @ '':'' @ ports else host_port f);
                password = str f ''password'';
                user = (if password \<noteq> [] then Some (User password) else None);
                q = set_if ''obfs-password'' (str f ''obfs-password'') (set_if ''obfs'' (str f ''obfs'')
                  (set_if ''sni'' (str f ''sni'') []));
                q1 = (if flag f ''skip-cert-verify'' then set_query ''insecure'' ''1'' q else q);
                q2 = set_if ''down'' (str f ''down'') (set_if ''up'' (str f ''up'')
                  (set_if ''pinSHA256'' (str f ''fingerprint'') (set_if ''alpn'' (alpn f) q1)))
            in share_url ''hysteria2'' user host q2 (str f ''name'')))"

definition encode_tuic :: "proxy_fields \<Rightarrow> string" where
  "encode_tuic f =
     (let user = (if str f ''uuid'' = [] then User (str f ''token'') else UserPassword (str f ''uuid'') (str f ''password''));
          q = set_if ''sni'' (str f ''sni'') (set_if ''alpn'' (alpn f)
            (set_if ''congestion_control'' (str f ''congestion-controller'') []));
          q1 = (if flag f ''disable-sni'' then set_query ''disable_sni'' ''1'' q else q)
      in share_url ''tuic'' (Some user) (host_port f) (set_if ''udp_relay_mode'' (str f ''udp-relay-mode'') q1) (str f ''name''))"

definition encode_socks :: "proxy_fields \<Rightarrow> string \<Rightarrow> string" where
  "encode_socks f scheme =
     (let username = str f ''username''; password = str f ''password'';
          user = (if username \<noteq> [] \<or> password \<noteq> [] then Some (UserPassword username password) else None)
      in share_url scheme user (host_port f) [] (str f ''name''))"

definition encode_any_tls :: "proxy_fields \<Rightarrow> string" where
  "encode_any_tls f =
     (let q = set_if ''sni'' (str f ''sni'') [];
          q1 = (if flag f ''skip-cert-verify'' then set_query ''insecure'' ''1'' q else q)
      in share_url ''anytls'' (Some (User (str f ''password''))) (host_port f)
           (set_if ''hpkp'' (str f ''fingerprint'') q1) (str f ''name''))"

definition encode_mieru :: "proxy_fields \<Rightarrow> string" where
  "encode_mieru f =
     (let port = (if str f ''port-range'' = [] then str f ''port'' else str f ''port-range'');
          protocol = (if str f ''transport'' = [] then ''TCP'' else str f ''transport'');
          q = set_if ''traffic-pattern'' (str f ''traffic-pattern'') (set_if ''handshake-mode'' (str f ''handshake-mode'')
            (set_if ''multiplexing'' (str f ''multiplexing'') (set_query ''protocol'' protocol (set_query ''port'' port []))));
          host = (if contains (str f ''server'') '':'' then ''['' @ str f ''server'' @ '']'' else str f ''server'')
      in share_url ''mierus'' (Some (UserPassword (str f ''username'') (str f ''password''))) host q (str f ''name''))"

definition encode_share_link :: "link_library \<Rightarrow> proxy_fields \<Rightarrow> string" where
  "encode_share_link lib f =
     (if str f ''server'' = [] then []
      else (let t = str f ''type''
            in if t = ''ss'' then encode_shadowsocks f
               else if t = ''ssr'' then encode_shadowsocks_r f
               else if t = ''vmess'' then encode_vmess lib f
               else if t = ''vless'' then encode_vless f
               else if t = ''trojan'' then encode_trojan f
               else if t = ''hysteria'' then encode_hysteria f
               else if t = ''hysteria2'' then encode_hysteria2 f
               else if t = ''tuic'' then encode_tuic f
               else if t = ''socks5'' then encode_socks f ''socks5''
               else if t = ''http'' then encode_socks f (if flag f ''tls'' then ''https'' else ''http'')
               else if t = ''anytls'' then encode_any_tls f
               else if t = ''mieru'' then encode_mieru f
               else []))"

definition handle_encode_share_links :: "link_library \<Rightarrow> proxy_fields list \<Rightarrow> string list" where
  "handle_encode_share_links lib mappings = map (encode_share_link lib) mappings"

text \<open>mihomo's converter, by line; one it refuses has no proxies.\<close>

definition handle_decode_share_links :: "(string \<Rightarrow> string + 'a list) \<Rightarrow> string list \<Rightarrow> 'a list list" where
  "handle_decode_share_links convert lines =
     map (\<lambda>line. case convert line of Inl _ \<Rightarrow> [] | Inr proxies \<Rightarrow> proxies) lines"


subsection \<open>Escapes read back\<close>

fun unescape :: "bool \<Rightarrow> string \<Rightarrow> string" where
  "unescape spaces [] = []"
| "unescape spaces (c # s) =
     (if c = CHR ''%''
      then (case s of
              a # b # r \<Rightarrow> char_of (16 * the (hex_value a) + the (hex_value b)) # unescape spaces r
            | _ \<Rightarrow> [])
      else (if spaces \<and> c = CHR ''+'' then CHR '' '' else c) # unescape spaces s)"

lemma hex_upper_value: "d < 16 \<Longrightarrow> hex_value (hex_upper d) = Some d"
  by (auto simp: hex_upper_def hex_value_def is_digit_def)

lemma unescape_percent: "unescape spaces (percent c @ s) = c # unescape spaces s"
proof -
  have "16 * (byte_val c div 16) + byte_val c mod 16 = byte_val c" by simp
  moreover have "byte_val c div 16 < 16" by (rule less_mult_imp_div_less) simp
  ultimately show ?thesis by (simp add: percent_def hex_upper_value)
qed

lemma unescape_escape:
  assumes "\<not> plain CHR ''%''"
  shows "unescape False (escape plain s) = s"
proof (induction s)
  case (Cons c s)
  have e: "escape plain (c # s) = (if plain c then [c] else percent c) @ escape plain s"
    by (simp add: escape_def)
  show ?case
  proof (cases "plain c")
    case True
    then have "c \<noteq> CHR ''%''" using assms by auto
    then show ?thesis using Cons True by (simp add: e)
  next
    case False
    then show ?thesis using Cons by (simp add: e unescape_percent)
  qed
qed (simp add: escape_def)

lemma plain_percent [simp]:
  "\<not> unreserved CHR ''%''" "\<not> unreserved CHR ''+''" "\<not> user_plain CHR ''%''" "\<not> host_plain CHR ''%''" "\<not> fragment_plain CHR ''%''"
  by (simp_all add: unreserved_def user_plain_def host_plain_def fragment_plain_def is_letter_def is_upper_def is_lower_def is_digit_def)

lemma unescape_query: "unescape True (query_escape s) = s"
proof (induction s)
  case (Cons c s)
  have e: "query_escape (c # s) =
      (if unreserved c then [c] else if c = CHR '' '' then ''+'' else percent c) @ query_escape s"
    by (simp add: query_escape_def)
  show ?case
  proof (cases "unreserved c")
    case True
    then have "c \<noteq> CHR ''%''" "c \<noteq> CHR ''+''" using plain_percent by metis+
    then show ?thesis using Cons True by (simp add: e)
  next
    case False
    then show ?thesis using Cons by (simp add: e unescape_percent)
  qed
qed (simp add: query_escape_def)

text \<open>The characters of an escape: those kept, the mark and hexadecimal digits.\<close>

lemma percent_chars: "c \<in> set (percent d) \<Longrightarrow> c = CHR ''%'' \<or> is_digit c \<or> is_upper c"
proof -
  have h: "is_digit (hex_upper k) \<or> is_upper (hex_upper k)" if "k < 16" for k
    using that by (auto simp: hex_upper_def is_digit_def is_upper_def)
  have "byte_val d div 16 < 16" "byte_val d mod 16 < 16" by (rule less_mult_imp_div_less) simp_all
  note both = h[OF this(1)] h[OF this(2)]
  show "c \<in> set (percent d) \<Longrightarrow> ?thesis" using both by (auto simp: percent_def)
qed

lemma escape_chars: "c \<in> set (escape plain s) \<Longrightarrow> plain c \<or> c = CHR ''%'' \<or> is_digit c \<or> is_upper c"
  using percent_chars by (auto simp: escape_def split: if_splits)

lemma query_escape_chars:
  "c \<in> set (query_escape s) \<Longrightarrow> unreserved c \<or> c = CHR ''%'' \<or> c = CHR ''+'' \<or> is_digit c \<or> is_upper c"
  using percent_chars by (auto simp: query_escape_def split: if_splits)

lemma marks [simp]:
  "x \<in> set ''#?@:/&='' \<Longrightarrow> \<not> is_digit x \<and> \<not> is_upper x \<and> \<not> unreserved x"
  by (auto simp: unreserved_def is_letter_def is_upper_def is_lower_def is_digit_def)

lemma escape_lacks:
  assumes "x \<in> set ''#?@:/&=''" "\<not> plain x"
  shows "x \<notin> set (escape plain s)"
proof
  assume "x \<in> set (escape plain s)"
  then have "x = CHR ''%''" using escape_chars[of x plain s] assms marks[OF assms(1)] by blast
  then show False using assms(1) by simp
qed

lemma query_escape_lacks:
  assumes "x \<in> set ''#?@:/&=''"
  shows "x \<notin> set (query_escape s)"
proof
  assume "x \<in> set (query_escape s)"
  then have "x = CHR ''%'' \<or> x = CHR ''+''" using query_escape_chars[of x s] marks[OF assms] by blast
  then show False using assms by auto
qed

subsection \<open>A query reads back\<close>

definition read_pair :: "string \<Rightarrow> string \<times> string" where
  "read_pair p = (case cut CHR ''='' p of (k, v, _) \<Rightarrow> (unescape True k, unescape True v))"

definition read_query :: "string \<Rightarrow> query" where
  "read_query raw = (if raw = [] then [] else map read_pair (split_on CHR ''&'' raw))"

lemma read_pair_encoded: "read_pair (query_escape k @ ''='' @ query_escape v) = (k, v)"
  using cut_append[OF query_escape_lacks[of "CHR ''=''" k], of "query_escape v"]
  by (simp add: read_pair_def unescape_query)

lemma read_query_encoded: "read_query (encode_query q) = sort_key fst q"
proof (cases "sort_key fst q")
  case Nil
  then show ?thesis by (simp add: read_query_def encode_query_def)
next
  case (Cons e es)
  let ?enc = "\<lambda>(k, v). query_escape k @ ''='' @ query_escape v"
  have ne: "encode_query q \<noteq> []"
    unfolding encode_query_def Cons by (cases e; cases "map ?enc es") auto
  have "\<forall>p \<in> set (map ?enc (sort_key fst q)). CHR ''&'' \<notin> set p"
    using query_escape_lacks[of "CHR ''&''"] by auto
  then have "split_on CHR ''&'' (encode_query q) = map ?enc (sort_key fst q)"
    using Cons split_on_join[of "map ?enc (sort_key fst q)" "CHR ''&''"] by (simp add: encode_query_def)
  then show ?thesis
    using ne read_pair_encoded by (simp add: read_query_def o_def case_prod_beta)
qed

lemma encode_query_lacks:
  assumes "x \<in> set ''#?@:/''"
  shows "x \<notin> set (encode_query q)"
proof
  assume "x \<in> set (encode_query q)"
  then have "x \<in> set ''&'' \<or> (\<exists>p \<in> set (map (\<lambda>(k, v). query_escape k @ ''='' @ query_escape v) (sort_key fst q)). x \<in> set p)"
    unfolding encode_query_def by (rule join_chars)
  then show False using assms query_escape_lacks[of x] by auto
qed

subsection \<open>A link reads back\<close>

definition read_userinfo :: "string \<Rightarrow> userinfo" where
  "read_userinfo u =
     (case cut CHR '':'' u of (n, p, found) \<Rightarrow>
        if found then UserPassword (unescape False n) (unescape False p) else User (unescape False n))"

text \<open>Scheme, credentials, host, query and name, cut as RFC 3986 reads them.\<close>

definition read_share_url :: "string \<Rightarrow> string \<times> userinfo option \<times> string \<times> query \<times> string" where
  "read_share_url link =
     (case cut CHR '':'' link of (scheme, rest, _) \<Rightarrow>
      case cut CHR ''#'' (drop 2 rest) of (body, fragment, _) \<Rightarrow>
      case cut CHR ''?'' body of (auth, raw, _) \<Rightarrow>
      case cut CHR ''@'' auth of (u, h, found) \<Rightarrow>
        (scheme, if found then Some (read_userinfo u) else None, unescape False (if found then h else u),
         read_query raw, unescape False fragment))"

text \<open>No credentials at all are written as nothing before the mark, which reads as an empty user.\<close>

fun plain_user :: "userinfo \<Rightarrow> userinfo" where
  "plain_user (User n) = User n"
| "plain_user (UserPassword n p) = (if n = [] \<and> p = [] then User [] else UserPassword n p)"

lemma plain_lacks:
  "\<not> user_plain CHR '':''" "\<not> user_plain CHR ''@''" "\<not> user_plain CHR ''?''" "\<not> user_plain CHR ''#''"
  "\<not> host_plain CHR ''@''" "\<not> host_plain CHR ''?''" "\<not> host_plain CHR ''#''" "\<not> fragment_plain CHR ''#''"
  by (simp_all add: user_plain_def host_plain_def fragment_plain_def)

lemma read_show_userinfo: "read_userinfo (show_userinfo u) = plain_user u"
proof (cases u)
  case (User n)
  then show ?thesis
    using cut_not_found[OF escape_lacks[of "CHR '':''" user_plain n]] plain_lacks
    by (simp add: read_userinfo_def show_userinfo_def unescape_escape)
next
  case (UserPassword n p)
  then show ?thesis
    using cut_append[OF escape_lacks[of "CHR '':''" user_plain n]] plain_lacks
    by (simp add: read_userinfo_def show_userinfo_def unescape_escape)
qed

lemma show_userinfo_lacks:
  assumes "x \<in> set ''#?@''"
  shows "x \<notin> set (show_userinfo u)"
  using assms escape_lacks[of x user_plain] plain_lacks
  by (cases u) (auto simp: show_userinfo_def)

lemma host_lacks: "x \<in> set ''#?@'' \<Longrightarrow> x \<notin> set (escape host_plain h)"
  using escape_lacks[of x host_plain h] plain_lacks by auto

lemma cut_optional: "sep \<notin> set b \<Longrightarrow> cut sep (b @ (if a = [] then [] else sep # a)) = (b, a, a \<noteq> [])"
  by (simp add: cut_append cut_not_found)

lemma share_url_reads_back:
  assumes "CHR '':'' \<notin> set scheme" "host \<noteq> []"
  shows "read_share_url (share_url scheme user host q name) =
    (scheme, map_option plain_user user, host, sort_key fst q, name)"
proof -
  let ?u = "case user of None \<Rightarrow> [] | Some u \<Rightarrow> show_userinfo u @ ''@''"
  let ?h = "escape host_plain host"
  let ?raw = "encode_query q"
  let ?frag = "escape fragment_plain name"
  have frag_nil: "?frag = [] \<longleftrightarrow> name = []"
  proof
    assume "?frag = []"
    then show "name = []" using unescape_escape[of fragment_plain name] by simp
  qed (simp add: escape_def)
  have u_lacks: "x \<notin> set ?u" if "x \<in> set ''#?''" for x
    using show_userinfo_lacks[of x] that by (auto split: option.split)
  let ?auth = "?u @ ?h"
  let ?body = "?auth @ (if ?raw = [] then [] else CHR ''?'' # ?raw)"
  have link: "share_url scheme user host q name =
      scheme @ CHR '':'' # ''//'' @ ?body @ (if ?frag = [] then [] else CHR ''#'' # ?frag)"
    using assms(2) frag_nil by (simp add: share_url_def Let_def)
  have c1: "cut CHR '':'' (share_url scheme user host q name) =
      (scheme, ''//'' @ ?body @ (if ?frag = [] then [] else CHR ''#'' # ?frag), True)"
    unfolding link by (rule cut_append[OF assms(1)])
  have "CHR ''#'' \<notin> set ?body"
    using u_lacks[of "CHR ''#''"] host_lacks[of "CHR ''#''" host] encode_query_lacks[of "CHR ''#''" q] by auto
  from cut_optional[OF this] have c2: "cut CHR ''#'' (?body @ (if ?frag = [] then [] else CHR ''#'' # ?frag)) =
      (?body, ?frag, ?frag \<noteq> [])" .
  have "CHR ''?'' \<notin> set ?auth" using u_lacks[of "CHR ''?''"] host_lacks[of "CHR ''?''" host] by auto
  from cut_optional[OF this] have c3: "cut CHR ''?'' ?body = (?auth, ?raw, ?raw \<noteq> [])" .
  have c4: "cut CHR ''@'' ?auth = (case user of None \<Rightarrow> (?h, [], False) | Some u \<Rightarrow> (show_userinfo u, ?h, True))"
    using cut_append[OF show_userinfo_lacks[of "CHR ''@''"]] cut_not_found[OF host_lacks[of "CHR ''@''" host]]
    by (cases user) simp_all
  show ?thesis
    unfolding read_share_url_def c1 using c2 c3 c4
    by (cases user) (simp_all add: read_show_userinfo unescape_escape read_query_encoded)
qed

subsection \<open>Base64 reads back\<close>

definition b64_value :: "char \<Rightarrow> char \<Rightarrow> char \<Rightarrow> nat" where
  "b64_value c62 c63 c =
     (if c = c62 then 62 else if c = c63 then 63
      else if is_upper c then byte_val c - 65 else if is_lower c then byte_val c - 71 else byte_val c + 4)"

fun un_b64 :: "char \<Rightarrow> char \<Rightarrow> string \<Rightarrow> nat list" where
  "un_b64 c62 c63 (p # q # r # s # t) =
     (let v = b64_value c62 c63
      in (v p * 4 + v q div 16) # (v q mod 16 * 16 + v r div 4) # (v r mod 4 * 64 + v s) # un_b64 c62 c63 t)"
| "un_b64 c62 c63 [p, q, r] =
     (let v = b64_value c62 c63 in [v p * 4 + v q div 16, v q mod 16 * 16 + v r div 4])"
| "un_b64 c62 c63 [p, q] = (let v = b64_value c62 c63 in [v p * 4 + v q div 16])"
| "un_b64 c62 c63 _ = []"

definition read_b64_raw_url :: "string \<Rightarrow> bytes" where
  "read_b64_raw_url s = map char_of (un_b64 CHR ''-'' CHR ''_'' s)"

lemma b64_value_char: "n < 64 \<Longrightarrow> b64_value CHR ''-'' CHR ''_'' (b64_char CHR ''-'' CHR ''_'' n) = n"
proof -
  assume n: "n < 64"
  consider "n < 26" | "26 \<le> n" "n < 52" | "52 \<le> n" "n < 62" | "n = 62" | "n = 63" using n by linarith
  then show ?thesis
    by cases (auto simp: b64_value_def b64_char_def is_upper_def is_lower_def char_of_eq_iff take_bit_eq_mod)
qed

lemma un_b64: "\<forall>x \<in> set xs. x < 256 \<Longrightarrow> un_b64 CHR ''-'' CHR ''_'' (b64 CHR ''-'' CHR ''_'' [] xs) = xs"
proof (induction "CHR ''-''" "CHR ''_''" "[] :: string" xs rule: b64.induct)
  case (1 a b c r)
  then have l: "a div 4 < 64" "a mod 4 * 16 + b div 16 < 64" "b mod 16 * 4 + c div 64 < 64" "c mod 64 < 64" by auto
  have "a div 4 * 4 + (a mod 4 * 16 + b div 16) div 16 = a"
    "(a mod 4 * 16 + b div 16) mod 16 * 16 + (b mod 16 * 4 + c div 64) div 4 = b"
    "(b mod 16 * 4 + c div 64) mod 4 * 64 + c mod 64 = c"
    using "1.prems" by auto
  then show ?case using 1 l by (simp add: Let_def b64_value_char)
next
  case (2 a b)
  then have l: "a div 4 < 64" "a mod 4 * 16 + b div 16 < 64" "b mod 16 * 4 < 64" by auto
  have "a div 4 * 4 + (a mod 4 * 16 + b div 16) div 16 = a"
    "(a mod 4 * 16 + b div 16) mod 16 * 16 + b mod 16 * 4 div 4 = b"
    using 2 by auto
  then show ?case using l by (simp add: Let_def b64_value_char)
next
  case (3 a)
  then have l: "a div 4 < 64" "a mod 4 * 16 < 64" by auto
  have "a div 4 * 4 + a mod 4 * 16 div 16 = a" by presburger
  then show ?case using l by (simp add: Let_def b64_value_char)
qed simp

lemma read_b64: "read_b64_raw_url (b64_raw_url s) = s"
proof -
  have "\<forall>x \<in> set (map byte_val s). x < 256" by auto
  from un_b64[OF this] show ?thesis
    by (simp add: read_b64_raw_url_def b64_raw_url_def o_def)
qed

lemma b64_chars:
  "c \<in> set (b64 CHR ''-'' CHR ''_'' [] xs) \<Longrightarrow> \<forall>x \<in> set xs. x < 256 \<Longrightarrow> is_letter c \<or> is_digit c \<or> c = CHR ''-'' \<or> c = CHR ''_''"
proof (induction "CHR ''-''" "CHR ''_''" "[] :: string" xs rule: b64.induct)
  fix n :: nat
  have one: "is_letter (b64_char CHR ''-'' CHR ''_'' k) \<or> is_digit (b64_char CHR ''-'' CHR ''_'' k) \<or>
      b64_char CHR ''-'' CHR ''_'' k = CHR ''-'' \<or> b64_char CHR ''-'' CHR ''_'' k = CHR ''_''" for k
    by (auto simp: b64_char_def is_letter_def is_upper_def is_lower_def is_digit_def)
  {
    case (1 a b c' r)
    then show ?case using one by auto
  next
    case (2 a b)
    then show ?case using one by auto
  next
    case (3 a)
    then show ?case using one by auto
  next
    case 4
    then show ?case by simp
  }
qed

lemma b64_raw_url_lacks: "x \<in> set '':/?&='' \<Longrightarrow> x \<notin> set (b64_raw_url s)"
proof
  assume x: "x \<in> set '':/?&=''" and "x \<in> set (b64_raw_url s)"
  then have "is_letter x \<or> is_digit x \<or> x = CHR ''-'' \<or> x = CHR ''_''"
    using b64_chars[of x "map byte_val s"] by (auto simp: b64_raw_url_def)
  then show False using x by (auto simp: is_letter_def is_upper_def is_lower_def is_digit_def)
qed

subsection \<open>An SSR link reads back\<close>

text \<open>The reader of the format: six fields, the last in base64, and parameters in base64.\<close>

definition read_ssr :: "string \<Rightarrow> (string list \<times> (string \<times> string) list) option" where
  "read_ssr link =
     (let body = read_b64_raw_url (drop 6 link)
      in case index_of body ''/?'' of
           None \<Rightarrow> None
         | Some i \<Rightarrow>
             (case split_on CHR '':'' (take i body) of
                [server, port, protocol, cipher, obfs, password] \<Rightarrow>
                  Some ([server, port, protocol, cipher, obfs, read_b64_raw_url password],
                    map (\<lambda>p. case cut CHR ''='' p of (k, v, _) \<Rightarrow> (k, read_b64_raw_url v))
                      (split_on CHR ''&'' (drop (i + 2) body)))
              | _ \<Rightarrow> None))"

lemma index_of_slash: "CHR ''/'' \<notin> set b \<Longrightarrow> index_of (b @ ''/?'' @ a) ''/?'' = Some (length b)"
  by (induction b) auto

text \<open>The texts SSR writes as they are: an address, a port and three method names.\<close>

definition ssr_plain :: "proxy_fields \<Rightarrow> bool" where
  "ssr_plain f \<longleftrightarrow>
     list_all (\<lambda>key. list_all (\<lambda>c. c \<noteq> CHR '':'' \<and> c \<noteq> CHR ''/'') (str f key))
       [''server'', ''port'', ''protocol'', ''cipher'', ''obfs'']"

lemma read_ssr_parts:
  assumes "read_b64_raw_url (drop 6 link) = a @ ''/?'' @ b" "CHR ''/'' \<notin> set a"
    "split_on CHR '':'' a = [server, port, protocol, cipher, obfs, password]"
  shows "read_ssr link = Some ([server, port, protocol, cipher, obfs, read_b64_raw_url password],
    map (\<lambda>p. case cut CHR ''='' p of (k, v, _) \<Rightarrow> (k, read_b64_raw_url v)) (split_on CHR ''&'' b))"
proof -
  have "take (length a) (a @ ''/?'' @ b) = a" "drop (length a + 2) (a @ ''/?'' @ b) = b" by simp_all
  then show ?thesis
    using index_of_slash[OF assms(2), of b] assms(1,3) by (simp only: read_ssr_def Let_def option.case list.case)
qed

lemma ssr_reads_back:
  assumes "ssr_plain f"
  shows "read_ssr (encode_shadowsocks_r f) =
    Some ([str f ''server'', str f ''port'', str f ''protocol'', str f ''cipher'', str f ''obfs'', str f ''password''],
      [(''obfsparam'', str f ''obfs-param''), (''protoparam'', str f ''protocol-param''), (''remarks'', str f ''name'')])"
proof -
  let ?fields = "[str f ''server'', str f ''port'', str f ''protocol'', str f ''cipher'', str f ''obfs'', b64_raw_url (str f ''password'')]"
  let ?params = "[''obfsparam='' @ b64_raw_url (str f ''obfs-param''), ''protoparam='' @ b64_raw_url (str f ''protocol-param''),
      ''remarks='' @ b64_raw_url (str f ''name'')]"
  have lacks: "x \<notin> set (b64_raw_url t)" if "x \<in> set '':/?&=''" for x t
    by (rule b64_raw_url_lacks[OF that])
  have lacks_each: "CHR '':'' \<notin> set (b64_raw_url t)" "CHR ''/'' \<notin> set (b64_raw_url t)"
      "CHR ''&'' \<notin> set (b64_raw_url t)" for t
    by (rule lacks; simp)+
  have plain: "\<forall>p \<in> set ?fields. CHR '':'' \<notin> set p" "\<forall>p \<in> set ?fields. CHR ''/'' \<notin> set p"
    using assms lacks_each by (auto simp: ssr_plain_def list_all_iff)
  then have server: "CHR '':'' \<notin> set (str f ''server'')" by simp
  have link: "encode_shadowsocks_r f = ''ssr://'' @ b64_raw_url (ssr_body f)"
    using server by (simp add: encode_shadowsocks_r_def contains_char)
  have body: "ssr_body f = join [CHR '':''] ?fields @ ''/?'' @ join [CHR ''&''] ?params"
    by (simp add: ssr_body_def)
  have no_slash: "CHR ''/'' \<notin> set (join [CHR '':''] ?fields)"
    using plain(2) by (auto dest!: join_chars)
  have f: "split_on CHR '':'' (join [CHR '':''] ?fields) = ?fields"
    by (rule split_on_join[OF _ plain(1)]) simp
  have p: "split_on CHR ''&'' (join [CHR ''&''] ?params) = ?params"
    by (rule split_on_join) (simp_all add: lacks_each)
  have c: "cut CHR ''='' (''obfsparam='' @ t) = (''obfsparam'', t, True)"
    "cut CHR ''='' (''protoparam='' @ t) = (''protoparam'', t, True)"
    "cut CHR ''='' (''remarks='' @ t) = (''remarks'', t, True)" for t
    by simp_all
  have "read_b64_raw_url (drop 6 (encode_shadowsocks_r f)) = ssr_body f"
    unfolding link by (simp add: read_b64)
  then show ?thesis
    using read_ssr_parts[OF _ no_slash f] unfolding body by (simp only: p list.map c prod.case read_b64)
qed

subsection \<open>What every URL link carries\<close>

definition url_form :: "proxy_fields \<Rightarrow> bool" where
  "url_form f \<longleftrightarrow>
     str f ''type'' \<in> {''ss'', ''vless'', ''trojan'', ''hysteria'', ''hysteria2'', ''tuic'', ''socks5'', ''http'',
       ''anytls'', ''mieru''} \<or>
     str f ''type'' = ''vmess'' \<and> str f ''alterId'' \<in> {[], ''0''}"

definition link_scheme :: "proxy_fields \<Rightarrow> string" where
  "link_scheme f =
     (let t = str f ''type''
      in if t = ''http'' \<and> flag f ''tls'' then ''https'' else if t = ''mieru'' then ''mierus'' else t)"

text \<open>The credentials by type.\<close>

definition link_user :: "proxy_fields \<Rightarrow> userinfo option" where
  "link_user f =
     (let t = str f ''type'';
          given = (\<lambda>u. if u \<in> {User [], UserPassword [] []} then None else Some u)
      in if t = ''ss'' then Some (UserPassword (str f ''cipher'') (str f ''password''))
         else if t \<in> {''vmess'', ''vless''} then Some (User (str f ''uuid''))
         else if t \<in> {''trojan'', ''anytls''} then Some (User (str f ''password''))
         else if t = ''hysteria2'' then given (User (str f ''password''))
         else if t \<in> {''socks5'', ''http''} then given (UserPassword (str f ''username'') (str f ''password''))
         else if t = ''mieru'' then Some (UserPassword (str f ''username'') (str f ''password''))
         else if t = ''tuic''
         then Some (if str f ''uuid'' = [] then User (str f ''token'') else UserPassword (str f ''uuid'') (str f ''password''))
         else None)"

definition link_host :: "proxy_fields \<Rightarrow> string" where
  "link_host f =
     (let server = str f ''server''; v6 = contains server '':''
      in if str f ''type'' = ''mieru'' then (if v6 then ''['' @ server @ '']'' else server)
         else if str f ''type'' = ''hysteria2'' \<and> str f ''ports'' \<noteq> [] \<and> \<not> v6 then server @ '':'' @ str f ''ports''
         else (if v6 then ''['' @ server @ '']'' else server) @ '':'' @ str f ''port'')"

definition one_value_each :: "query \<Rightarrow> bool" where
  "one_value_each q \<longleftrightarrow> distinct (map fst q)"

lemma one_value_set [simp]:
  "one_value_each []"
  "one_value_each q \<Longrightarrow> one_value_each (set_query k v q)"
  "one_value_each q \<Longrightarrow> one_value_each (set_if k v q)"
proof -
  show "one_value_each []" by (simp add: one_value_each_def)
  show set: "one_value_each q \<Longrightarrow> one_value_each (set_query k v q)" for k v q
    by (auto simp: one_value_each_def set_query_def distinct_map inj_on_def)
  show "one_value_each q \<Longrightarrow> one_value_each (set_if k v q)" by (simp add: set_if_def set)
qed

lemma v_share_one_value: "one_value_each (v_share_query f)"
proof -
  have "one_value_each (v_share_security f [])" by (simp add: v_share_security_def Let_def)
  then have "one_value_each (v_share_packets f (set_if ''sni'' (str f ''servername'') (v_share_security f [])))"
    by (simp add: v_share_packets_def)
  moreover have "one_value_each q \<Longrightarrow> one_value_each (v_share_transport f q)" for q
    by (simp add: v_share_transport_def Let_def)
  ultimately show ?thesis by (simp add: v_share_query_def)
qed

lemma host_port_form: "host_port f = (if contains (str f ''server'') '':'' then ''['' @ str f ''server'' @ '']'' else str f ''server'') @ '':'' @ str f ''port''"
  by (simp add: host_port_def join_host_port_def)

lemmas encoder_defs = encode_shadowsocks_def encode_vmess_def encode_vless_def encode_trojan_def encode_hysteria_def
  encode_hysteria2_def encode_tuic_def encode_socks_def encode_any_tls_def encode_mieru_def

definition is_share_url :: "proxy_fields \<Rightarrow> string \<Rightarrow> bool" where
  "is_share_url f link \<longleftrightarrow>
     (\<exists>q. one_value_each q \<and> link = share_url (link_scheme f) (link_user f) (link_host f) q (str f ''name''))"

lemma is_share_urlI:
  "one_value_each q \<Longrightarrow> s = link_scheme f \<Longrightarrow> u = link_user f \<Longrightarrow> h = link_host f \<Longrightarrow>
   is_share_url f (share_url s u h q (str f ''name''))"
  by (auto simp: is_share_url_def)

lemma one_value_if [simp]: "one_value_each a \<Longrightarrow> one_value_each b \<Longrightarrow> one_value_each (if c then a else b)"
  by simp

lemma is_share_url_if: "(c \<Longrightarrow> is_share_url f a) \<Longrightarrow> (\<not> c \<Longrightarrow> is_share_url f b) \<Longrightarrow> is_share_url f (if c then a else b)"
  by simp

lemma vless_link:
  assumes "str f ''type'' = ''vless''" "encode_vless f \<noteq> []"
  shows "is_share_url f (encode_vless f)"
proof -
  have parts: "''vless'' = link_scheme f" "Some (User (str f ''uuid'')) = link_user f" "host_port f = link_host f"
    by (simp_all add: link_scheme_def link_user_def link_host_def host_port_form assms(1) Let_def)
  show ?thesis
    unfolding encode_vless_def Let_def by (intro is_share_urlI parts) (simp_all add: v_share_one_value)
qed

lemma hysteria_link:
  assumes "str f ''type'' = ''hysteria''" "encode_hysteria f \<noteq> []"
  shows "is_share_url f (encode_hysteria f)"
proof -
  have parts: "''hysteria'' = link_scheme f" "None = link_user f" "host_port f = link_host f"
    by (simp_all add: link_scheme_def link_user_def link_host_def host_port_form assms(1) Let_def)
  show ?thesis
    unfolding encode_hysteria_def Let_def by (intro is_share_urlI parts) (simp_all add: v_share_one_value)
qed

lemma tuic_link:
  assumes "str f ''type'' = ''tuic''" "encode_tuic f \<noteq> []"
  shows "is_share_url f (encode_tuic f)"
proof -
  have parts: "''tuic'' = link_scheme f" "Some (if str f ''uuid'' = [] then User (str f ''token'') else UserPassword (str f ''uuid'') (str f ''password'')) = link_user f" "host_port f = link_host f"
    by (simp_all add: link_scheme_def link_user_def link_host_def host_port_form assms(1) Let_def)
  show ?thesis
    unfolding encode_tuic_def Let_def by (intro is_share_urlI parts) (simp_all add: v_share_one_value)
qed

lemma socks5_link:
  assumes "str f ''type'' = ''socks5''" "encode_socks f ''socks5'' \<noteq> []"
  shows "is_share_url f (encode_socks f ''socks5'')"
proof -
  have parts: "''socks5'' = link_scheme f" "(if str f ''username'' \<noteq> [] \<or> str f ''password'' \<noteq> [] then Some (UserPassword (str f ''username'') (str f ''password'')) else None) = link_user f" "host_port f = link_host f"
    by (simp_all add: link_scheme_def link_user_def link_host_def host_port_form assms(1) Let_def)
  show ?thesis
    unfolding encode_socks_def Let_def by (intro is_share_urlI parts) (simp_all add: v_share_one_value)
qed

lemma http_link:
  assumes "str f ''type'' = ''http''" "encode_socks f (if flag f ''tls'' then ''https'' else ''http'') \<noteq> []"
  shows "is_share_url f (encode_socks f (if flag f ''tls'' then ''https'' else ''http''))"
proof -
  have parts: "(if flag f ''tls'' then ''https'' else ''http'') = link_scheme f" "(if str f ''username'' \<noteq> [] \<or> str f ''password'' \<noteq> [] then Some (UserPassword (str f ''username'') (str f ''password'')) else None) = link_user f" "host_port f = link_host f"
    by (simp_all add: link_scheme_def link_user_def link_host_def host_port_form assms(1) Let_def)
  show ?thesis
    unfolding encode_socks_def Let_def by (intro is_share_urlI parts) (simp_all add: v_share_one_value)
qed

lemma anytls_link:
  assumes "str f ''type'' = ''anytls''" "encode_any_tls f \<noteq> []"
  shows "is_share_url f (encode_any_tls f)"
proof -
  have parts: "''anytls'' = link_scheme f" "Some (User (str f ''password'')) = link_user f" "host_port f = link_host f"
    by (simp_all add: link_scheme_def link_user_def link_host_def host_port_form assms(1) Let_def)
  show ?thesis
    unfolding encode_any_tls_def Let_def by (intro is_share_urlI parts) (simp_all add: v_share_one_value)
qed

lemma mieru_link:
  assumes "str f ''type'' = ''mieru''" "encode_mieru f \<noteq> []"
  shows "is_share_url f (encode_mieru f)"
proof -
  have parts: "''mierus'' = link_scheme f" "Some (UserPassword (str f ''username'') (str f ''password'')) = link_user f" "(if contains (str f ''server'') '':'' then ''['' @ str f ''server'' @ '']'' else str f ''server'') = link_host f"
    by (simp_all add: link_scheme_def link_user_def link_host_def host_port_form assms(1) Let_def)
  show ?thesis
    unfolding encode_mieru_def Let_def by (intro is_share_urlI parts) (simp_all add: v_share_one_value)
qed

lemma ss_link:
  assumes "str f ''type'' = ''ss''" "encode_shadowsocks f \<noteq> []"
  shows "is_share_url f (encode_shadowsocks f)"
proof -
  have parts: "''ss'' = link_scheme f" "Some (UserPassword (str f ''cipher'') (str f ''password'')) = link_user f" "host_port f = link_host f"
    by (simp_all add: link_scheme_def link_user_def link_host_def host_port_form assms(1) Let_def)
  show ?thesis
    using assms(2) unfolding encode_shadowsocks_def Let_def
    by (auto split: if_splits intro!: is_share_urlI parts)
qed

lemma trojan_link:
  assumes "str f ''type'' = ''trojan''" "encode_trojan f \<noteq> []"
  shows "is_share_url f (encode_trojan f)"
proof -
  have parts: "''trojan'' = link_scheme f" "Some (User (str f ''password'')) = link_user f" "host_port f = link_host f"
    by (simp_all add: link_scheme_def link_user_def link_host_def host_port_form assms(1) Let_def)
  show ?thesis
    proof (cases "str f ''network'' = ''ws'' \<and> str (sub_fields (sub_fields f ''ws-opts'') ''headers'') ''Host'' \<noteq> []")
    case True
    then show ?thesis using assms(2) by (simp add: encode_trojan_def Let_def)
  next
    case False
    then show ?thesis unfolding encode_trojan_def Let_def
      by (intro is_share_url_if is_share_urlI parts) simp_all
  qed
qed

lemma hysteria2_link:
  assumes "str f ''type'' = ''hysteria2''" "encode_hysteria2 f \<noteq> []"
  shows "is_share_url f (encode_hysteria2 f)"
proof -
  have parts: "''hysteria2'' = link_scheme f" "(if str f ''password'' \<noteq> [] then Some (User (str f ''password'')) else None) = link_user f" "(if str f ''ports'' \<noteq> [] \<and> \<not> contains (str f ''server'') '':'' then str f ''server'' @ '':'' @ str f ''ports'' else host_port f) = link_host f"
    by (simp_all add: link_scheme_def link_user_def link_host_def host_port_form assms(1) Let_def)
  show ?thesis
    proof (cases "flag (sub_fields f ''realm-opts'') ''enable''")
    case True
    then show ?thesis using assms(2) by (simp add: encode_hysteria2_def)
  next
    case False
    then show ?thesis unfolding encode_hysteria2_def Let_def if_not_P[OF False]
      by (intro is_share_urlI parts) simp_all
  qed
qed

lemma vmess_link:
  assumes "str f ''type'' = ''vmess''" "str f ''alterId'' \<in> {[], ''0''}"
  shows "is_share_url f (encode_vmess lib f)"
proof -
  have parts: "''vmess'' = link_scheme f" "Some (User (str f ''uuid'')) = link_user f" "host_port f = link_host f"
    by (simp_all add: link_scheme_def link_user_def link_host_def host_port_form assms(1) Let_def)
  have "str f ''alterId'' = [] \<or> str f ''alterId'' = ''0''" using assms(2) by simp
  then show ?thesis unfolding encode_vmess_def Let_def
    by (simp only: if_True simp_thms) (intro is_share_urlI parts, simp add: v_share_one_value)
qed

lemmas link_of_type = ss_link vless_link trojan_link hysteria_link hysteria2_link tuic_link socks5_link http_link
  anytls_link mieru_link vmess_link

lemma url_form_link:
  assumes "url_form f" "encode_share_link lib f \<noteq> []"
  shows "is_share_url f (encode_share_link lib f)"
proof -
  from assms(1) consider "str f ''type'' = ''ss''" | "str f ''type'' = ''vless''" | "str f ''type'' = ''trojan''"
    | "str f ''type'' = ''hysteria''" | "str f ''type'' = ''hysteria2''" | "str f ''type'' = ''tuic''"
    | "str f ''type'' = ''socks5''" | "str f ''type'' = ''http''" | "str f ''type'' = ''anytls''" | "str f ''type'' = ''mieru''"
    | (vmess) "str f ''type'' = ''vmess''" "str f ''alterId'' \<in> {[], ''0''}"
    unfolding url_form_def by blast
  moreover have "str f ''server'' \<noteq> []" using assms(2) by (auto simp: encode_share_link_def)
  ultimately show ?thesis
    using assms(2) by cases (simp_all add: encode_share_link_def link_of_type)
qed

lemma url_links_facts:
  assumes "url_form f" "encode_share_link lib f \<noteq> []"
  shows "\<exists>q. one_value_each q \<and> read_share_url (encode_share_link lib f) =
    (link_scheme f, map_option plain_user (link_user f), link_host f, sort_key fst q, str f ''name'')"
proof -
  obtain q where q: "one_value_each q"
      "encode_share_link lib f = share_url (link_scheme f) (link_user f) (link_host f) q (str f ''name'')"
    using url_form_link[OF assms] by (auto simp: is_share_url_def)
  have "str f ''server'' \<noteq> []" using assms(2) by (auto simp: encode_share_link_def)
  then have "link_host f \<noteq> []" by (auto simp: link_host_def Let_def)
  moreover have "CHR '':'' \<notin> set (link_scheme f)"
    using assms(1) by (auto simp: url_form_def link_scheme_def Let_def)
  ultimately show ?thesis using q share_url_reads_back by metis
qed

text \<open>C28. Every URL form of a share link reads back: whatever characters they hold, the link of a
  definition gives its scheme, its credentials, its address, its name, and each query parameter once.\<close>

theorem url_links_read_back:
  assumes "url_form f" "encode_share_link lib f \<noteq> []"
  shows "\<exists>q. one_value_each q \<and> read_share_url (encode_share_link lib f) =
    (link_scheme f, map_option plain_user (link_user f), link_host f, sort_key fst q, str f ''name'')"
  by (rule url_links_facts[OF assms])

definition demo_trojan :: proxy_fields where
  "demo_trojan = [(''type'', JText ''trojan''), (''server'', JText ''2001:db8::1''), (''port'', JNumber ''443''),
     (''password'', JText ''p@ss:#1/?''), (''name'', JText ''a b#c'')]"

definition demo_library :: link_library where
  "demo_library = \<lparr>ll_marshal = (\<lambda>_. ''{}''), ll_parse = (\<lambda>_. None)\<rparr>"

theorem url_links_read_back_witness:
  "case read_share_url (encode_share_link demo_library demo_trojan) of
     (scheme, user, host, q, name) \<Rightarrow> scheme = ''trojan'' \<and> user = Some (User ''p@ss:#1/?'') \<and>
       host = ''[2001:db8::1]:443'' \<and> name = ''a b#c''"
proof -
  have strs: "str demo_trojan ''type'' = ''trojan''" "str demo_trojan ''server'' = ''2001:db8::1''"
    "str demo_trojan ''port'' = ''443''" "str demo_trojan ''password'' = ''p@ss:#1/?''" "str demo_trojan ''name'' = ''a b#c''"
    "str demo_trojan ''network'' = []"
    by (simp_all add: str_def demo_trojan_def)
  have "encode_share_link demo_library demo_trojan = encode_trojan demo_trojan"
    by (simp add: encode_share_link_def strs)
  moreover have "encode_trojan demo_trojan \<noteq> []"
    by (simp add: encode_trojan_def share_url_def strs Let_def)
  ultimately have ne: "encode_share_link demo_library demo_trojan \<noteq> []" by simp
  have u: "url_form demo_trojan" by (simp add: url_form_def strs)
  have "link_host demo_trojan = ''[2001:db8::1]:443''"
    by (simp add: link_host_def strs contains_char Let_def)
  moreover have "link_scheme demo_trojan = ''trojan''" "link_user demo_trojan = Some (User ''p@ss:#1/?'')"
    by (simp_all add: link_scheme_def link_user_def strs Let_def)
  ultimately show ?thesis using url_links_read_back[OF u ne] strs(5) by auto
qed

text \<open>An SSR link reads back to the six fields and the three parameters it was made of; only the
  texts it writes as they are must be free of its separators, the password and the names may hold any.\<close>

theorem ssr_links_read_back:
  assumes "ssr_plain f"
  shows "read_ssr (encode_shadowsocks_r f) =
    Some ([str f ''server'', str f ''port'', str f ''protocol'', str f ''cipher'', str f ''obfs'', str f ''password''],
      [(''obfsparam'', str f ''obfs-param''), (''protoparam'', str f ''protocol-param''), (''remarks'', str f ''name'')])"
  by (rule ssr_reads_back[OF assms])

definition demo_ssr :: proxy_fields where
  "demo_ssr = [(''type'', JText ''ssr''), (''server'', JText ''a.example''), (''port'', JNumber ''8388''),
     (''protocol'', JText ''origin''), (''cipher'', JText ''rc4-md5''), (''obfs'', JText ''plain''),
     (''password'', JText ''p:/?&=''), (''name'', JText ''n'')]"

theorem ssr_links_read_back_witness:
  "read_ssr (encode_shadowsocks_r demo_ssr) =
    Some ([''a.example'', ''8388'', ''origin'', ''rc4-md5'', ''plain'', ''p:/?&=''],
      [(''obfsparam'', []), (''protoparam'', []), (''remarks'', ''n'')])"
proof -
  have "ssr_plain demo_ssr" by (simp add: ssr_plain_def str_def demo_ssr_def)
  from ssr_links_read_back[OF this] show ?thesis by (simp add: str_def demo_ssr_def)
qed

end
