(* ===== verification/Yaml_Nodes.thy ===== *)
theory Yaml_Nodes
  imports Go_Prelude
begin

text \<open>
  The nodes of the YAML library as the Core handles them (\<open>core/profile_base.go\<close>, \<open>core/short_id.go\<close>):
  a node is reached through a pointer, an alias points to the node of its anchor, and both the
  retagging of short ids and the writing out of aliases change nodes in place. The heap is therefore
  explicit. The lemmas relate a node to the tree it stands for once its aliases are followed.
\<close>

subsection \<open>Nodes and the heap\<close>

type_synonym node_ref = nat

datatype node_kind = ZeroKind | DocumentNode | SequenceNode | MappingNode | ScalarNode | AliasNode

text \<open>\<open>nd_plain\<close> is \<open>Style == 0\<close>; \<open>nd_alias\<close> is None for Go's \<open>nil\<close>.\<close>

record node =
  nd_kind :: node_kind
  nd_plain :: bool
  nd_tag :: string
  nd_value :: string
  nd_anchor :: string
  nd_alias :: "node_ref option"
  nd_content :: "node_ref list"
  nd_line :: nat

type_synonym nodes = "node_ref \<Rightarrow> node"

record heap =
  hp_node :: nodes
  hp_next :: node_ref

definition zero_node :: node where
  "zero_node = \<lparr>nd_kind = ZeroKind, nd_plain = True, nd_tag = [], nd_value = [], nd_anchor = [],
     nd_alias = None, nd_content = [], nd_line = 0\<rparr>"

definition new_node :: "node \<Rightarrow> heap \<Rightarrow> node_ref \<times> heap" where
  "new_node n hp = (hp_next hp, hp\<lparr>hp_node := (hp_node hp)(hp_next hp := n), hp_next := Suc (hp_next hp)\<rparr>)"

text \<open>The keys and values of a mapping, as the loops over \<open>i+1 < len(Content)\<close> read them.\<close>

fun pairs :: "'a list \<Rightarrow> ('a \<times> 'a) list" where
  "pairs (a # b # xs) = (a, b) # pairs xs"
| "pairs _ = []"

text \<open>A loop that threads a state and may not return.\<close>

fun each :: "('a \<Rightarrow> 's \<Rightarrow> 's option) \<Rightarrow> 'a list \<Rightarrow> 's \<Rightarrow> 's option" where
  "each f [] s = Some s"
| "each f (x # xs) s = (case f x s of None \<Rightarrow> None | Some s1 \<Rightarrow> each f xs s1)"

text \<open>
  The code recurses over nodes without a bound; \<open>None\<close> is a recursion deeper than the fuel given, which
  stands for one that may not return.
\<close>

fun resolve_alias :: "nat \<Rightarrow> nodes \<Rightarrow> node_ref \<Rightarrow> node_ref option" where
  "resolve_alias 0 h a = None"
| "resolve_alias (Suc k) h a =
     (if nd_kind (h a) = AliasNode
      then (case nd_alias (h a) of None \<Rightarrow> Some a | Some b \<Rightarrow> resolve_alias k h b)
      else Some a)"

subsection \<open>The tree a node stands for\<close>

text \<open>Kind, plainness, tag, value and parts; aliases are followed and anchors forgotten.\<close>

datatype tree = Tree node_kind bool string string (parts: "tree list")

inductive denotes :: "nodes \<Rightarrow> node_ref \<Rightarrow> tree \<Rightarrow> bool" for h where
  through_alias: "nd_kind (h a) = AliasNode \<Longrightarrow> nd_alias (h a) = Some b \<Longrightarrow> denotes h b t \<Longrightarrow> denotes h a t"
| in_place: "nd_kind (h a) \<noteq> AliasNode \<Longrightarrow> list_all2 (denotes h) (nd_content (h a)) ts \<Longrightarrow>
    denotes h a (Tree (nd_kind (h a)) (nd_plain (h a)) (nd_tag (h a)) (nd_value (h a)) ts)"

lemma denotes_alias:
  "denotes h a t \<Longrightarrow> nd_kind (h a) = AliasNode \<Longrightarrow> \<exists>b. nd_alias (h a) = Some b \<and> denotes h b t"
  by (erule denotes.cases) auto

lemma denotes_node:
  "denotes h a t \<Longrightarrow> nd_kind (h a) \<noteq> AliasNode \<Longrightarrow>
   \<exists>ts. t = Tree (nd_kind (h a)) (nd_plain (h a)) (nd_tag (h a)) (nd_value (h a)) ts \<and>
        list_all2 (denotes h) (nd_content (h a)) ts"
  by (erule denotes.cases) auto

lemma denotes_unique: "denotes h a t \<Longrightarrow> denotes h a t' \<Longrightarrow> t' = t"
proof (induction arbitrary: t' rule: denotes.induct)
  case (through_alias a b t)
  obtain c where "nd_alias (h a) = Some c" "denotes h c t'"
    using denotes_alias[OF through_alias.prems through_alias.hyps(1)] by blast
  then show ?case using through_alias.hyps(2) by (intro through_alias.IH) simp
next
  case (in_place a ts)
  obtain ts' where t': "t' = Tree (nd_kind (h a)) (nd_plain (h a)) (nd_tag (h a)) (nd_value (h a)) ts'"
    and all: "list_all2 (denotes h) (nd_content (h a)) ts'"
    using denotes_node[OF in_place.prems in_place.hyps(1)] by auto
  have "ts' = ts"
  proof (rule nth_equalityI)
    show "length ts' = length ts" using all in_place.IH by (auto dest!: list_all2_lengthD)
  next
    fix i assume "i < length ts'"
    then have "i < length (nd_content (h a))" using list_all2_lengthD[OF all] by simp
    then show "ts' ! i = ts ! i" using list_all2_nthD[OF all] list_all2_nthD[OF in_place.IH] by blast
  qed
  then show ?case using t' by simp
qed

text \<open>Where an alias leads after some steps.\<close>

inductive leads :: "nodes \<Rightarrow> node_ref \<Rightarrow> node_ref \<Rightarrow> bool" for h where
  here: "leads h a a"
| step: "nd_kind (h a) = AliasNode \<Longrightarrow> nd_alias (h a) = Some b \<Longrightarrow> leads h b c \<Longrightarrow> leads h a c"

lemma resolve_leads: "resolve_alias k h a = Some b \<Longrightarrow> leads h a b"
  by (induction k h a rule: resolve_alias.induct)
    (auto intro: leads.intros split: if_splits option.splits)

lemma resolve_more: "resolve_alias k h a = Some b \<Longrightarrow> k \<le> m \<Longrightarrow> resolve_alias m h a = Some b"
proof (induction k h a arbitrary: m rule: resolve_alias.induct)
  case (2 k h a)
  then show ?case by (cases m) (auto split: if_splits option.splits)
qed simp

lemma denotes_leads: "leads h a b \<Longrightarrow> denotes h a t = denotes h b t"
proof (induction rule: leads.induct)
  case (step a b c)
  then show ?case by (auto dest: denotes_alias intro: denotes.through_alias)
qed simp

lemma leads_trans: "leads h a b \<Longrightarrow> leads h b c \<Longrightarrow> leads h a c"
  by (induction rule: leads.induct) (auto intro: leads.intros)

text \<open>A node that stands for a tree is resolved, and not to an alias.\<close>

lemma denotes_resolves:
  "denotes h a t \<Longrightarrow> \<exists>K b. nd_kind (h b) \<noteq> AliasNode \<and> leads h a b \<and> (\<forall>k\<ge>K. resolve_alias k h a = Some b)"
proof (induction rule: denotes.induct)
  case (through_alias a b t)
  then obtain K c where c: "nd_kind (h c) \<noteq> AliasNode" "leads h b c" "\<forall>k\<ge>K. resolve_alias k h b = Some c" by auto
  have "\<forall>k\<ge>Suc K. resolve_alias k h a = Some c"
  proof (intro allI impI)
    fix k assume "Suc K \<le> k"
    then show "resolve_alias k h a = Some c" using through_alias.hyps c(3) by (cases k) auto
  qed
  then show ?case using c through_alias.hyps by (blast intro: leads.step)
next
  case (in_place a ts)
  have "\<forall>k\<ge>Suc 0. resolve_alias k h a = Some a"
  proof (intro allI impI)
    fix k assume "Suc 0 \<le> k"
    then show "resolve_alias k h a = Some a" using in_place by (cases k) auto
  qed
  then show ?case using in_place by (blast intro: leads.here)
qed


subsection \<open>Writing aliases out\<close>

text \<open>
  \<open>inlineAliases\<close>: a node with an anchor is walked once, one without is walked wherever it occurs. The
  state is the visited nodes and the heap; the loop over \<open>Content\<close> reads each place when it comes to it.
\<close>

definition put_child :: "nodes \<Rightarrow> node_ref \<Rightarrow> nat \<Rightarrow> node_ref \<Rightarrow> nodes" where
  "put_child h a i c = h(a := (h a)\<lparr>nd_content := (nd_content (h a))[i := c]\<rparr>)"

definition drop_anchor :: "node_ref \<Rightarrow> node_ref set \<times> nodes \<Rightarrow> node_ref set \<times> nodes" where
  "drop_anchor a s =
     (case s of (visited, h) \<Rightarrow>
        if nd_anchor (h a) \<noteq> [] then (insert a visited, h(a := (h a)\<lparr>nd_anchor := []\<rparr>)) else (visited, h))"

fun inline_walk :: "nat \<Rightarrow> node_ref \<Rightarrow> node_ref set \<times> nodes \<Rightarrow> (node_ref set \<times> nodes) option" where
  "inline_walk 0 a s = None"
| "inline_walk (Suc k) a s =
     (if a \<in> fst s then Some s
      else each (\<lambda>i (visited, h).
             (case resolve_alias k h (nd_content (h a) ! i) of
                None \<Rightarrow> None
              | Some child \<Rightarrow> inline_walk k child (visited, put_child h a i child)))
           [0..<length (nd_content (snd s a))] (drop_anchor a s))"

definition inline_aliases :: "nat \<Rightarrow> node_ref \<Rightarrow> nodes \<Rightarrow> nodes option" where
  "inline_aliases k root h = map_option snd (inline_walk k root ({}, h))"

text \<open>The heap once some places hold what their aliases led to.\<close>

definition inlined :: "nodes \<Rightarrow> nodes \<Rightarrow> bool" where
  "inlined h h' \<longleftrightarrow> (\<forall>a. nd_kind (h' a) = nd_kind (h a) \<and> nd_plain (h' a) = nd_plain (h a) \<and>
     nd_tag (h' a) = nd_tag (h a) \<and> nd_value (h' a) = nd_value (h a) \<and> nd_alias (h' a) = nd_alias (h a) \<and>
     list_all2 (leads h) (nd_content (h a)) (nd_content (h' a)))"

lemma inlined_refl [simp]: "inlined h h"
  by (simp add: inlined_def list_all2_same leads.here)

lemma leads_inlined: "inlined h h' \<Longrightarrow> leads h' a b \<longleftrightarrow> leads h a b"
proof
  assume i: "inlined h h'"
  show "leads h' a b \<Longrightarrow> leads h a b"
    by (induction rule: leads.induct) (use i in \<open>auto simp: inlined_def intro: leads.intros\<close>)
  show "leads h a b \<Longrightarrow> leads h' a b"
  proof (induction rule: leads.induct)
    case (step a b c)
    then have "nd_kind (h' a) = AliasNode" "nd_alias (h' a) = Some b" using i by (simp_all add: inlined_def)
    then show ?case using step by (blast intro: leads.step)
  qed (rule leads.here)
qed

lemma inlined_trans:
  assumes "inlined h h1" "inlined h1 h2" shows "inlined h h2"
proof -
  have "list_all2 (leads h) (nd_content (h a)) (nd_content (h2 a))" for a
  proof (rule list_all2_trans[of "leads h" "leads h" "leads h"])
    show "\<And>x y z. leads h x y \<Longrightarrow> leads h y z \<Longrightarrow> leads h x z" by (rule leads_trans)
    show "list_all2 (leads h) (nd_content (h a)) (nd_content (h1 a))" using assms(1) by (simp add: inlined_def)
    have "list_all2 (leads h1) (nd_content (h1 a)) (nd_content (h2 a))" using assms(2) by (simp add: inlined_def)
    then show "list_all2 (leads h) (nd_content (h1 a)) (nd_content (h2 a))"
      by (rule list_all2_mono) (simp add: leads_inlined[OF assms(1)])
  qed
  then show ?thesis using assms by (simp add: inlined_def)
qed

lemma inlined_put_child:
  assumes "leads h (nd_content (h a) ! i) c" shows "inlined h (put_child h a i c)"
proof -
  have "list_all2 (leads h) (nd_content (h a)) ((nd_content (h a))[i := c])"
    unfolding list_all2_conv_all_nth
  proof (intro conjI allI impI)
    fix j assume "j < length (nd_content (h a))"
    then show "leads h (nd_content (h a) ! j) ((nd_content (h a))[i := c] ! j)"
      using assms by (cases "j = i") (simp_all add: leads.here)
  qed simp
  then show ?thesis by (auto simp: inlined_def put_child_def list_all2_same leads.here)
qed

lemma inlined_drop_anchor: "inlined (snd s) (snd (drop_anchor a s))"
  by (cases s) (auto simp: inlined_def drop_anchor_def list_all2_same leads.here)

lemma inlined_denotes:
  assumes "denotes h a t" "inlined h h'" shows "denotes h' a t"
  using assms(1)
proof (induction rule: denotes.induct)
  case (through_alias a b t)
  then show ?case using assms(2) by (intro denotes.through_alias[of h' a b]) (simp_all add: inlined_def)
next
  case (in_place a ts)
  have same: "nd_kind (h' a) = nd_kind (h a)" "nd_plain (h' a) = nd_plain (h a)" "nd_tag (h' a) = nd_tag (h a)"
    "nd_value (h' a) = nd_value (h a)" and l: "list_all2 (leads h) (nd_content (h a)) (nd_content (h' a))"
    using assms(2) by (simp_all add: inlined_def)
  have "list_all2 (denotes h') (nd_content (h' a)) ts"
  proof (rule list_all2_all_nthI)
    show "length (nd_content (h' a)) = length ts" using l in_place.IH by (auto dest!: list_all2_lengthD)
  next
    fix i assume i: "i < length (nd_content (h' a))"
    then have "i < length (nd_content (h a))" using list_all2_lengthD[OF l] by simp
    then have "denotes h' (nd_content (h a) ! i) (ts ! i)" "leads h' (nd_content (h a) ! i) (nd_content (h' a) ! i)"
      using list_all2_nthD[OF in_place.IH] list_all2_nthD[OF l] leads_inlined[OF assms(2)] by blast+
    then show "denotes h' (nd_content (h' a) ! i) (ts ! i)" by (simp add: denotes_leads)
  qed
  then have "denotes h' a (Tree (nd_kind (h' a)) (nd_plain (h' a)) (nd_tag (h' a)) (nd_value (h' a)) ts)"
    using same in_place.hyps(1) by (intro denotes.in_place) simp_all
  then show ?case using same by simp
qed

lemma each_append: "each f (xs @ ys) s = (case each f xs s of None \<Rightarrow> None | Some s1 \<Rightarrow> each f ys s1)"
  by (induction xs arbitrary: s) (auto split: option.splits)

lemma each_induct:
  assumes "each f xs s = Some s'" "I [] s"
    "\<And>ys x u v. I ys u \<Longrightarrow> x \<in> set xs \<Longrightarrow> f x u = Some v \<Longrightarrow> I (ys @ [x]) v"
  shows "I xs s'"
  using assms
proof (induction xs arbitrary: s' rule: rev_induct)
  case (snoc x xs)
  obtain s1 where s1: "each f xs s = Some s1" "f x s1 = Some s'"
    using snoc.prems(1) by (auto simp: each_append split: option.splits)
  have "I xs s1" by (rule snoc.IH[OF s1(1) snoc.prems(2)]) (use snoc.prems(3) in auto)
  then show ?case using s1(2) snoc.prems(3)[of xs s1 x s'] by simp
qed simp

lemma walk_inlined: "inline_walk k a s = Some s' \<Longrightarrow> inlined (snd s) (snd s')"
proof (induction k arbitrary: a s s')
  case (Suc k)
  show ?case
  proof (cases "a \<in> fst s")
    case False
    let ?f = "\<lambda>i (visited, h). (case resolve_alias k h (nd_content (h a) ! i) of None \<Rightarrow> None
       | Some child \<Rightarrow> inline_walk k child (visited, put_child h a i child))"
    have e: "each ?f [0..<length (nd_content (snd s a))] (drop_anchor a s) = Some s'" using Suc.prems False by simp
    show ?thesis
    proof (rule each_induct[OF e, of "\<lambda>_ u. inlined (snd s) (snd u)"])
      show "inlined (snd s) (snd (drop_anchor a s))" by (rule inlined_drop_anchor)
    next
      fix ys i u v assume u: "inlined (snd s) (snd u)" and f: "?f i u = Some v"
      obtain visited h where uh: "u = (visited, h)" by (cases u)
      obtain c where c: "resolve_alias k h (nd_content (h a) ! i) = Some c"
        "inline_walk k c (visited, put_child h a i c) = Some v"
        using f uh by (auto split: option.splits)
      have "inlined h (put_child h a i c)" by (rule inlined_put_child[OF resolve_leads[OF c(1)]])
      moreover have "inlined (put_child h a i c) (snd v)" using Suc.IH[OF c(2)] by simp
      ultimately show "inlined (snd s) (snd v)" using u uh by (auto intro: inlined_trans)
    qed
  qed (use Suc.prems in simp)
qed simp


subsection \<open>No alias is left\<close>

definition resolved :: "nodes \<Rightarrow> node_ref \<Rightarrow> bool" where
  "resolved h a \<longleftrightarrow> nd_kind (h a) = AliasNode \<longrightarrow> nd_alias (h a) = None"

lemma resolve_resolved: "resolve_alias k h a = Some b \<Longrightarrow> resolved h b"
  by (induction k h a rule: resolve_alias.induct) (auto simp: resolved_def split: if_splits option.splits)

lemma resolved_leads: "leads h a b \<Longrightarrow> resolved h a \<Longrightarrow> b = a"
  by (induction rule: leads.induct) (auto simp: resolved_def)

lemma inlined_resolved: "inlined h h' \<Longrightarrow> resolved h' a = resolved h a"
  by (simp add: inlined_def resolved_def)

lemma inlined_keeps_child:
  assumes "inlined h h'" "i < length (nd_content (h a))" "resolved h (nd_content (h a) ! i)"
  shows "nd_content (h' a) ! i = nd_content (h a) ! i"
  using assms list_all2_nthD[of "leads h" "nd_content (h a)" "nd_content (h' a)" i]
  by (auto simp: inlined_def dest: resolved_leads)

lemma inlined_length: "inlined h h' \<Longrightarrow> length (nd_content (h' a)) = length (nd_content (h a))"
  by (metis inlined_def list_all2_lengthD)

text \<open>The nodes of \<open>D\<close> are done: their children are resolved and done, or still being walked.\<close>

definition settled :: "nodes \<Rightarrow> node_ref set \<Rightarrow> node_ref set \<Rightarrow> bool" where
  "settled h D V \<longleftrightarrow> (\<forall>x\<in>D. \<forall>i<length (nd_content (h x)).
     resolved h (nd_content (h x) ! i) \<and> nd_content (h x) ! i \<in> D \<union> V)"

lemma settled_inlined: "settled h D V \<Longrightarrow> inlined h h' \<Longrightarrow> settled h' D V"
  by (simp add: settled_def inlined_length inlined_resolved inlined_keeps_child)

lemma settled_union: "settled h D (E \<union> V) \<Longrightarrow> settled h E V \<Longrightarrow> settled h (D \<union> E) V"
  by (auto simp: settled_def)

lemma settled_wider: "settled h D V \<Longrightarrow> V \<subseteq> W \<Longrightarrow> settled h D W"
  by (force simp: settled_def)

lemma walk_settles:
  "inline_walk k a s = Some s' \<Longrightarrow>
   \<exists>D. a \<in> D \<union> fst s \<and> fst s' \<subseteq> D \<union> fst s \<and> settled (snd s') D (fst s)"
proof (induction k arbitrary: a s s')
  case (Suc k)
  show ?case
  proof (cases "a \<in> fst s")
    case True
    then show ?thesis using Suc.prems by (intro exI[of _ "{}"]) (simp add: settled_def)
  next
    case False
    let ?n = "length (nd_content (snd s a))" and ?V = "insert a (fst s)"
    let ?f = "\<lambda>i (visited, h). (case resolve_alias k h (nd_content (h a) ! i) of None \<Rightarrow> None
       | Some child \<Rightarrow> inline_walk k child (visited, put_child h a i child))"
    let ?I = "\<lambda>is u. \<exists>D. fst u \<subseteq> D \<union> ?V \<and> settled (snd u) D ?V \<and> length (nd_content (snd u a)) = ?n \<and>
      (\<forall>i\<in>set is. i < ?n \<and> resolved (snd u) (nd_content (snd u a) ! i) \<and> nd_content (snd u a) ! i \<in> D \<union> ?V)"
    have e: "each ?f [0..<?n] (drop_anchor a s) = Some s'" using Suc.prems False by simp
    have "?I [0..<?n] s'"
    proof (rule each_induct[OF e, of ?I])
      show "?I [] (drop_anchor a s)"
        by (intro exI[of _ "{}"]) (auto simp: settled_def drop_anchor_def split: prod.splits)
    next
      fix ys i u v
      assume I: "?I ys u" and i: "i \<in> set [0..<?n]" and f: "?f i u = Some v"
      obtain W h where u: "u = (W, h)" by (cases u)
      obtain D where D: "W \<subseteq> D \<union> ?V" "settled h D ?V" "length (nd_content (h a)) = ?n"
        "\<And>j. j \<in> set ys \<Longrightarrow> j < ?n \<and> resolved h (nd_content (h a) ! j) \<and> nd_content (h a) ! j \<in> D \<union> ?V"
        using I u by auto
      obtain c where c: "resolve_alias k h (nd_content (h a) ! i) = Some c"
        "inline_walk k c (W, put_child h a i c) = Some v"
        using f u by (auto split: option.splits)
      let ?h1 = "put_child h a i c"
      have i1: "inlined h ?h1" by (rule inlined_put_child[OF resolve_leads[OF c(1)]])
      have i2: "inlined ?h1 (snd v)" using walk_inlined[OF c(2)] by simp
      have i3: "inlined h (snd v)" by (rule inlined_trans[OF i1 i2])
      obtain E where E: "c \<in> E \<union> W" "fst v \<subseteq> E \<union> W" "settled (snd v) E W"
        using Suc.IH[OF c(2)] by auto
      have "settled (snd v) (E \<union> D) ?V"
        by (rule settled_union) (use D(1) in \<open>auto intro: settled_wider[OF E(3)] settled_inlined[OF D(2) i3]\<close>)
      moreover have "fst v \<subseteq> (E \<union> D) \<union> ?V" using E(2) D(1) by auto
      moreover have len: "length (nd_content (snd v a)) = ?n" using inlined_length[OF i3] D(3) by simp
      moreover have "j < ?n \<and> resolved (snd v) (nd_content (snd v a) ! j) \<and> nd_content (snd v a) ! j \<in> (E \<union> D) \<union> ?V"
        if j: "j \<in> set (ys @ [i])" for j
      proof (cases "j = i")
        case True
        have here: "nd_content (?h1 a) ! i = c" using i D(3) by (simp add: put_child_def)
        have res: "resolved ?h1 c" using resolve_resolved[OF c(1)] inlined_resolved[OF i1] by simp
        have "nd_content (snd v a) ! i = c"
          using inlined_keeps_child[OF i2, of i a] here res i D(3) by (simp add: put_child_def)
        then show ?thesis using True i res inlined_resolved[OF i2] E(1) D(1) by auto
      next
        case False
        then have j': "j < ?n" "resolved h (nd_content (h a) ! j)" "nd_content (h a) ! j \<in> D \<union> ?V"
          using D(4) j by auto
        have "nd_content (snd v a) ! j = nd_content (h a) ! j"
          by (rule inlined_keeps_child[OF i3]) (use j' D(3) in auto)
        then show ?thesis using j' inlined_resolved[OF i3] by auto
      qed
      ultimately show "?I (ys @ [i]) v" by (intro exI[of _ "E \<union> D"]) blast
    qed
    then obtain D where D: "fst s' \<subseteq> D \<union> ?V" "settled (snd s') D ?V" "length (nd_content (snd s' a)) = ?n"
      "\<And>i. i < ?n \<Longrightarrow> resolved (snd s') (nd_content (snd s' a) ! i) \<and> nd_content (snd s' a) ! i \<in> D \<union> ?V"
      by auto
    have "settled (snd s') (insert a D) (fst s)" using D(2-4) by (auto simp: settled_def)
    then show ?thesis using D(1) by (intro exI[of _ "insert a D"]) auto
  qed
qed simp

text \<open>The nodes reached from a node through the contents alone.\<close>

inductive below :: "nodes \<Rightarrow> node_ref \<Rightarrow> node_ref \<Rightarrow> bool" for h a where
  below_refl: "below h a a"
| below_child: "below h a b \<Longrightarrow> c \<in> set (nd_content (h b)) \<Longrightarrow> below h a c"

lemma settled_below: "below h a b \<Longrightarrow> settled h D {} \<Longrightarrow> a \<in> D \<Longrightarrow> b \<in> D \<and> (b = a \<or> resolved h b)"
  by (induction rule: below.induct) (auto simp: settled_def in_set_conv_nth)

lemma settled_no_alias:
  assumes "settled h D {}" "a \<in> D" "denotes h a t" "nd_kind (h a) \<noteq> AliasNode" "below h a b"
  shows "nd_kind (h b) \<noteq> AliasNode \<and> (\<exists>t'. denotes h b t')"
  using assms(5)
proof (induction rule: below.induct)
  case below_refl
  then show ?case using assms by blast
next
  case (below_child b c)
  then obtain t' where t': "denotes h b t'" "nd_kind (h b) \<noteq> AliasNode" by blast
  obtain ts where "list_all2 (denotes h) (nd_content (h b)) ts" using denotes_node[OF t'] by blast
  then obtain t'' where d: "denotes h c t''" using below_child.hyps(2)
    by (auto simp: in_set_conv_nth list_all2_conv_all_nth)
  have "resolved h c" using settled_below[OF below_child.hyps(1) assms(1,2)] below_child.hyps(2) assms(1)
    by (auto simp: settled_def in_set_conv_nth)
  then have "nd_kind (h c) \<noteq> AliasNode" using denotes_alias[OF d] by (auto simp: resolved_def)
  then show ?case using d by blast
qed

lemma inline_aliases_facts:
  assumes "inline_aliases k root h = Some h'" "denotes h root t" "nd_kind (h root) \<noteq> AliasNode"
  shows "denotes h' root t" and "below h' root b \<Longrightarrow> nd_kind (h' b) \<noteq> AliasNode"
proof -
  obtain s' where s': "inline_walk k root ({}, h) = Some s'" "h' = snd s'"
    using assms(1) by (auto simp: inline_aliases_def)
  have i: "inlined h h'" using walk_inlined[OF s'(1)] s'(2) by simp
  show d: "denotes h' root t" by (rule inlined_denotes[OF assms(2) i])
  obtain D where D: "root \<in> D" "settled h' D {}" using walk_settles[OF s'(1)] s'(2) by auto
  have "nd_kind (h' root) \<noteq> AliasNode" using assms(3) i by (simp add: inlined_def)
  then show "below h' root b \<Longrightarrow> nd_kind (h' b) \<noteq> AliasNode" using settled_no_alias[OF D(2,1) d] by blast
qed


subsection \<open>The walk returns\<close>

lemma resolve_inlined: "inlined h h' \<Longrightarrow> resolve_alias k h' a = resolve_alias k h a"
  by (induction k h a rule: resolve_alias.induct) (auto simp: inlined_def split: option.splits)

lemma resolve_along:
  "leads h a c \<Longrightarrow> resolve_alias k h a = Some b \<Longrightarrow> resolved h c \<or> resolve_alias k h c = Some b"
proof (induction arbitrary: k rule: leads.induct)
  case (step a d c)
  then obtain m where "k = Suc m" "resolve_alias m h d = Some b" by (cases k) auto
  then show ?case using step.IH resolve_more by (metis le_SucI order_refl)
qed simp

lemma leads_same_end:
  "leads h a b \<Longrightarrow> resolved h b \<Longrightarrow> leads h a c \<Longrightarrow> leads h c b"
proof (induction arbitrary: c rule: leads.induct)
  case (here a)
  then show ?case using resolved_leads by (auto intro: leads.here)
next
  case (step a d b)
  from step.prems(2) show ?case
  proof (cases rule: leads.cases)
    case here
    then show ?thesis using step by (auto intro: leads.step)
  next
    case (step b')
    then show ?thesis using step.IH \<open>nd_alias (h a) = Some d\<close> \<open>resolved h b\<close> step by auto
  qed
qed

text \<open>Enough fuel for each of finitely many is enough for all.\<close>

lemma enough_for_all:
  fixes n :: nat
  assumes "\<And>i. i < n \<Longrightarrow> \<exists>K. \<forall>k\<ge>K. P i k"
  shows "\<exists>K::nat. \<forall>k\<ge>K. \<forall>i<n. P i k"
proof -
  have "\<forall>i\<in>{..<n}. \<exists>K. \<forall>k\<ge>K. P i k" using assms by simp
  from bchoice[OF this] obtain f where f: "\<forall>i\<in>{..<n}. \<forall>k\<ge>f i. P i k" by blast
  have "\<forall>k\<ge>Max (f ` {..<n}). \<forall>i<n. P i k"
  proof (intro allI impI)
    fix k i assume "Max (f ` {..<n}) \<le> k" "i < n"
    then have "f i \<le> k" by (meson Max_ge finite_imageI finite_lessThan imageI lessThan_iff order_trans)
    then show "P i k" using f \<open>i < n\<close> by simp
  qed
  then show ?thesis by blast
qed

lemma each_returns:
  assumes "I s" "\<And>x u. x \<in> set xs \<Longrightarrow> I u \<Longrightarrow> \<exists>v. f x u = Some v \<and> I v"
  shows "\<exists>s'. each f xs s = Some s' \<and> I s'"
  using assms
proof (induction xs arbitrary: s)
  case (Cons x xs)
  obtain v where v: "f x s = Some v" "I v" using Cons.prems by auto
  have "\<exists>s'. each f xs v = Some s' \<and> I s'" by (rule Cons.IH[OF v(2)]) (use Cons.prems(2) in auto)
  then show ?case using v by simp
qed simp

lemma walk_returns:
  "denotes h a t \<Longrightarrow> \<exists>K. \<forall>k\<ge>K. \<forall>b. leads h a b \<and> resolved h b \<longrightarrow>
     (\<forall>h' V. inlined h h' \<longrightarrow> (\<exists>s'. inline_walk k b (V, h') = Some s'))"
proof (induction rule: denotes.induct)
  case (through_alias a c t)
  have "leads h c b" if "leads h a b" "resolved h b" for b
    using that through_alias.hyps by (auto simp: resolved_def elim: leads.cases)
  then show ?case using through_alias.IH by blast
next
  case (in_place a ts)
  let ?c = "nd_content (h a)"
  let ?P = "\<lambda>i k. (\<exists>b. resolve_alias k h (?c ! i) = Some b) \<and> (\<forall>b. leads h (?c ! i) b \<and> resolved h b \<longrightarrow>
     (\<forall>h' V. inlined h h' \<longrightarrow> (\<exists>s'. inline_walk k b (V, h') = Some s')))"
  have child: "\<exists>K. \<forall>k\<ge>K. ?P i k" if "i < length ?c" for i
  proof -
    have d: "denotes h (?c ! i) (ts ! i) \<and> (\<exists>K. \<forall>k\<ge>K. \<forall>b. leads h (?c ! i) b \<and> resolved h b \<longrightarrow>
       (\<forall>h' V. inlined h h' \<longrightarrow> (\<exists>s'. inline_walk k b (V, h') = Some s')))"
      using list_all2_nthD[OF in_place.IH that] by blast
    obtain K1 where K1: "\<forall>k\<ge>K1. \<exists>b. resolve_alias k h (?c ! i) = Some b"
      using denotes_resolves[OF conjunct1[OF d]] by blast
    obtain K2 where K2: "\<forall>k\<ge>K2. \<forall>b. leads h (?c ! i) b \<and> resolved h b \<longrightarrow>
       (\<forall>h' V. inlined h h' \<longrightarrow> (\<exists>s'. inline_walk k b (V, h') = Some s'))" using d by blast
    show ?thesis by (rule exI[of _ "max K1 K2"]) (use K1 K2 in simp)
  qed
  obtain K where K: "\<And>k i. K \<le> k \<Longrightarrow> i < length ?c \<Longrightarrow> ?P i k"
    using enough_for_all[where P = ?P, OF child] by blast
  have "\<exists>s'. inline_walk (Suc k) a (V, h') = Some s'" if k: "K \<le> k" "inlined h h'" for k V h'
  proof (cases "a \<in> V")
    case False
    let ?f = "\<lambda>i (visited, h). (case resolve_alias k h (nd_content (h a) ! i) of None \<Rightarrow> None
       | Some child \<Rightarrow> inline_walk k child (visited, put_child h a i child))"
    have "\<exists>s'. each ?f [0..<length (nd_content (h' a))] (drop_anchor a (V, h')) = Some s' \<and> inlined h (snd s')"
    proof (rule each_returns)
      show "inlined h (snd (drop_anchor a (V, h')))"
        using inlined_trans[OF k(2) inlined_drop_anchor[of "(V, h')" a, simplified]] .
    next
      fix i and u :: "node_ref set \<times> nodes" assume i: "i \<in> set [0..<length (nd_content (h' a))]" and u: "inlined h (snd u)"
      obtain W g where wg: "u = (W, g)" by (cases u)
      have i': "i < length ?c" using i inlined_length[OF k(2)] by simp
      have gl: "leads h (?c ! i) (nd_content (g a) ! i)"
        using u wg i' by (auto simp: inlined_def intro: list_all2_nthD)
      obtain b where b: "resolve_alias k h (?c ! i) = Some b" using K[OF k(1) i'] by blast
      have r: "resolve_alias k h (nd_content (g a) ! i) = Some b"
      proof -
        have rb: "resolved h b" using resolve_resolved[OF b] .
        from resolve_along[OF gl b] show ?thesis
        proof
          assume "resolved h (nd_content (g a) ! i)"
          then have "b = nd_content (g a) ! i"
            using resolved_leads leads_same_end[OF resolve_leads[OF b] rb gl] by blast
          moreover have "k \<noteq> 0" using b by (cases k) auto
          ultimately show ?thesis using rb by (cases k) (auto simp: resolved_def split: option.splits)
        qed
      qed
      then have rg: "resolve_alias k g (nd_content (g a) ! i) = Some b" using resolve_inlined u wg by simp
      have put: "inlined g (put_child g a i b)" by (rule inlined_put_child[OF resolve_leads[OF rg]])
      then have hp: "inlined h (put_child g a i b)" using inlined_trans u wg by simp
      obtain v where v: "inline_walk k b (W, put_child g a i b) = Some v"
        using K[OF k(1) i'] resolve_leads[OF b] resolve_resolved[OF b] hp by blast
      have "inlined h (snd v)" using inlined_trans[OF hp] walk_inlined[OF v] by simp
      then show "\<exists>v. ?f i u = Some v \<and> inlined h (snd v)" using v rg wg by auto
    qed
    then show ?thesis using False by auto
  qed simp
  moreover have "b = a" if "leads h a b" for b
    using that in_place.hyps(1) by (auto elim: leads.cases)
  ultimately show ?case by (intro exI[of _ "Suc K"]) (metis Suc_le_D Suc_le_mono)
qed

lemma inline_aliases_returns:
  assumes "denotes h root t" "nd_kind (h root) \<noteq> AliasNode"
  shows "\<exists>K. \<forall>k\<ge>K. \<exists>h'. inline_aliases k root h = Some h'"
proof -
  have "resolved h root" using assms(2) by (simp add: resolved_def)
  then show ?thesis using walk_returns[OF assms(1)] leads.here[of h root]
    unfolding inline_aliases_def by (metis inlined_refl option.simps(9))
qed

end
