(* ===== verification/Short_Ids.thy ===== *)
theory Short_Ids
  imports Yaml_Nodes
begin

text \<open>
  \<open>core/short_id.go\<close>: the short ids of a document are kept as text. A scalar the YAML library took for a
  number keeps the text it was written with, so giving it the tag of a string restores the id.

  The lemmas show that retagging changes tags alone, that no number is left under a short-id key that
  the contents reach, and that it returns on every finite document.
\<close>

subsection \<open>Retagging\<close>

definition number :: "node \<Rightarrow> bool" where
  "number n \<longleftrightarrow> nd_kind n = ScalarNode \<and> nd_plain n \<and> (nd_tag n = ''!!int'' \<or> nd_tag n = ''!!float'')"

lemma retagged_no_number [simp]: "\<not> number (n\<lparr>nd_tag := ''!!str''\<rparr>)"
  by (simp add: number_def)

fun retag_number :: "nat \<Rightarrow> node_ref \<Rightarrow> bool \<times> nodes \<Rightarrow> (bool \<times> nodes) option" where
  "retag_number 0 a s = None"
| "retag_number (Suc k) a s =
     (case s of (retagged, h) \<Rightarrow>
        if number (h a) then Some (True, h(a := (h a)\<lparr>nd_tag := ''!!str''\<rparr>))
        else if nd_kind (h a) = SequenceNode then each (retag_number k) (nd_content (h a)) (retagged, h)
        else Some (retagged, h))"

text \<open>The state carries whether something was retagged so far, as the disjunctions of the code do.\<close>

definition retag_pair :: "nat \<Rightarrow> node_ref \<times> node_ref \<Rightarrow> bool \<times> nodes \<Rightarrow> (bool \<times> nodes) option" where
  "retag_pair k p s =
     (if nd_value (snd s (fst p)) = ''short-id'' then retag_number k (snd p) s else Some s)"

fun retag_walk :: "nat \<Rightarrow> node_ref \<Rightarrow> bool \<times> nodes \<Rightarrow> (bool \<times> nodes) option" where
  "retag_walk 0 a s = None"
| "retag_walk (Suc k) a s =
     (case (if nd_kind (snd s a) = MappingNode then each (retag_pair k) (pairs (nd_content (snd s a))) s else Some s) of
        None \<Rightarrow> None
      | Some s1 \<Rightarrow> each (retag_walk k) (nd_content (snd s a)) s1)"

definition retag_short_ids :: "nat \<Rightarrow> node_ref \<Rightarrow> nodes \<Rightarrow> (bool \<times> nodes) option" where
  "retag_short_ids k a h = retag_walk k a (False, h)"

text \<open>
  \<open>unmarshalRawConfig\<close>: the library reads the text itself unless the document holds an id to restore.
  Decoding a document or a text is the library's.
\<close>

record 'r yaml_library =
  yl_short_tag :: "node \<Rightarrow> string"
  yl_parse :: "string \<Rightarrow> heap \<Rightarrow> string + heap \<times> node_ref"
  yl_decode :: "nodes \<Rightarrow> node_ref \<Rightarrow> string + 'r"
  yl_unmarshal :: "string \<Rightarrow> string + 'r"
  yl_encode :: "nodes \<Rightarrow> node_ref \<Rightarrow> string + string"

definition unmarshal_raw_config :: "nat \<Rightarrow> 'r yaml_library \<Rightarrow> string \<Rightarrow> heap \<Rightarrow> (string + 'r) option" where
  "unmarshal_raw_config k lib buf hp =
     (if \<not> contains buf ''short-id'' then Some (yl_unmarshal lib buf)
      else (case yl_parse lib buf hp of
              Inl _ \<Rightarrow> Some (yl_unmarshal lib buf)
            | Inr (hp1, document) \<Rightarrow>
                (case retag_short_ids k document (hp_node hp1) of
                   None \<Rightarrow> None
                 | Some (retagged, h) \<Rightarrow>
                     Some (if retagged then yl_decode lib h document else yl_unmarshal lib buf))))"

subsection \<open>What it changes\<close>

text \<open>Tags of numbers, and nothing else.\<close>

definition retagged_to :: "nodes \<Rightarrow> nodes \<Rightarrow> bool" where
  "retagged_to h h' \<longleftrightarrow> (\<forall>a. h' a = h a \<or> number (h a) \<and> h' a = (h a)\<lparr>nd_tag := ''!!str''\<rparr>)"

lemma retagged_refl [simp]: "retagged_to h h"
  by (simp add: retagged_to_def)

lemma retagged_fields:
  assumes "retagged_to h h'"
  shows "nd_kind (h' a) = nd_kind (h a)" "nd_value (h' a) = nd_value (h a)" "nd_content (h' a) = nd_content (h a)"
    "nd_alias (h' a) = nd_alias (h a)"
  using assms[unfolded retagged_to_def, THEN spec, of a] by auto

lemma retagged_at: "retagged_to h h' \<Longrightarrow> h' a = h a \<or> number (h a) \<and> h' a = (h a)\<lparr>nd_tag := ''!!str''\<rparr>"
  by (simp add: retagged_to_def)

lemma number_gone: "retagged_to h h' \<Longrightarrow> \<not> number (h a) \<Longrightarrow> \<not> number (h' a)"
  by (drule retagged_at[of h h' a]) auto

lemma retagged_trans:
  assumes "retagged_to h h1" "retagged_to h1 h2" shows "retagged_to h h2"
  unfolding retagged_to_def
proof
  fix a
  from retagged_at[OF assms(2), of a] show "h2 a = h a \<or> number (h a) \<and> h2 a = (h a)\<lparr>nd_tag := ''!!str''\<rparr>"
  proof
    assume "h2 a = h1 a"
    then show ?thesis using retagged_at[OF assms(1), of a] by simp
  next
    assume "number (h1 a) \<and> h2 a = (h1 a)\<lparr>nd_tag := ''!!str''\<rparr>"
    moreover have "\<not> number (h1 a)" if "h1 a = (h a)\<lparr>nd_tag := ''!!str''\<rparr>" using that by simp
    ultimately have "h1 a = h a" using retagged_at[OF assms(1), of a] by blast
    then show ?thesis using \<open>number (h1 a) \<and> h2 a = _\<close> by simp
  qed
qed

definition retags :: "bool \<times> nodes \<Rightarrow> bool \<times> nodes \<Rightarrow> bool" where
  "retags s s' \<longleftrightarrow> retagged_to (snd s) (snd s') \<and> (fst s \<longrightarrow> fst s') \<and> (\<not> fst s' \<longrightarrow> s' = s)"

lemma retags_refl [simp]: "retags s s"
  by (simp add: retags_def)

lemma retags_trans: "retags s s1 \<Longrightarrow> retags s1 s2 \<Longrightarrow> retags s s2"
  unfolding retags_def by (metis retagged_trans)

lemma retags_to: "retags s s' \<Longrightarrow> retagged_to (snd s) (snd s')"
  by (simp add: retags_def)

lemma retags_gone: "retags s s' \<Longrightarrow> \<not> number (snd s a) \<Longrightarrow> \<not> number (snd s' a)"
  by (auto simp: retags_def dest: number_gone)

lemma each_retags:
  assumes "each f xs s = Some s'" "\<And>x u v. f x u = Some v \<Longrightarrow> retags u v"
  shows "retags s s'"
  by (rule each_induct[OF assms(1), of "\<lambda>_. retags s"]) (auto intro: retags_trans assms(2))

lemma retag_number_retags: "retag_number k a s = Some s' \<Longrightarrow> retags s s'"
proof (induction k arbitrary: a s s')
  case (Suc k)
  obtain r h where s: "s = (r, h)" by (cases s)
  have "retags u v" if "retag_number k x u = Some v" for x u v using Suc.IH that .
  then have "retags s s'" if "each (retag_number k) (nd_content (h a)) s = Some s'"
    using each_retags[OF that] by blast
  moreover have "retags (r, h) (True, h(a := (h a)\<lparr>nd_tag := ''!!str''\<rparr>))" if "number (h a)"
    using that by (simp add: retags_def retagged_to_def)
  ultimately show ?case using Suc.prems s by (auto split: if_splits)
qed simp

lemma retag_pair_retags: "retag_pair k p s = Some s' \<Longrightarrow> retags s s'"
  by (auto simp: retag_pair_def split: if_splits intro: retag_number_retags)

lemma retag_walk_retags: "retag_walk k a s = Some s' \<Longrightarrow> retags s s'"
proof (induction k arbitrary: a s s')
  case (Suc k)
  obtain s1 where s1: "(if nd_kind (snd s a) = MappingNode then each (retag_pair k) (pairs (nd_content (snd s a))) s
      else Some s) = Some s1" "each (retag_walk k) (nd_content (snd s a)) s1 = Some s'"
    using Suc.prems by (auto split: option.splits simp del: each.simps)
  have "retags s s1" using s1(1) by (auto split: if_splits intro: each_retags retag_pair_retags)
  moreover have "retags s1 s'" using each_retags[OF s1(2)] Suc.IH by blast
  ultimately show ?case by (rule retags_trans)
qed simp

subsection \<open>No number is left under a short-id key\<close>

text \<open>A value, the items of a list, and of the lists in it.\<close>

inductive listed :: "nodes \<Rightarrow> node_ref \<Rightarrow> node_ref \<Rightarrow> bool" for h where
  itself: "listed h v v"
| item: "nd_kind (h v) = SequenceNode \<Longrightarrow> c \<in> set (nd_content (h v)) \<Longrightarrow> listed h c x \<Longrightarrow> listed h v x"

lemma listed_kept: "listed h v x \<Longrightarrow> retagged_to h h' \<Longrightarrow> listed h' v x"
  by (induction rule: listed.induct) (auto intro: listed.intros simp: retagged_fields)

lemma below_kept: "below h a b \<Longrightarrow> retagged_to h h' \<Longrightarrow> below h' a b"
  by (induction rule: below.induct) (auto intro: below.intros simp: retagged_fields)

lemma below_front: "below h a b \<Longrightarrow> b = a \<or> (\<exists>c\<in>set (nd_content (h a)). below h c b)"
  by (induction rule: below.induct) (auto intro: below.intros)

lemma retag_number_clears:
  "retag_number k v s = Some s' \<Longrightarrow> listed (snd s) v x \<Longrightarrow> \<not> number (snd s' x)"
proof (induction k arbitrary: v s s' x)
  case (Suc k)
  obtain r h where s: "s = (r, h)" by (cases s)
  consider (number) "number (h v)" | (list) "\<not> number (h v)" "nd_kind (h v) = SequenceNode"
    | (other) "\<not> number (h v)" "nd_kind (h v) \<noteq> SequenceNode" by blast
  then show ?case
  proof cases
    case number
    then have "x = v" using Suc.prems(2) s by (auto simp: number_def elim: listed.cases)
    then show ?thesis using Suc.prems(1) s number by (auto simp: number_def)
  next
    case other
    then have "x = v" using Suc.prems(2) s by (auto elim: listed.cases)
    then show ?thesis using Suc.prems(1) s other by auto
  next
    case list
    have e: "each (retag_number k) (nd_content (h v)) s = Some s'" using Suc.prems(1) s list by simp
    have all: "retags s s' \<and> (\<forall>c\<in>set (nd_content (h v)). \<forall>x. listed h c x \<longrightarrow> \<not> number (snd s' x))"
    proof (rule each_induct[OF e, of "\<lambda>cs u. retags s u \<and> (\<forall>c\<in>set cs. \<forall>x. listed h c x \<longrightarrow> \<not> number (snd u x))"])
      fix ys c u w
      assume I: "retags s u \<and> (\<forall>c\<in>set ys. \<forall>x. listed h c x \<longrightarrow> \<not> number (snd u x))" and f: "retag_number k c u = Some w"
      have uw: "retags u w" by (rule retag_number_retags[OF f])
      have "\<not> number (snd w x)" if "listed h c x" for x
        using Suc.IH[OF f] listed_kept[OF that, of "snd u"] I s by (simp add: retags_def)
      then show "retags s w \<and> (\<forall>c\<in>set (ys @ [c]). \<forall>x. listed h c x \<longrightarrow> \<not> number (snd w x))"
        using retags_trans[OF conjunct1[OF I] uw] retags_gone[OF uw] conjunct2[OF I] by auto
    qed simp
    show ?thesis
    proof (cases "x = v")
      case True
      then show ?thesis using retags_gone[OF conjunct1[OF all], of v] list(1) s by simp
    next
      case False
      then show ?thesis using Suc.prems(2) s all by (auto elim: listed.cases)
    qed
  qed
qed simp

text \<open>What a mapping at or under a node has under a short-id key.\<close>

definition short_id_value :: "nodes \<Rightarrow> node_ref \<Rightarrow> node_ref \<Rightarrow> bool" where
  "short_id_value h m x \<longleftrightarrow> nd_kind (h m) = MappingNode \<and>
     (\<exists>(n, v)\<in>set (pairs (nd_content (h m))). nd_value (h n) = ''short-id'' \<and> listed h v x)"

lemma short_id_kept: "short_id_value h m x \<Longrightarrow> retagged_to h h' \<Longrightarrow> short_id_value h' m x"
  by (fastforce simp: short_id_value_def retagged_fields intro: listed_kept)

lemma retag_pairs_clear:
  assumes "each (retag_pair k) ps s = Some s'"
  shows "\<forall>(n, v)\<in>set ps. nd_value (snd s n) = ''short-id'' \<longrightarrow> (\<forall>x. listed (snd s) v x \<longrightarrow> \<not> number (snd s' x))"
proof -
  let ?C = "\<lambda>ps u. \<forall>(n, v)\<in>set ps. nd_value (snd s n) = ''short-id'' \<longrightarrow> (\<forall>x. listed (snd s) v x \<longrightarrow> \<not> number (snd u x))"
  have "retags s s' \<and> ?C ps s'"
  proof (rule each_induct[OF assms, of "\<lambda>ps u. retags s u \<and> ?C ps u"])
    fix ys p u w assume I: "retags s u \<and> ?C ys u" and f: "retag_pair k p u = Some w"
    obtain n v where p: "p = (n, v)" by (cases p)
    have uw: "retags u w" by (rule retag_pair_retags[OF f])
    have su: "retagged_to (snd s) (snd u)" by (rule retags_to[OF conjunct1[OF I]])
    have "\<not> number (snd w x)" if "nd_value (snd s n) = ''short-id''" "listed (snd s) v x" for x
    proof -
      have "retag_number k v u = Some w" using f p that(1) retagged_fields(2)[OF su] by (simp add: retag_pair_def)
      then show ?thesis using retag_number_clears listed_kept[OF that(2) su] by blast
    qed
    moreover have "?C ys w" using conjunct2[OF I] retags_gone[OF uw] by fast
    ultimately show "retags s w \<and> ?C (ys @ [p]) w" using retags_trans[OF conjunct1[OF I] uw] p by auto
  qed simp
  then show ?thesis by blast
qed

lemma retag_walk_clears:
  "retag_walk k a s = Some s' \<Longrightarrow> below (snd s) a m \<Longrightarrow> short_id_value (snd s) m x \<Longrightarrow> \<not> number (snd s' x)"
proof (induction k arbitrary: a s s' m x)
  case (Suc k)
  obtain s1 where s1: "(if nd_kind (snd s a) = MappingNode then each (retag_pair k) (pairs (nd_content (snd s a))) s
      else Some s) = Some s1" "each (retag_walk k) (nd_content (snd s a)) s1 = Some s'"
    using Suc.prems(1) by (auto split: option.splits simp del: each.simps)
  have r1: "retags s s1" using s1(1) by (auto split: if_splits intro: each_retags retag_pair_retags)
  have all: "retags s1 s' \<and> (\<forall>c\<in>set (nd_content (snd s a)). \<forall>m x. below (snd s) c m \<longrightarrow> short_id_value (snd s) m x \<longrightarrow>
      \<not> number (snd s' x))"
  proof (rule each_induct[OF s1(2), of "\<lambda>cs u. retags s1 u \<and> (\<forall>c\<in>set cs. \<forall>m x. below (snd s) c m \<longrightarrow>
      short_id_value (snd s) m x \<longrightarrow> \<not> number (snd u x))"])
    fix ys c u w
    assume I: "retags s1 u \<and> (\<forall>c\<in>set ys. \<forall>m x. below (snd s) c m \<longrightarrow> short_id_value (snd s) m x \<longrightarrow> \<not> number (snd u x))"
      and f: "retag_walk k c u = Some w"
    have uw: "retags u w" by (rule retag_walk_retags[OF f])
    have su: "retagged_to (snd s) (snd u)" by (rule retags_to[OF retags_trans[OF r1 conjunct1[OF I]]])
    have "\<not> number (snd w x)" if "below (snd s) c m" "short_id_value (snd s) m x" for m x
      using Suc.IH[OF f below_kept[OF that(1) su] short_id_kept[OF that(2) su]] .
    moreover have "\<forall>c\<in>set ys. \<forall>m x. below (snd s) c m \<longrightarrow> short_id_value (snd s) m x \<longrightarrow> \<not> number (snd w x)"
      using conjunct2[OF I] retags_gone[OF uw] by blast
    ultimately show "retags s1 w \<and> (\<forall>c\<in>set (ys @ [c]). \<forall>m x. below (snd s) c m \<longrightarrow>
      short_id_value (snd s) m x \<longrightarrow> \<not> number (snd w x))" using retags_trans[OF conjunct1[OF I] uw] by auto
  qed (simp only: list.set ball_simps retags_refl simp_thms)
  from below_front[OF Suc.prems(2)] show ?case
  proof
    assume m: "m = a"
    then have k: "nd_kind (snd s a) = MappingNode" using Suc.prems(3) by (simp add: short_id_value_def)
    then have "each (retag_pair k) (pairs (nd_content (snd s a))) s = Some s1" using s1(1) by simp
    then have "\<not> number (snd s1 x)"
      using retag_pairs_clear Suc.prems(3) m by (fastforce simp: short_id_value_def)
    then show ?thesis by (rule retags_gone[OF conjunct1[OF all]])
  next
    assume "\<exists>c\<in>set (nd_content (snd s a)). below (snd s) c m"
    then show ?thesis using all Suc.prems(3) by blast
  qed
qed simp


subsection \<open>Retagging returns\<close>

text \<open>A node whose contents come to an end; aliases are not followed.\<close>

inductive grounded :: "nodes \<Rightarrow> node_ref \<Rightarrow> bool" for h where
  grounded: "(\<And>c. c \<in> set (nd_content (h a)) \<Longrightarrow> grounded h c) \<Longrightarrow> grounded h a"

definition bare_aliases :: "nodes \<Rightarrow> bool" where
  "bare_aliases h \<longleftrightarrow> (\<forall>a. if nd_kind (h a) = AliasNode then nd_content (h a) = [] else nd_alias (h a) = None)"

lemma denotes_grounded: "denotes h a t \<Longrightarrow> bare_aliases h \<Longrightarrow> grounded h a"
proof (induction rule: denotes.induct)
  case (through_alias a b t)
  then have "nd_content (h a) = []" unfolding bare_aliases_def by metis
  then show ?case using grounded.grounded[of h a] by simp
next
  case (in_place a ts)
  show ?case
  proof (rule grounded.grounded)
    fix c assume "c \<in> set (nd_content (h a))"
    then obtain i where "i < length (nd_content (h a))" "c = nd_content (h a) ! i" by (metis in_set_conv_nth)
    then show "grounded h c" using list_all2_nthD[OF in_place.IH] in_place.prems by blast
  qed
qed

lemma enough_for_list:
  assumes "\<And>x. x \<in> set xs \<Longrightarrow> \<exists>K. \<forall>k\<ge>K. P x k"
  shows "\<exists>K::nat. \<forall>k\<ge>K. \<forall>x\<in>set xs. P x k"
proof -
  obtain K where "\<forall>k\<ge>K. \<forall>i<length xs. P (xs ! i) k"
    using enough_for_all[of "length xs" "\<lambda>i. P (xs ! i)"] assms by auto
  then show ?thesis by (metis in_set_conv_nth)
qed

lemma pairs_set: "(n, v) \<in> set (pairs xs) \<Longrightarrow> n \<in> set xs \<and> v \<in> set xs"
  by (induction xs rule: pairs.induct) auto

lemma retag_number_returns:
  "grounded h a \<Longrightarrow> \<exists>K. \<forall>k\<ge>K. \<forall>s. retagged_to h (snd s) \<longrightarrow> (\<exists>s'. retag_number k a s = Some s')"
proof (induction rule: grounded.induct)
  case (grounded a)
  obtain K where K: "\<And>k c s. K \<le> k \<Longrightarrow> c \<in> set (nd_content (h a)) \<Longrightarrow> retagged_to h (snd s) \<Longrightarrow>
      \<exists>s'. retag_number k c s = Some s'"
    using enough_for_list[where P = "\<lambda>c k. \<forall>s. retagged_to h (snd s) \<longrightarrow> (\<exists>s'. retag_number k c s = Some s')", OF grounded.IH] by blast
  have "\<exists>s'. retag_number (Suc k) a s = Some s'" if k: "K \<le> k" "retagged_to h (snd s)" for k s
  proof -
    obtain r g where s: "s = (r, g)" by (cases s)
    have "\<exists>s'. each (retag_number k) (nd_content (h a)) s = Some s' \<and> retagged_to h (snd s')"
    proof (rule each_returns)
      fix c and u :: "bool \<times> nodes" assume c: "c \<in> set (nd_content (h a))" and u: "retagged_to h (snd u)"
      obtain v where v: "retag_number k c u = Some v" using K[OF k(1) c u] by blast
      then show "\<exists>v. retag_number k c u = Some v \<and> retagged_to h (snd v)"
        using retagged_trans[OF u] retags_to retag_number_retags by blast
    qed (rule k(2))
    then show ?thesis using s retagged_fields(3)[OF k(2)] by auto
  qed
  then show ?case by (intro exI[of _ "Suc K"]) (metis Suc_le_D Suc_le_mono)
qed

lemma grounded_child: "grounded h a \<Longrightarrow> c \<in> set (nd_content (h a)) \<Longrightarrow> grounded h c"
  by (erule grounded.cases) auto

lemma retag_walk_returns:
  "grounded h a \<Longrightarrow> \<exists>K. \<forall>k\<ge>K. \<forall>s. retagged_to h (snd s) \<longrightarrow> (\<exists>s'. retag_walk k a s = Some s')"
proof (induction rule: grounded.induct)
  case (grounded a)
  let ?c = "nd_content (h a)"
  obtain K1 where K1: "\<And>k c s. K1 \<le> k \<Longrightarrow> c \<in> set ?c \<Longrightarrow> retagged_to h (snd s) \<Longrightarrow> \<exists>s'. retag_walk k c s = Some s'"
    using enough_for_list[where P = "\<lambda>c k. \<forall>s. retagged_to h (snd s) \<longrightarrow> (\<exists>s'. retag_walk k c s = Some s')", OF grounded.IH] by blast
  obtain K2 where K2: "\<And>k c s. K2 \<le> k \<Longrightarrow> c \<in> set ?c \<Longrightarrow> retagged_to h (snd s) \<Longrightarrow> \<exists>s'. retag_number k c s = Some s'"
    using enough_for_list[where P = "\<lambda>c k. \<forall>s. retagged_to h (snd s) \<longrightarrow> (\<exists>s'. retag_number k c s = Some s')", OF retag_number_returns[OF grounded.hyps]] by blast
  have "\<exists>s'. retag_walk (Suc k) a s = Some s'" if k: "max K1 K2 \<le> k" "retagged_to h (snd s)" for k s
  proof -
    have same: "nd_content (snd s a) = ?c" using retagged_fields(3)[OF k(2)] .
    have "\<exists>s1. each (retag_pair k) (pairs ?c) s = Some s1 \<and> retagged_to h (snd s1)"
    proof (rule each_returns)
      fix p and u :: "bool \<times> nodes" assume p: "p \<in> set (pairs ?c)" and u: "retagged_to h (snd u)"
      have "\<exists>v. retag_number k (snd p) u = Some v"
        using K2[OF _ _ u, of k "snd p"] pairs_set[of "fst p" "snd p" ?c] p k(1) by simp
      then obtain v where "retag_pair k p u = Some v"
        by (cases "nd_value (snd u (fst p)) = ''short-id''") (auto simp: retag_pair_def)
      then show "\<exists>v. retag_pair k p u = Some v \<and> retagged_to h (snd v)"
        using retagged_trans[OF u] retags_to retag_pair_retags by blast
    qed (rule k(2))
    then obtain s1 where s1: "(if nd_kind (snd s a) = MappingNode then each (retag_pair k) (pairs ?c) s else Some s) = Some s1"
      "retagged_to h (snd s1)" using k(2) by (cases "nd_kind (snd s a) = MappingNode") auto
    have "\<exists>s'. each (retag_walk k) ?c s1 = Some s' \<and> retagged_to h (snd s')"
    proof (rule each_returns)
      fix c and u :: "bool \<times> nodes" assume c: "c \<in> set ?c" and u: "retagged_to h (snd u)"
      obtain v where v: "retag_walk k c u = Some v" using K1[OF _ c u] k(1) by force
      then show "\<exists>v. retag_walk k c u = Some v \<and> retagged_to h (snd v)"
        using retagged_trans[OF u] retags_to retag_walk_retags by blast
    qed (rule s1(2))
    then show ?thesis using s1(1) same by auto
  qed
  then show ?case by (intro exI[of _ "Suc (max K1 K2)"]) (metis Suc_le_D Suc_le_mono)
qed

lemma retag_short_ids_returns:
  "grounded h a \<Longrightarrow> \<exists>K. \<forall>k\<ge>K. \<exists>r h'. retag_short_ids k a h = Some (r, h')"
  using retag_walk_returns[of h a] unfolding retag_short_ids_def
  by (metis (no_types, lifting) prod.collapse retagged_refl snd_conv)

text \<open>Retagging changes the tree of a node and not that it has one.\<close>

lemma children_stand: "(\<And>c. c \<in> set cs \<Longrightarrow> \<exists>t. denotes h c t) \<Longrightarrow> \<exists>ts. list_all2 (denotes h) cs ts"
proof (induction cs)
  case (Cons c cs)
  then obtain t ts where "denotes h c t" "list_all2 (denotes h) cs ts" by fastforce
  then show ?case by (intro exI[of _ "t # ts"]) simp
qed (auto intro: exI[of _ "[]"])

lemma retagged_stands: "denotes h a t \<Longrightarrow> retagged_to h h' \<Longrightarrow> \<exists>t'. denotes h' a t'"
proof (induction rule: denotes.induct)
  case (through_alias a b t)
  then show ?case using retagged_fields[OF through_alias.prems, of a] by (metis denotes.through_alias)
next
  case (in_place a ts)
  have "\<exists>t'. denotes h' c t'" if "c \<in> set (nd_content (h a))" for c
  proof -
    obtain i where "i < length (nd_content (h a))" "c = nd_content (h a) ! i" using \<open>c \<in> _\<close> by (metis in_set_conv_nth)
    then show ?thesis using list_all2_nthD[OF in_place.IH] in_place.prems by blast
  qed
  then obtain ts' where "list_all2 (denotes h') (nd_content (h' a)) ts'"
    using children_stand[of "nd_content (h a)" h'] retagged_fields[OF in_place.prems, of a] by auto
  then show ?case using denotes.in_place[of h' a ts'] in_place.hyps(1) retagged_fields[OF in_place.prems, of a] by auto
qed

end
