(* ===== verification/Profile_Base.thy ===== *)
theory Profile_Base
  imports Short_Ids Core_Config
begin

text \<open>
  \<open>core/profile_base.go\<close>: the large sections of a profile stay in the Core. The host reads the rest,
  sends back an overlay, and the Core merges the two into the configuration it runs with and writes.

  The YAML library, the decryption, the digest and the answers of the file system are arguments. The
  lemmas show what a merged document holds under every key, that aliases are written out without
  changing the document, and that the file written is replaced whole or left as it was.
\<close>

subsection \<open>What the host reads of a profile\<close>

text \<open>
  \<open>config.RawConfig\<close>, as far as the Core looks at it: None is Go's \<open>nil\<close>; an entry of a mapping is a text
  or something else.
\<close>

type_synonym entries = "string \<rightharpoonup> string option"

record 'x raw_config =
  rc_proxy :: "entries list option"
  rc_proxy_group :: "entries list option"
  rc_rule :: "string list option"
  rc_sub_rules :: "(string \<times> string list) list option"
  rc_rest :: 'x

definition items :: "'a list option \<Rightarrow> 'a list" where
  "items xs = (case xs of None \<Rightarrow> [] | Some ys \<Rightarrow> ys)"

record 'x profile_base =
  pb_config :: "'x raw_config"
  pb_digest :: string
  pb_match_rules :: "string list"
  pb_proxies :: nat
  pb_proxy_groups :: nat
  pb_rules :: nat

text \<open>\<open>strings.EqualFold\<close> with a text that no letter outside ASCII folds to.\<close>

definition is_match_rule :: "string \<Rightarrow> bool" where
  "is_match_rule rule = (case cut CHR '','' rule of (kind, _, _) \<Rightarrow> map upper_byte (trim_space kind) = ''MATCH'')"

text \<open>
  What the handlers act on: the heap of the YAML library, the files, and how often the release of load
  memory and the reclaiming of files were scheduled.
\<close>

record profile_state =
  pf_heap :: heap
  pf_files :: "string \<rightharpoonup> string"
  pf_releases :: nat
  pf_reclaims :: nat

definition release_later :: "profile_state \<Rightarrow> profile_state" where
  "release_later s = s\<lparr>pf_releases := Suc (pf_releases s)\<rparr>"

definition reclaim_later :: "profile_state \<Rightarrow> profile_state" where
  "reclaim_later s = s\<lparr>pf_reclaims := Suc (pf_reclaims s)\<rparr>"

definition read_file :: "profile_state \<Rightarrow> string \<Rightarrow> string + string" where
  "read_file s path = (case pf_files s path of None \<Rightarrow> Inl (''open '' @ path @ '': no such file or directory'') | Some b \<Rightarrow> Inr b)"

definition base_of :: "string \<Rightarrow> 'x raw_config \<Rightarrow> 'x profile_base" where
  "base_of digest raw =
     \<lparr>pb_config = raw\<lparr>rc_proxy := None, rc_proxy_group := None, rc_rule := None, rc_sub_rules := None\<rparr>,
       pb_digest = digest, pb_match_rules = filter is_match_rule (items (rc_rule raw)),
       pb_proxies = length (items (rc_proxy raw)), pb_proxy_groups = length (items (rc_proxy_group raw)),
       pb_rules = length (items (rc_rule raw))\<rparr>"

definition handle_get_profile_base ::
  "nat \<Rightarrow> 'x raw_config yaml_library \<Rightarrow> (string \<Rightarrow> string) \<Rightarrow> string \<Rightarrow> profile_state
   \<Rightarrow> ((string + 'x profile_base) \<times> profile_state) option" where
  "handle_get_profile_base k lib digest path s =
     (case read_file s path of
        Inl e \<Rightarrow> Some (Inl e, release_later s)
      | Inr buf \<Rightarrow>
          (case unmarshal_raw_config k lib buf (pf_heap s) of
             None \<Rightarrow> None
           | Some (Inl e) \<Rightarrow> Some (Inl e, release_later s)
           | Some (Inr raw) \<Rightarrow> Some (Inr (base_of (digest buf) raw), release_later s)))"

text \<open>A missing entry and one that is no text both read as the empty text.\<close>

definition text_entry :: "entries \<Rightarrow> string \<Rightarrow> string" where
  "text_entry m key = (case m key of Some (Some v) \<Rightarrow> v | _ \<Rightarrow> [])"

definition outbounds_of :: "entries list \<Rightarrow> (string \<times> string) list" where
  "outbounds_of = map (\<lambda>m. (text_entry m ''name'', text_entry m ''type''))"

definition handle_get_profile_outbounds ::
  "nat \<Rightarrow> 'x raw_config yaml_library \<Rightarrow> string \<Rightarrow> profile_state
   \<Rightarrow> ((string + (string \<times> string) list \<times> (string \<times> string) list) \<times> profile_state) option" where
  "handle_get_profile_outbounds k lib path s =
     (case read_file s path of
        Inl e \<Rightarrow> Some (Inl e, release_later s)
      | Inr buf \<Rightarrow>
          (case unmarshal_raw_config k lib buf (pf_heap s) of
             None \<Rightarrow> None
           | Some (Inl e) \<Rightarrow> Some (Inl e, release_later s)
           | Some (Inr raw) \<Rightarrow>
               Some (Inr (outbounds_of (items (rc_proxy raw)), outbounds_of (items (rc_proxy_group raw))), release_later s)))"

subsection \<open>The merge\<close>

text \<open>\<open>None\<close> is a recursion that may not return, \<open>Inl\<close> an error.\<close>

definition then_do :: "(string + 'a) option \<Rightarrow> ('a \<Rightarrow> (string + 'b) option) \<Rightarrow> (string + 'b) option" where
  "then_do r f = (case r of None \<Rightarrow> None | Some (Inl e) \<Rightarrow> Some (Inl e) | Some (Inr x) \<Rightarrow> f x)"

definition is_null :: "'r yaml_library \<Rightarrow> node \<Rightarrow> bool" where
  "is_null lib n \<longleftrightarrow> nd_kind n = ScalarNode \<and> yl_short_tag lib n = ''!!null''"

definition plain_node :: "node_kind \<Rightarrow> string \<Rightarrow> string \<Rightarrow> node_ref list \<Rightarrow> node" where
  "plain_node kind tag v content = zero_node\<lparr>nd_kind := kind, nd_tag := tag, nd_value := v, nd_content := content\<rparr>"

definition document_mapping ::
  "nat \<Rightarrow> 'r yaml_library \<Rightarrow> node_ref \<Rightarrow> heap \<Rightarrow> (string + node_ref \<times> heap) option" where
  "document_mapping k lib document hp =
     (let h = hp_node hp
      in case (if nd_kind (h document) = DocumentNode \<and> nd_content (h document) \<noteq> []
               then resolve_alias k h (hd (nd_content (h document))) else Some document) of
           None \<Rightarrow> None
         | Some node \<Rightarrow>
             Some (if nd_kind (h node) = MappingNode then Inr (node, hp)
                   else if nd_kind (h node) \<in> {ZeroKind, DocumentNode} \<or> is_null lib (h node)
                   then Inr (new_node (plain_node MappingNode ''!!map'' [] []) hp)
                   else Inl (''line '' @ show_nat (nd_line (h node)) @ '': a config must be a mapping'')))"

text \<open>The first of several places that has something.\<close>

fun first_found :: "('a \<Rightarrow> 'b option option) \<Rightarrow> 'a list \<Rightarrow> 'b option option" where
  "first_found f [] = Some None"
| "first_found f (x # xs) =
     (case f x of None \<Rightarrow> None | Some (Some v) \<Rightarrow> Some (Some v) | Some None \<Rightarrow> first_found f xs)"

definition scalar_pairs :: "nodes \<Rightarrow> node_ref \<Rightarrow> (node_ref \<times> node_ref) list" where
  "scalar_pairs h m = filter (\<lambda>(n, v). nd_kind (h n) = ScalarNode) (pairs (nd_content (h m)))"

definition is_merge :: "'r yaml_library \<Rightarrow> nodes \<Rightarrow> node_ref \<times> node_ref \<Rightarrow> bool" where
  "is_merge lib h p \<longleftrightarrow> yl_short_tag lib (h (fst p)) = ''!!merge''"

fun mapping_value :: "'r yaml_library \<Rightarrow> nat \<Rightarrow> nodes \<Rightarrow> string \<Rightarrow> node_ref \<Rightarrow> node_ref option option" where
  "mapping_value lib 0 h key m = None"
| "mapping_value lib (Suc k) h key m =
     (case find (\<lambda>p. \<not> is_merge lib h p \<and> nd_value (h (fst p)) = key) (scalar_pairs h m) of
        Some p \<Rightarrow> Some (Some (snd p))
      | None \<Rightarrow>
          first_found (\<lambda>source.
            (case resolve_alias k h source of
               None \<Rightarrow> None
             | Some src \<Rightarrow>
                 first_found (\<lambda>candidate.
                   (case resolve_alias k h candidate of
                      None \<Rightarrow> None
                    | Some c \<Rightarrow> if nd_kind (h c) = MappingNode then mapping_value lib k h key c else Some None))
                   (if nd_kind (h src) = SequenceNode then nd_content (h src) else [src])))
            (map snd (filter (is_merge lib h) (scalar_pairs h m))))"

fun put_value :: "nodes \<Rightarrow> string \<Rightarrow> node_ref \<Rightarrow> node_ref list \<Rightarrow> node_ref list option" where
  "put_value h key v (a # b # xs) =
     (if nd_kind (h a) = ScalarNode \<and> nd_value (h a) = key then Some (a # v # xs)
      else map_option (\<lambda>ys. a # b # ys) (put_value h key v xs))"
| "put_value h key v _ = None"

definition set_content :: "node_ref \<Rightarrow> node_ref list \<Rightarrow> heap \<Rightarrow> heap" where
  "set_content m xs hp = hp\<lparr>hp_node := (hp_node hp)(m := (hp_node hp m)\<lparr>nd_content := xs\<rparr>)\<rparr>"

definition set_mapping_value :: "node_ref \<Rightarrow> string \<Rightarrow> node_ref \<Rightarrow> heap \<Rightarrow> heap" where
  "set_mapping_value m key v hp =
     (case put_value (hp_node hp) key v (nd_content (hp_node hp m)) of
        Some xs \<Rightarrow> set_content m xs hp
      | None \<Rightarrow>
          (case new_node (plain_node ScalarNode ''!!str'' key []) hp of
             (n, hp1) \<Rightarrow> set_content m (nd_content (hp_node hp1 m) @ [n, v]) hp1))"

definition rules_list :: "nodes \<Rightarrow> node_ref \<Rightarrow> bool" where
  "rules_list h a \<longleftrightarrow> nd_kind (h a) = SequenceNode"

definition append_rules ::
  "nat \<Rightarrow> 'r yaml_library \<Rightarrow> node_ref option \<Rightarrow> node_ref option \<Rightarrow> heap \<Rightarrow> (string + node_ref option \<times> heap) option" where
  "append_rules k lib added profile hp =
     (let h = hp_node hp
      in case profile of
        None \<Rightarrow> Some (Inr (None, hp))
      | Some p \<Rightarrow>
          (case (case added of None \<Rightarrow> Some None | Some a \<Rightarrow> map_option Some (resolve_alias k h a), resolve_alias k h p) of
             (None, _) \<Rightarrow> None
           | (_, None) \<Rightarrow> None
           | (Some ao, Some pr) \<Rightarrow>
               (case ao of
                  None \<Rightarrow> Some (Inr (Some pr, hp))
                | Some ad \<Rightarrow>
                    if is_null lib (h ad) \<or> (rules_list h ad \<and> nd_content (h ad) = []) then Some (Inr (Some pr, hp))
                    else if is_null lib (h pr) then Some (Inr (Some ad, hp))
                    else if \<not> rules_list h ad \<or> \<not> rules_list h pr
                    then Some (Inl (''line '' @ show_nat (nd_line (h pr)) @ '': rules must be a list''))
                    else (case new_node (plain_node SequenceNode ''!!seq'' [] (nd_content (h ad) @ nd_content (h pr))) hp of
                            (n, hp1) \<Rightarrow> Some (Inr (Some n, hp1))))))"

definition profile_base_sections :: "string list" where
  "profile_base_sections = [''proxies'', ''proxy-groups'', ''sub-rules'']"

definition take_section :: "'r yaml_library \<Rightarrow> nat \<Rightarrow> node_ref \<Rightarrow> node_ref \<Rightarrow> string \<Rightarrow> heap \<Rightarrow> heap option" where
  "take_section lib k profile root key hp =
     (case mapping_value lib k (hp_node hp) key profile of
        None \<Rightarrow> None
      | Some None \<Rightarrow> Some hp
      | Some (Some v) \<Rightarrow> Some (set_mapping_value root key v hp))"

definition merge_rules :: "'r yaml_library \<Rightarrow> nat \<Rightarrow> node_ref \<Rightarrow> node_ref \<Rightarrow> heap \<Rightarrow> (string + heap) option" where
  "merge_rules lib k profile root hp =
     (case (mapping_value lib k (hp_node hp) ''rules'' root, mapping_value lib k (hp_node hp) ''rules'' profile) of
        (Some added, Some rules) \<Rightarrow>
          then_do (append_rules k lib added rules hp) (\<lambda>(r, hp1).
            Some (Inr (case r of None \<Rightarrow> hp1 | Some n \<Rightarrow> set_mapping_value root ''rules'' n hp1)))
      | _ \<Rightarrow> None)"

text \<open>The merge of two mappings, and the merge of the two documents a setup names.\<close>

definition merge_mappings ::
  "'r yaml_library \<Rightarrow> nat \<Rightarrow> bool \<Rightarrow> node_ref \<Rightarrow> node_ref \<Rightarrow> heap \<Rightarrow> (string + node_ref \<times> heap) option" where
  "merge_mappings lib k retag profile root hp =
     (case each (take_section lib k profile root) profile_base_sections hp of
        None \<Rightarrow> None
      | Some hp1 \<Rightarrow>
          then_do (merge_rules lib k profile root hp1) (\<lambda>hp2.
            (case (if retag then retag_short_ids k root (hp_node hp2) else Some (False, hp_node hp2)) of
               None \<Rightarrow> None
             | Some (_, h) \<Rightarrow> Some (Inr (new_node (plain_node DocumentNode [] [] [root]) (hp2\<lparr>hp_node := h\<rparr>))))))"

definition merge_profile_base ::
  "nat \<Rightarrow> 'r yaml_library \<Rightarrow> (string \<Rightarrow> string + string) \<Rightarrow> string \<times> string \<Rightarrow> profile_state
   \<Rightarrow> (string + node_ref \<times> heap) option" where
  "merge_profile_base k lib decrypt base s =
     (case read_file s (fst base) of
        Inl e \<Rightarrow> Some (Inl e)
      | Inr raw \<Rightarrow>
          (case decrypt raw of
             Inl e \<Rightarrow> Some (Inl (''decrypt config error: '' @ e))
           | Inr buf \<Rightarrow>
               (case yl_parse lib buf (pf_heap s) of
                  Inl e \<Rightarrow> Some (Inl e)
                | Inr (hp1, profile_document) \<Rightarrow>
                    (case yl_parse lib (snd base) hp1 of
                       Inl e \<Rightarrow> Some (Inl e)
                     | Inr (hp2, overlay_document) \<Rightarrow>
                         then_do (document_mapping k lib profile_document hp2) (\<lambda>(profile, hp3).
                         then_do (document_mapping k lib overlay_document hp3) (\<lambda>(root, hp4).
                           merge_mappings lib k (contains buf ''short-id'') profile root hp4))))))"


subsection \<open>Writing a document\<close>

definition nil_ref :: node_ref where
  "nil_ref = 0"

definition encode_slice_length :: nat where
  "encode_slice_length = 4096"

definition trim_suffix :: "string \<Rightarrow> string \<Rightarrow> string" where
  "trim_suffix sfx s = (if suffix sfx s then take (length s - length sfx) s else s)"

definition encode_yaml_piece :: "'r yaml_library \<Rightarrow> nodes \<Rightarrow> node_ref \<Rightarrow> string option \<Rightarrow> string + string" where
  "encode_yaml_piece lib h n sfx =
     (case yl_encode lib h n of
        Inl e \<Rightarrow> Inl e
      | Inr buffer \<Rightarrow>
          (let piece = trim_suffix ''...\<newline>'' buffer
           in Inr (case sfx of None \<Rightarrow> piece | Some x \<Rightarrow> trim_suffix ''\<newline>'' piece @ x)))"

text \<open>
  The writer holds what it was given; \<open>wr\<close> is its error once it holds a text. A piece is a node of its
  own that is encoded and written.
\<close>

type_synonym sink = "string \<Rightarrow> string option"

definition write_piece ::
  "'r yaml_library \<Rightarrow> sink \<Rightarrow> nodes \<Rightarrow> node_ref \<Rightarrow> string option \<Rightarrow> string \<Rightarrow> string + string" where
  "write_piece lib wr h n sfx out =
     (case encode_yaml_piece lib h n sfx of
        Inl e \<Rightarrow> Inl e
      | Inr piece \<Rightarrow> (case wr (out @ piece) of Some e \<Rightarrow> Inl e | None \<Rightarrow> Inr (out @ piece)))"

text \<open>A long list goes out in slices; each slice is cleared in the list once it is written.\<close>

definition clear_items :: "node_ref \<Rightarrow> nat \<Rightarrow> nat \<Rightarrow> heap \<Rightarrow> heap" where
  "clear_items v start n hp =
     set_content v (take start (nd_content (hp_node hp v)) @ replicate n nil_ref @
       drop (start + n) (nd_content (hp_node hp v))) hp"

definition write_slice ::
  "'r yaml_library \<Rightarrow> sink \<Rightarrow> node_ref \<Rightarrow> nat \<Rightarrow> string \<times> heap \<Rightarrow> string + string \<times> heap" where
  "write_slice lib wr v start s =
     (case s of (out, hp) \<Rightarrow>
        (let part = take encode_slice_length (drop start (nd_content (hp_node hp v)))
         in case new_node (plain_node SequenceNode ''!!seq'' [] part) hp of
              (part_node, hp1) \<Rightarrow>
                (case write_piece lib wr (hp_node hp1) part_node None out of
                   Inl e \<Rightarrow> Inl e
                 | Inr out1 \<Rightarrow> Inr (out1, clear_items v start (length part) hp1))))"

fun write_each :: "('a \<Rightarrow> 's \<Rightarrow> string + 's) \<Rightarrow> 'a list \<Rightarrow> 's \<Rightarrow> string + 's" where
  "write_each f [] s = Inr s"
| "write_each f (x # xs) s = (case f x s of Inl e \<Rightarrow> Inl e | Inr s1 \<Rightarrow> write_each f xs s1)"

definition slice_starts :: "nat \<Rightarrow> nat list" where
  "slice_starts n = map (\<lambda>j. j * encode_slice_length) [0..<(n + encode_slice_length - 1) div encode_slice_length]"

definition write_entry ::
  "'r yaml_library \<Rightarrow> sink \<Rightarrow> node_ref \<Rightarrow> nat \<Rightarrow> string \<times> heap \<Rightarrow> string + string \<times> heap" where
  "write_entry lib wr mapping i s =
     (case s of (out, hp) \<Rightarrow>
        (let key = nd_content (hp_node hp mapping) ! (2 * i);
             v = nd_content (hp_node hp mapping) ! (2 * i + 1);
             hp1 = set_content mapping ((nd_content (hp_node hp mapping))[2 * i + 1 := nil_ref]) hp
         in if nd_kind (hp_node hp1 v) \<noteq> SequenceNode \<or> length (nd_content (hp_node hp1 v)) \<le> encode_slice_length
            then (case new_node (plain_node MappingNode ''!!map'' [] [key, v]) hp1 of
                    (pair, hp2) \<Rightarrow>
                      (case write_piece lib wr (hp_node hp2) pair None out of
                         Inl e \<Rightarrow> Inl e
                       | Inr out1 \<Rightarrow> Inr (out1, hp2)))
            else (case write_piece lib wr (hp_node hp1) key (Some '':\<newline>'') out of
                    Inl e \<Rightarrow> Inl e
                  | Inr out1 \<Rightarrow>
                      write_each (write_slice lib wr v) (slice_starts (length (nd_content (hp_node hp1 v)))) (out1, hp1))))"

definition encode_config_mapping ::
  "'r yaml_library \<Rightarrow> sink \<Rightarrow> node_ref \<Rightarrow> string \<times> heap \<Rightarrow> string + string \<times> heap" where
  "encode_config_mapping lib wr mapping s =
     write_each (write_entry lib wr mapping) [0..<length (nd_content (hp_node (snd s) mapping)) div 2] s"

text \<open>
  The answers of the file system: the name \<open>CreateTemp\<close> chose, the error of the writer, of its flush, of
  closing, of \<open>Chmod\<close> and of \<open>Rename\<close>, whether a failed file could be removed and what it held.
\<close>

record document_answers =
  da_create :: "string + string"
  da_write :: sink
  da_flush :: "string option"
  da_close :: "string option"
  da_chmod :: "string option"
  da_rename :: "string option"
  da_removed :: bool
  da_partial :: string

definition failures :: "string option list \<Rightarrow> string list" where
  "failures = List.map_filter id"

definition remove_file :: "document_answers \<Rightarrow> string \<Rightarrow> profile_state \<Rightarrow> profile_state" where
  "remove_file a path s = (if da_removed a then s\<lparr>pf_files := (pf_files s)(path := None)\<rparr> else s)"

definition put_file :: "string \<Rightarrow> string \<Rightarrow> profile_state \<Rightarrow> profile_state" where
  "put_file path text s = s\<lparr>pf_files := (pf_files s)(path \<mapsto> text)\<rparr>"

definition write_document_file ::
  "nat \<Rightarrow> 'r yaml_library \<Rightarrow> document_answers \<Rightarrow> string \<Rightarrow> node_ref \<Rightarrow> profile_state
   \<Rightarrow> ((string + string) \<times> profile_state) option" where
  "write_document_file k lib a dir document s =
     (case inline_aliases k document (hp_node (pf_heap s)) of
        None \<Rightarrow> None
      | Some h \<Rightarrow>
          (let s1 = s\<lparr>pf_heap := (pf_heap s)\<lparr>hp_node := h\<rparr>\<rparr>
           in Some (case da_create a of
                Inl e \<Rightarrow> (Inl e, s1)
              | Inr name \<Rightarrow>
                  (let path = dir @ ''/'' @ name;
                       written = encode_config_mapping lib (da_write a) (hd (nd_content (h document))) ([], pf_heap s1);
                       errs = failures [case written of Inl e \<Rightarrow> Some e | Inr _ \<Rightarrow> None,
                                        da_flush a, da_close a, da_chmod a]
                   in case (written, errs) of
                        (Inr (out, hp), []) \<Rightarrow> (Inr path, put_file path out (s1\<lparr>pf_heap := hp\<rparr>))
                      | _ \<Rightarrow> (Inl (join ''\<newline>'' errs), remove_file a path (put_file path (da_partial a) s1))))))"

text \<open>\<open>filepath.Dir\<close> of a clean path.\<close>

definition dir_of :: "string \<Rightarrow> string" where
  "dir_of path = (case cut_last CHR ''/'' path of None \<Rightarrow> ''.'' | Some (dir, _) \<Rightarrow> if dir = [] then ''/'' else dir)"

definition write_config_document ::
  "nat \<Rightarrow> 'r yaml_library \<Rightarrow> document_answers \<Rightarrow> string \<Rightarrow> node_ref \<Rightarrow> profile_state
   \<Rightarrow> (string option \<times> profile_state) option" where
  "write_config_document k lib a path document s =
     (case write_document_file k lib a (dir_of path) document s of
        None \<Rightarrow> None
      | Some (Inl e, s1) \<Rightarrow> Some (Some e, s1)
      | Some (Inr temporary, s1) \<Rightarrow>
          Some (case da_rename a of
            Some e \<Rightarrow> (Some e, remove_file a temporary s1)
          | None \<Rightarrow>
              (None, reclaim_later (s1\<lparr>pf_files := ((pf_files s1)(path := pf_files s1 temporary))(temporary := None)\<rparr>))))"

definition load_config_with_base ::
  "nat \<Rightarrow> 'r yaml_library \<Rightarrow> (string \<Rightarrow> string + string) \<Rightarrow> ('r \<Rightarrow> string + 'x config) \<Rightarrow> bool \<Rightarrow> document_answers
   \<Rightarrow> string \<times> string \<Rightarrow> string \<Rightarrow> profile_state \<Rightarrow> ((string + 'x config) \<times> profile_state) option" where
  "load_config_with_base k lib decrypt parse_raw time_writable a base config_path s =
     (case merge_profile_base k lib decrypt base s of
        None \<Rightarrow> None
      | Some (Inl e) \<Rightarrow> Some (Inl e, s)
      | Some (Inr (document, hp)) \<Rightarrow>
          (let s1 = s\<lparr>pf_heap := hp\<rparr>
           in case yl_decode lib (hp_node hp) document of
                Inl e \<Rightarrow> Some (Inl e, s1)
              | Inr raw \<Rightarrow>
                  (case write_config_document k lib a config_path document s1 of
                     None \<Rightarrow> None
                   | Some (Some e, s2) \<Rightarrow> Some (Inl e, s2)
                   | Some (None, s2) \<Rightarrow>
                       Some (case parse_raw raw of
                               Inl e \<Rightarrow> Inl e
                             | Inr cfg \<Rightarrow> Inr (with_platform_limits time_writable cfg), s2))))"

text \<open>\<open>mkdir\<close> is the error of making the directory of long answers.\<close>

definition handle_build_profile ::
  "nat \<Rightarrow> 'r yaml_library \<Rightarrow> (string \<Rightarrow> string + string) \<Rightarrow> document_answers \<Rightarrow> string option \<Rightarrow> string \<Rightarrow> string \<times> string
   \<Rightarrow> profile_state \<Rightarrow> ((string + string) \<times> profile_state) option" where
  "handle_build_profile k lib decrypt a mkdir home base s =
     (case merge_profile_base k lib decrypt base s of
        None \<Rightarrow> None
      | Some (Inl e) \<Rightarrow> Some (Inl e, release_later s)
      | Some (Inr (document, hp)) \<Rightarrow>
          (let s1 = s\<lparr>pf_heap := hp\<rparr>
           in case mkdir of
                Some e \<Rightarrow> Some (Inl e, release_later s1)
              | None \<Rightarrow>
                  (case write_document_file k lib a (home @ ''/responses'') document s1 of
                     None \<Rightarrow> None
                   | Some (Inl e, s2) \<Rightarrow> Some (Inl e, release_later s2)
                   | Some (Inr path, s2) \<Rightarrow> Some (Inr path, release_later (reclaim_later s2)))))"


subsection \<open>Looking up and setting a key\<close>

text \<open>What a mapping has under a key of its own, its merge keys aside.\<close>

definition listed_value :: "nodes \<Rightarrow> string \<Rightarrow> node_ref list \<Rightarrow> node_ref option" where
  "listed_value h key xs =
     map_option snd (find (\<lambda>p. nd_kind (h (fst p)) = ScalarNode \<and> nd_value (h (fst p)) = key) (pairs xs))"

definition own_value :: "nodes \<Rightarrow> node_ref \<Rightarrow> string \<Rightarrow> node_ref option" where
  "own_value h m key = listed_value h key (nd_content (h m))"

lemma listed_value_Cons [simp]:
  "listed_value h key (a # b # xs) =
     (if nd_kind (h a) = ScalarNode \<and> nd_value (h a) = key then Some b else listed_value h key xs)"
  by (simp add: listed_value_def)

lemma listed_value_put:
  "put_value h key v xs = Some ys \<Longrightarrow>
   listed_value h key' ys = (if key' = key then Some v else listed_value h key' xs) \<and>
   length ys = length xs \<and> set ys \<subseteq> insert v (set xs)"
  by (induction h key v xs arbitrary: ys rule: put_value.induct) (auto split: if_splits)

lemma listed_value_unput: "put_value h key v xs = None \<Longrightarrow> listed_value h key xs = None"
  by (induction h key v xs rule: put_value.induct) (auto simp: listed_value_def split: if_splits)

lemma listed_value_snoc:
  "even (length xs) \<Longrightarrow> nd_kind (h n) = ScalarNode \<Longrightarrow>
   listed_value h key (xs @ [n, v]) =
     (case listed_value h key xs of Some w \<Rightarrow> Some w | None \<Rightarrow> if nd_value (h n) = key then Some v else None)"
  by (induction xs rule: pairs.induct) (auto simp: listed_value_def)

lemma listed_value_cong:
  "(\<And>a. a \<in> set xs \<Longrightarrow> nd_kind (h' a) = nd_kind (h a) \<and> nd_value (h' a) = nd_value (h a)) \<Longrightarrow>
   listed_value h' key xs = listed_value h key xs"
  by (induction xs rule: pairs.induct) (simp_all add: listed_value_def)

text \<open>A mapping whose parts are allocated and paired.\<close>

definition mapping_ok :: "heap \<Rightarrow> node_ref \<Rightarrow> bool" where
  "mapping_ok hp m \<longleftrightarrow> m < hp_next hp \<and> even (length (nd_content (hp_node hp m))) \<and>
     (\<forall>c\<in>set (nd_content (hp_node hp m)). c < hp_next hp)"

text \<open>A heap that has grown, and whose old nodes are as they were except for the contents of one.\<close>

definition grown :: "node_ref \<Rightarrow> heap \<Rightarrow> heap \<Rightarrow> bool" where
  "grown m hp hp' \<longleftrightarrow> hp_next hp \<le> hp_next hp' \<and>
     (\<forall>a<hp_next hp. (a \<noteq> m \<longrightarrow> hp_node hp' a = hp_node hp a) \<and>
        nd_kind (hp_node hp' a) = nd_kind (hp_node hp a) \<and> nd_alias (hp_node hp' a) = nd_alias (hp_node hp a))"

lemma grown_refl [simp]: "grown m hp hp"
  by (simp add: grown_def)

lemma grown_trans: "grown m hp hp1 \<Longrightarrow> grown m hp1 hp2 \<Longrightarrow> grown m hp hp2"
  by (auto simp: grown_def)

lemma grown_new [simp]: "grown m hp (snd (new_node n hp))"
  by (simp add: grown_def new_node_def)

lemma set_mapping_value_facts:
  fixes key :: string
  assumes "mapping_ok hp m" "v < hp_next hp"
  defines "hp' \<equiv> set_mapping_value m key v hp"
  shows "own_value (hp_node hp') m key' = (if key' = key then Some v else own_value (hp_node hp) m key')"
    and "mapping_ok hp' m" and "grown m hp hp'"
proof -
  let ?h = "hp_node hp" and ?xs = "nd_content (hp_node hp m)"
  have m: "m < hp_next hp" "even (length ?xs)" "\<And>c. c \<in> set ?xs \<Longrightarrow> c < hp_next hp"
    using assms(1) by (auto simp: mapping_ok_def)
  have "(own_value (hp_node hp') m key' = (if key' = key then Some v else own_value ?h m key')) \<and>
    mapping_ok hp' m \<and> grown m hp hp'"
  proof (cases "put_value ?h key v ?xs")
    case (Some ys)
    have hp': "hp' = set_content m ys hp" by (simp add: hp'_def set_mapping_value_def Some)
    have "listed_value (hp_node hp') key' ys = listed_value ?h key' ys"
      by (rule listed_value_cong) (simp add: hp' set_content_def)
    moreover have "nd_content (hp_node hp' m) = ys" "hp_next hp' = hp_next hp" by (simp_all add: hp' set_content_def)
    ultimately show ?thesis using listed_value_put[OF Some] m assms(2)
      by (auto simp: own_value_def mapping_ok_def grown_def hp' set_content_def)
  next
    case None
    let ?n = "hp_next hp"
    have hp': "hp' = set_content m (?xs @ [?n, v])
        (hp\<lparr>hp_node := ?h(?n := plain_node ScalarNode ''!!str'' key []), hp_next := Suc ?n\<rparr>)"
      using m(1) by (simp add: hp'_def set_mapping_value_def None new_node_def)
    have node: "nd_content (hp_node hp' m) = ?xs @ [?n, v]" "nd_kind (hp_node hp' ?n) = ScalarNode"
      "nd_value (hp_node hp' ?n) = key" "hp_next hp' = Suc ?n"
      using m(1) by (auto simp: hp' set_content_def plain_node_def zero_node_def)
    have "listed_value (hp_node hp') key' ?xs = listed_value ?h key' ?xs"
      by (rule listed_value_cong) (use m in \<open>auto simp: hp' set_content_def\<close>)
    then have "own_value (hp_node hp') m key' = (if key' = key then Some v else own_value ?h m key')"
      using listed_value_unput[OF None] node by (auto simp: own_value_def listed_value_snoc[OF m(2)] split: option.splits)
    then show ?thesis using m assms(2) node by (auto simp: mapping_ok_def grown_def hp' set_content_def less_Suc_eq)
  qed
  then show "own_value (hp_node hp') m key' = (if key' = key then Some v else own_value ?h m key')"
    "mapping_ok hp' m" "grown m hp hp'" by auto
qed

subsection \<open>A document is read alike while its own nodes stay\<close>

definition shut :: "nodes \<Rightarrow> node_ref set \<Rightarrow> bool" where
  "shut h R \<longleftrightarrow> (\<forall>a\<in>R. set (nd_content (h a)) \<subseteq> R \<and> (\<forall>b. nd_alias (h a) = Some b \<longrightarrow> b \<in> R))"

lemma resolve_shut:
  "resolve_alias k h a = Some b \<Longrightarrow> shut h R \<Longrightarrow> a \<in> R \<Longrightarrow> b \<in> R"
  by (induction k h a rule: resolve_alias.induct) (auto simp: shut_def split: if_splits option.splits)

lemma resolve_same:
  "shut h R \<Longrightarrow> \<forall>a\<in>R. h' a = h a \<Longrightarrow> a \<in> R \<Longrightarrow> resolve_alias k h' a = resolve_alias k h a"
  by (induction k h a rule: resolve_alias.induct) (auto simp: shut_def split: option.splits)

lemma first_found_cong:
  "(\<And>x. x \<in> set xs \<Longrightarrow> f x = g x) \<Longrightarrow> first_found f xs = first_found g xs"
  by (induction xs) (auto split: option.splits)

lemma first_found_in: "first_found f xs = Some (Some v) \<Longrightarrow> \<exists>x\<in>set xs. f x = Some (Some v)"
  by (induction xs) (auto split: option.splits)

lemma scalar_pairs_in: "p \<in> set (scalar_pairs h m) \<Longrightarrow> fst p \<in> set (nd_content (h m)) \<and> snd p \<in> set (nd_content (h m))"
  using pairs_set[of "fst p" "snd p"] by (auto simp: scalar_pairs_def)

lemma scalar_pairs_same:
  assumes "shut h R" "\<forall>a\<in>R. h' a = h a" "m \<in> R"
  shows "scalar_pairs h' m = scalar_pairs h m"
proof -
  have "h' (fst p) = h (fst p)" if "p \<in> set (pairs (nd_content (h m)))" for p
  proof -
    have "fst p \<in> set (nd_content (h m))" using that pairs_set[of "fst p" "snd p"] by simp
    then show ?thesis using assms by (auto simp: shut_def)
  qed
  then show ?thesis using assms by (auto simp: scalar_pairs_def intro!: filter_cong)
qed

lemma mapping_value_in:
  "mapping_value lib k h key m = Some (Some v) \<Longrightarrow> shut h R \<Longrightarrow> m \<in> R \<Longrightarrow> v \<in> R"
proof (induction k arbitrary: m v)
  case (Suc k)
  show ?case
  proof (cases "find (\<lambda>p. \<not> is_merge lib h p \<and> nd_value (h (fst p)) = key) (scalar_pairs h m)")
    case (Some p)
    then have "p \<in> set (scalar_pairs h m)" by (auto simp: find_Some_iff)
    then show ?thesis using Suc.prems Some scalar_pairs_in[of p h m] by (auto simp: shut_def)
  next
    case None
    let ?inner = "\<lambda>candidate. (case resolve_alias k h candidate of None \<Rightarrow> None
        | Some c \<Rightarrow> if nd_kind (h c) = MappingNode then mapping_value lib k h key c else Some None)"
    let ?outer = "\<lambda>source. (case resolve_alias k h source of None \<Rightarrow> None
        | Some src \<Rightarrow> first_found ?inner (if nd_kind (h src) = SequenceNode then nd_content (h src) else [src]))"
    have "first_found ?outer (map snd (filter (is_merge lib h) (scalar_pairs h m))) = Some (Some v)"
      using Suc.prems(1) None by simp
    from first_found_in[OF this] obtain source where
      so: "source \<in> set (map snd (filter (is_merge lib h) (scalar_pairs h m)))" "?outer source = Some (Some v)" by blast
    then obtain src where src: "resolve_alias k h source = Some src"
      and inner: "first_found ?inner (if nd_kind (h src) = SequenceNode then nd_content (h src) else [src]) = Some (Some v)"
      by (cases "resolve_alias k h source") simp_all
    have "source \<in> R" using so(1) scalar_pairs_in Suc.prems(2,3) by (fastforce simp: shut_def)
    then have srcR: "src \<in> R" by (rule resolve_shut[OF src Suc.prems(2)])
    obtain candidate c where c: "candidate \<in> set (if nd_kind (h src) = SequenceNode then nd_content (h src) else [src])"
      "resolve_alias k h candidate = Some c" "mapping_value lib k h key c = Some (Some v)"
      using first_found_in[OF inner] by (fastforce split: option.splits if_splits)
    have "candidate \<in> R" using c(1) srcR Suc.prems(2) by (auto simp: shut_def split: if_splits)
    then show ?thesis using Suc.IH[OF c(3) Suc.prems(2)] resolve_shut[OF c(2) Suc.prems(2)] by blast
  qed
qed simp

lemma mapping_value_same:
  assumes sh: "shut h R" and eq: "\<forall>a\<in>R. h' a = h a"
  shows "m \<in> R \<Longrightarrow> mapping_value lib k h' key m = mapping_value lib k h key m"
proof (induction k arbitrary: m)
  case (Suc k)
  have sp: "scalar_pairs h' m = scalar_pairs h m" by (rule scalar_pairs_same[OF sh eq Suc.prems])
  have inR: "fst p \<in> R \<and> snd p \<in> R" if "p \<in> set (scalar_pairs h m)" for p
    using scalar_pairs_in[OF that] sh Suc.prems by (auto simp: shut_def)
  have f: "find (\<lambda>p. \<not> is_merge lib h' p \<and> nd_value (h' (fst p)) = key) (scalar_pairs h m)
      = find (\<lambda>p. \<not> is_merge lib h p \<and> nd_value (h (fst p)) = key) (scalar_pairs h m)"
    by (rule find_cong) (use inR eq in \<open>auto simp: is_merge_def\<close>)
  have g: "filter (is_merge lib h') (scalar_pairs h m) = filter (is_merge lib h) (scalar_pairs h m)"
    by (rule filter_cong) (use inR eq in \<open>auto simp: is_merge_def\<close>)
  let ?inner = "\<lambda>h'. \<lambda>candidate. (case resolve_alias k h' candidate of None \<Rightarrow> None
     | Some c \<Rightarrow> if nd_kind (h' c) = MappingNode then mapping_value lib k h' key c else Some None)"
  have inner: "first_found (?inner h') xs = first_found (?inner h) xs" if "set xs \<subseteq> R" for xs
  proof (rule first_found_cong)
    fix x assume "x \<in> set xs"
    then have x: "x \<in> R" using that by auto
    have "?inner h' x = ?inner h x" if r: "resolve_alias k h x = Some c" for c
    proof -
      have "c \<in> R" by (rule resolve_shut[OF r sh x])
      then show ?thesis using Suc.IH eq resolve_same[OF sh eq x, of k] r by simp
    qed
    then show "?inner h' x = ?inner h x"
      using resolve_same[OF sh eq x, of k] by (cases "resolve_alias k h x") simp_all
  qed
  let ?outer = "\<lambda>h'. \<lambda>source. (case resolve_alias k h' source of None \<Rightarrow> None
     | Some src \<Rightarrow> first_found (?inner h') (if nd_kind (h' src) = SequenceNode then nd_content (h' src) else [src]))"
  have outer: "first_found (?outer h') (map snd (filter (is_merge lib h) (scalar_pairs h m)))
    = first_found (?outer h) (map snd (filter (is_merge lib h) (scalar_pairs h m)))"
  proof (rule first_found_cong)
    fix x assume "x \<in> set (map snd (filter (is_merge lib h) (scalar_pairs h m)))"
    then have x: "x \<in> R" using inR by auto
    have "?outer h' x = ?outer h x" if r: "resolve_alias k h x = Some c" for c
    proof -
      have c: "c \<in> R" by (rule resolve_shut[OF r sh x])
      then have "set (if nd_kind (h c) = SequenceNode then nd_content (h c) else [c]) \<subseteq> R"
        using sh by (auto simp: shut_def)
      note i = inner[OF this]
      have ec: "h' c = h c" using eq c by blast
      have rr: "resolve_alias k h' x = Some c" using resolve_same[OF sh eq x, of k] r by simp
      show ?thesis by (simp only: rr r option.case ec i)
    qed
    then show "?outer h' x = ?outer h x"
      using resolve_same[OF sh eq x, of k] by (cases "resolve_alias k h x") simp_all
  qed
  show ?case by (simp only: mapping_value.simps sp f g outer)
qed simp


subsection \<open>What a merged document holds\<close>

text \<open>Two mappings that can be merged: the nodes of the profile are closed and apart from the overlay's root.\<close>

definition mergeable :: "node_ref set \<Rightarrow> node_ref \<Rightarrow> node_ref \<Rightarrow> heap \<Rightarrow> bool" where
  "mergeable R profile root hp \<longleftrightarrow> shut (hp_node hp) R \<and> profile \<in> R \<and> root \<notin> R \<and> R \<subseteq> {..<hp_next hp} \<and>
     mapping_ok hp root \<and> shut (hp_node hp) {..<hp_next hp}"

definition section_value :: "'r yaml_library \<Rightarrow> nat \<Rightarrow> nodes \<Rightarrow> node_ref \<Rightarrow> node_ref \<Rightarrow> string \<Rightarrow> node_ref option" where
  "section_value lib k h profile root key =
     (case mapping_value lib k h key profile of Some (Some v) \<Rightarrow> Some v | _ \<Rightarrow> own_value h root key)"

lemma grown_same: "mergeable R profile root hp \<Longrightarrow> grown root hp hp1 \<Longrightarrow> \<forall>a\<in>R. hp_node hp1 a = hp_node hp a"
  by (fastforce simp: mergeable_def grown_def)

lemma grown_lookup:
  assumes "mergeable R profile root hp" "grown root hp hp1"
  shows "mapping_value lib k (hp_node hp1) key profile = mapping_value lib k (hp_node hp) key profile"
  using mapping_value_same[OF _ grown_same[OF assms]] assms(1) by (auto simp: mergeable_def)

lemma mergeable_value:
  "mergeable R profile root hp \<Longrightarrow> mapping_value lib k (hp_node hp) key profile = Some (Some v) \<Longrightarrow> v \<in> R \<and> v < hp_next hp"
  using mapping_value_in[of lib k "hp_node hp" key profile v R] by (auto simp: mergeable_def)

lemma take_sections:
  assumes "each (take_section lib k profile root) ks hp = Some hp1" "mergeable R profile root hp"
  shows "grown root hp hp1 \<and> mapping_ok hp1 root \<and>
    (\<forall>key. own_value (hp_node hp1) root key =
       (if key \<in> set ks then section_value lib k (hp_node hp) profile root key else own_value (hp_node hp) root key))"
proof (rule each_induct[OF assms(1), of "\<lambda>ks u. grown root hp u \<and> mapping_ok u root \<and>
    (\<forall>key. own_value (hp_node u) root key =
       (if key \<in> set ks then section_value lib k (hp_node hp) profile root key else own_value (hp_node hp) root key))"])
  show "grown root hp hp \<and> mapping_ok hp root \<and> (\<forall>key. own_value (hp_node hp) root key =
      (if key \<in> set [] then section_value lib k (hp_node hp) profile root key else own_value (hp_node hp) root key))"
    using assms(2) by (simp add: mergeable_def)
next
  fix ys name u w
  assume I: "grown root hp u \<and> mapping_ok u root \<and> (\<forall>key. own_value (hp_node u) root key =
      (if key \<in> set ys then section_value lib k (hp_node hp) profile root key else own_value (hp_node hp) root key))"
    and t: "take_section lib k profile root name u = Some w"
  have same: "mapping_value lib k (hp_node u) name profile = mapping_value lib k (hp_node hp) name profile"
    using grown_lookup[OF assms(2)] I by blast
  show "grown root hp w \<and> mapping_ok w root \<and> (\<forall>key. own_value (hp_node w) root key =
      (if key \<in> set (ys @ [name]) then section_value lib k (hp_node hp) profile root key else own_value (hp_node hp) root key))"
  proof (cases "mapping_value lib k (hp_node hp) name profile")
    case None
    then show ?thesis using t same by (simp add: take_section_def)
  next
    case (Some vo)
    show ?thesis
    proof (cases vo)
      case None
      have "section_value lib k (hp_node hp) profile root name = own_value (hp_node hp) root name"
        by (simp add: section_value_def Some None)
      moreover have "w = u" using t same Some None by (simp add: take_section_def)
      ultimately show ?thesis using I by auto
    next
      case (Some v)
      have v: "v < hp_next u"
      proof -
        have "v < hp_next hp"
          using mergeable_value[OF assms(2)] \<open>mapping_value lib k (hp_node hp) name profile = Some vo\<close> Some by blast
        moreover have "hp_next hp \<le> hp_next u" using I unfolding grown_def by blast
        ultimately show ?thesis by (rule order_less_le_trans)
      qed
      have w: "w = set_mapping_value root name v u"
        using t same \<open>mapping_value lib k (hp_node hp) name profile = Some vo\<close> Some by (simp add: take_section_def)
      have sv: "section_value lib k (hp_node hp) profile root name = Some v"
        by (simp add: section_value_def \<open>mapping_value lib k (hp_node hp) name profile = Some vo\<close> Some)
      note f = set_mapping_value_facts[OF _ v, of root]
      have ok: "mapping_ok u root" using I by blast
      have "own_value (hp_node w) root key = (if key = name then Some v else own_value (hp_node u) root key)" for key
        unfolding w by (rule f(1)[OF ok])
      moreover have "grown root hp w" unfolding w using f(3)[OF ok] I grown_trans by blast
      moreover have "mapping_ok w root" unfolding w by (rule f(2)[OF ok])
      ultimately show ?thesis using I sv by auto
    qed
  qed
qed

text \<open>The rules under a value: the items of the list it leads to.\<close>

definition rules_under :: "nat \<Rightarrow> nodes \<Rightarrow> node_ref option \<Rightarrow> node_ref list" where
  "rules_under k h vo =
     (case Option.bind vo (resolve_alias k h) of
        Some r \<Rightarrow> if nd_kind (h r) = SequenceNode then nd_content (h r) else []
      | None \<Rightarrow> [])"

lemma resolve_fixed: "resolve_alias k h a = Some b \<Longrightarrow> resolve_alias k h b = Some b"
proof (induction k h a rule: resolve_alias.induct)
  case (2 k h a)
  then show ?case using resolve_more[of k h b b "Suc k"] by (auto split: if_splits option.splits)
qed simp

lemma rules_under_None [simp]: "rules_under k h None = []"
  by (simp add: rules_under_def)

lemma rules_under_resolved:
  "resolve_alias k h a = Some r \<Longrightarrow>
   rules_under k h (Some a) = (if nd_kind (h r) = SequenceNode then nd_content (h r) else [])"
  by (simp add: rules_under_def)

lemma rules_under_end: "resolve_alias k h a = Some r \<Longrightarrow> rules_under k h (Some r) = rules_under k h (Some a)"
  by (simp add: rules_under_def resolve_fixed)

text \<open>The list the rules are read from: one of the two given, or a new node that holds both.\<close>

definition rules_node :: "nat \<Rightarrow> node_ref option \<Rightarrow> node_ref option \<Rightarrow> heap \<Rightarrow> node_ref \<Rightarrow> heap \<Rightarrow> bool" where
  "rules_node k added profile hp n hp1 \<longleftrightarrow>
     rules_under k (hp_node hp1) (Some n) = rules_under k (hp_node hp) added @ rules_under k (hp_node hp) profile \<and>
     (hp1 = hp \<and> (\<exists>a. resolve_alias k (hp_node hp) a = Some n \<and> (added = Some a \<or> profile = Some a)) \<or>
      n = hp_next hp \<and> hp_next hp1 = Suc n \<and> nd_kind (hp_node hp1 n) = SequenceNode \<and>
        (\<forall>a. a \<noteq> n \<longrightarrow> hp_node hp1 a = hp_node hp a))"

lemma append_rules_facts:
  assumes "append_rules k lib added (Some p) hp = Some (Inr (r, hp1))"
  shows "\<exists>n. r = Some n \<and> rules_node k added (Some p) hp n hp1"
proof -
  let ?h = "hp_node hp"
  obtain pr where pr: "resolve_alias k ?h p = Some pr"
    using assms by (auto simp: append_rules_def Let_def split: option.splits)
  obtain j where j: "k = Suc j" using pr by (cases k) auto
  show ?thesis
  proof (cases added)
    case None
    then have "r = Some pr" "hp1 = hp" using assms pr by (simp_all add: append_rules_def Let_def)
    then show ?thesis using pr None by (auto simp: rules_node_def rules_under_end[OF pr])
  next
    case (Some a)
    obtain ad where ad: "resolve_alias k ?h a = Some ad"
      using assms Some by (auto simp: append_rules_def Let_def split: option.splits)
    note under = rules_under_resolved[OF ad] rules_under_resolved[OF pr] rules_under_end[OF ad] rules_under_end[OF pr]
    consider (empty) "is_null lib (?h ad) \<or> rules_list ?h ad \<and> nd_content (?h ad) = []"
      | (null) "\<not> (is_null lib (?h ad) \<or> rules_list ?h ad \<and> nd_content (?h ad) = [])" "is_null lib (?h pr)"
      | (both) "\<not> (is_null lib (?h ad) \<or> rules_list ?h ad \<and> nd_content (?h ad) = [])" "\<not> is_null lib (?h pr)" by blast
    then show ?thesis
    proof cases
      case empty
      then have r: "r = Some pr" "hp1 = hp" using assms Some pr ad by (auto simp: append_rules_def Let_def)
      have "rules_under k ?h (Some a) = []" using empty by (auto simp: under is_null_def rules_list_def)
      then show ?thesis using r pr Some by (auto simp: rules_node_def rules_under_end[OF pr])
    next
      case null
      then have r: "r = Some ad" "hp1 = hp" using assms Some pr ad by (auto simp: append_rules_def Let_def)
      have "rules_under k ?h (Some p) = []" using null by (auto simp: under is_null_def)
      then show ?thesis using r ad Some by (auto simp: rules_node_def rules_under_end[OF ad])
    next
      case both
      let ?n = "hp_next hp"
      have l: "rules_list ?h ad" "rules_list ?h pr" and r: "r = Some ?n"
        and hp1: "hp1 = snd (new_node (plain_node SequenceNode ''!!seq'' [] (nd_content (?h ad) @ nd_content (?h pr))) hp)"
        using assms Some pr ad both by (auto simp: append_rules_def Let_def new_node_def split: if_splits)
      have node: "hp_node hp1 ?n = plain_node SequenceNode ''!!seq'' [] (nd_content (?h ad) @ nd_content (?h pr))"
        "\<And>x. x \<noteq> ?n \<Longrightarrow> hp_node hp1 x = ?h x" "hp_next hp1 = Suc ?n"
        by (simp_all add: hp1 new_node_def)
      have "resolve_alias k (hp_node hp1) ?n = Some ?n" by (simp add: j node plain_node_def)
      then have "rules_under k (hp_node hp1) (Some ?n) = nd_content (?h ad) @ nd_content (?h pr)"
        by (simp add: rules_under_resolved node plain_node_def)
      moreover have "rules_under k ?h added = nd_content (?h ad)" "rules_under k ?h (Some p) = nd_content (?h pr)"
        using l Some by (simp_all add: under rules_list_def)
      ultimately show ?thesis using r node by (auto simp: rules_node_def plain_node_def)
    qed
  qed
qed


text \<open>The host's overlay is JSON: it has no merge keys, and a key the Core sets is none.\<close>

definition no_merges :: "'r yaml_library \<Rightarrow> nodes \<Rightarrow> node_ref \<Rightarrow> bool" where
  "no_merges lib h m \<longleftrightarrow> nd_kind (h m) = MappingNode \<and> (\<forall>p\<in>set (scalar_pairs h m). \<not> is_merge lib h p)"

definition keys_are_text :: "'r yaml_library \<Rightarrow> bool" where
  "keys_are_text lib \<longleftrightarrow> (\<forall>key. yl_short_tag lib (plain_node ScalarNode ''!!str'' key []) \<noteq> ''!!merge'')"

lemma find_filtered: "find P (filter Q xs) = find (\<lambda>x. Q x \<and> P x) xs"
  by (induction xs) auto

lemma own_value_scalar: "own_value h m key = map_option snd (find (\<lambda>p. nd_value (h (fst p)) = key) (scalar_pairs h m))"
  by (simp add: own_value_def listed_value_def scalar_pairs_def find_filtered case_prod_beta)

lemma mapping_value_own: "no_merges lib h m \<Longrightarrow> mapping_value lib (Suc k) h key m = Some (own_value h m key)"
proof -
  assume n: "no_merges lib h m"
  have "find (\<lambda>p. \<not> is_merge lib h p \<and> nd_value (h (fst p)) = key) (scalar_pairs h m)
      = find (\<lambda>p. nd_value (h (fst p)) = key) (scalar_pairs h m)"
    by (rule find_cong) (use n in \<open>auto simp: no_merges_def\<close>)
  moreover have "filter (is_merge lib h) (scalar_pairs h m) = []" using n by (auto simp: no_merges_def filter_empty_conv)
  ultimately show ?thesis by (simp add: own_value_scalar split: option.splits)
qed

lemma put_value_keys: "put_value h key v xs = Some ys \<Longrightarrow> map fst (pairs ys) = map fst (pairs xs)"
  by (induction h key v xs arbitrary: ys rule: put_value.induct) (auto split: if_splits)

lemma pairs_append: "even (length xs) \<Longrightarrow> pairs (xs @ ys) = pairs xs @ pairs ys"
  by (induction xs rule: pairs.induct) auto

definition merge_free_keys :: "'r yaml_library \<Rightarrow> nodes \<Rightarrow> node_ref list \<Rightarrow> bool" where
  "merge_free_keys lib h ks \<longleftrightarrow> (\<forall>a\<in>set ks. nd_kind (h a) = ScalarNode \<longrightarrow> yl_short_tag lib (h a) \<noteq> ''!!merge'')"

lemma no_merges_keys:
  "no_merges lib h m \<longleftrightarrow> nd_kind (h m) = MappingNode \<and> merge_free_keys lib h (map fst (pairs (nd_content (h m))))"
  by (auto simp: no_merges_def merge_free_keys_def scalar_pairs_def is_merge_def)

lemma set_mapping_value_no_merges:
  assumes "mapping_ok hp m" "no_merges lib (hp_node hp) m" "keys_are_text lib"
  shows "no_merges lib (hp_node (set_mapping_value m key v hp)) m"
proof -
  let ?h = "hp_node hp" and ?xs = "nd_content (hp_node hp m)"
  have m: "m < hp_next hp" "even (length ?xs)" "\<And>c. c \<in> set ?xs \<Longrightarrow> c < hp_next hp"
    using assms(1) by (auto simp: mapping_ok_def)
  have keys: "nd_kind (?h m) = MappingNode" "merge_free_keys lib ?h (map fst (pairs ?xs))"
    using assms(2) by (simp_all add: no_merges_keys)
  have inx: "a \<in> set (map fst (pairs ?xs)) \<Longrightarrow> a \<in> set ?xs" for a
    using pairs_set[of "fst p" "snd p" ?xs for p] by auto
  show ?thesis
  proof (cases "put_value ?h key v ?xs")
    case (Some ys)
    let ?h1 = "hp_node (set_mapping_value m key v hp)"
    have h1: "?h1 = ?h(m := (?h m)\<lparr>nd_content := ys\<rparr>)" by (simp add: set_mapping_value_def Some set_content_def)
    have "merge_free_keys lib ?h1 (map fst (pairs ys))"
      using keys put_value_keys[OF Some] by (auto simp: merge_free_keys_def h1)
    then show ?thesis using keys(1) by (simp add: no_merges_keys h1)
  next
    case None
    let ?n = "hp_next hp" and ?h1 = "hp_node (set_mapping_value m key v hp)"
    have h1: "?h1 = ?h(?n := plain_node ScalarNode ''!!str'' key [], m := (?h m)\<lparr>nd_content := ?xs @ [?n, v]\<rparr>)"
      using m(1) by (auto simp: set_mapping_value_def None set_content_def new_node_def)
    have "merge_free_keys lib ?h1 (map fst (pairs (?xs @ [?n, v])))"
      unfolding merge_free_keys_def
    proof (intro ballI impI)
      fix a assume a: "a \<in> set (map fst (pairs (?xs @ [?n, v])))" "nd_kind (?h1 a) = ScalarNode"
      show "yl_short_tag lib (?h1 a) \<noteq> ''!!merge''"
      proof (cases "a = ?n")
        case True
        then show ?thesis using assms(3) m(1) by (auto simp: h1 keys_are_text_def)
      next
        case False
        then have k: "a \<in> set (map fst (pairs ?xs))" using a(1) by (auto simp: pairs_append[OF m(2)])
        have "a \<noteq> m" using a(2) keys(1) by (auto simp: h1)
        then have "?h1 a = ?h a" using False by (simp add: h1)
        then show ?thesis using keys(2) k a(2) by (auto simp: merge_free_keys_def)
      qed
    qed
    then show ?thesis using keys(1) m(1) by (simp add: no_merges_keys h1)
  qed
qed

lemma take_sections_no_merges:
  assumes "each (take_section lib k profile root) ks hp = Some hp1" "mergeable R profile root hp"
    "no_merges lib (hp_node hp) root" "keys_are_text lib"
  shows "no_merges lib (hp_node hp1) root"
proof -
  have "mergeable R profile root hp \<and> grown root hp hp1 \<and> mapping_ok hp1 root \<and> no_merges lib (hp_node hp1) root"
  proof (rule each_induct[OF assms(1), of "\<lambda>_ u. mergeable R profile root hp \<and> grown root hp u \<and> mapping_ok u root \<and>
      no_merges lib (hp_node u) root"])
    show "mergeable R profile root hp \<and> grown root hp hp \<and> mapping_ok hp root \<and> no_merges lib (hp_node hp) root"
      using assms by (simp add: mergeable_def)
  next
    fix ys name u w
    assume I: "mergeable R profile root hp \<and> grown root hp u \<and> mapping_ok u root \<and> no_merges lib (hp_node u) root"
      and t: "take_section lib k profile root name u = Some w"
    have same: "mapping_value lib k (hp_node u) name profile = mapping_value lib k (hp_node hp) name profile"
      using grown_lookup[OF assms(2)] I by blast
    show "mergeable R profile root hp \<and> grown root hp w \<and> mapping_ok w root \<and> no_merges lib (hp_node w) root"
    proof (cases "mapping_value lib k (hp_node hp) name profile")
      case (Some vo)
      show ?thesis
      proof (cases vo)
        case None
        then show ?thesis using t same Some I by (simp add: take_section_def)
      next
        case (Some v)
        have w: "w = set_mapping_value root name v u"
          using t same \<open>mapping_value lib k (hp_node hp) name profile = Some vo\<close> Some by (simp add: take_section_def)
        have "v < hp_next hp"
          using mergeable_value[OF assms(2)] \<open>mapping_value lib k (hp_node hp) name profile = Some vo\<close> Some by blast
        then have v: "v < hp_next u" using I unfolding grown_def by (meson order_less_le_trans)
        show ?thesis
          using set_mapping_value_facts(2,3)[OF _ v, of root name] set_mapping_value_no_merges[OF _ _ assms(4), of u root name v]
            I grown_trans[of root hp u w] unfolding w by blast
      qed
    qed (use t same in \<open>simp add: take_section_def\<close>)
  qed
  then show ?thesis by blast
qed


declare mapping_value.simps(2) [simp del]

lemma resolve_grown:
  "shut h {..<n} \<Longrightarrow> a < n \<Longrightarrow>
   (\<And>x. x < n \<Longrightarrow> nd_kind (h' x) = nd_kind (h x) \<and> nd_alias (h' x) = nd_alias (h x)) \<Longrightarrow>
   resolve_alias k h' a = resolve_alias k h a \<and> (\<forall>b. resolve_alias k h a = Some b \<longrightarrow> b < n)"
proof (induction k h a rule: resolve_alias.induct)
  case (2 k h a)
  have same: "nd_kind (h' a) = nd_kind (h a)" "nd_alias (h' a) = nd_alias (h a)" using 2(3) 2(4)[of a] by auto
  show ?case
  proof (cases "nd_kind (h a) = AliasNode")
    case True
    show ?thesis
    proof (cases "nd_alias (h a)")
      case (Some c)
      have "c < n" using 2(2,3) Some by (auto simp: shut_def)
      with 2(1)[OF True Some 2(2) _ 2(4)] show ?thesis using True Some same by simp
    qed (use True same 2(3) in auto)
  qed (use same 2(3) in auto)
qed simp

lemma resolve_retagged: "retagged_to h h' \<Longrightarrow> resolve_alias k h' a = resolve_alias k h a"
  by (induction k h a rule: resolve_alias.induct) (auto simp: retagged_fields split: option.splits)

lemma rules_under_retagged: "retagged_to h h' \<Longrightarrow> rules_under k h' vo = rules_under k h vo"
  by (cases vo) (auto simp: rules_under_def resolve_retagged retagged_fields split: option.splits)

lemma own_value_retagged: "retagged_to h h' \<Longrightarrow> own_value h' m key = own_value h m key"
  unfolding own_value_def by (simp add: retagged_fields listed_value_def)

text \<open>The rules under a value stay while the heap grows, but for a value that leads to the root.\<close>

lemma rules_under_grown:
  assumes "shut (hp_node hp) {..<hp_next hp}" "\<forall>v. vo = Some v \<longrightarrow> v < hp_next hp" "grown m hp hp1"
    "nd_kind (hp_node hp m) = MappingNode"
  shows "rules_under k (hp_node hp1) vo = rules_under k (hp_node hp) vo"
proof (cases vo)
  case (Some v)
  have same: "resolve_alias k (hp_node hp1) v = resolve_alias k (hp_node hp) v \<and>
      (\<forall>b. resolve_alias k (hp_node hp) v = Some b \<longrightarrow> b < hp_next hp)"
    by (rule resolve_grown) (use assms Some in \<open>auto simp: grown_def\<close>)
  show ?thesis
  proof (cases "resolve_alias k (hp_node hp) v")
    case (Some r)
    then have r: "r < hp_next hp" using same by blast
    then have "nd_kind (hp_node hp1 r) = nd_kind (hp_node hp r)" "r \<noteq> m \<Longrightarrow> hp_node hp1 r = hp_node hp r"
      using assms(3) by (auto simp: grown_def)
    then show ?thesis using same Some assms(4) \<open>vo = Some v\<close> by (cases "r = m") (auto simp: rules_under_def)
  qed (use same \<open>vo = Some v\<close> in \<open>simp add: rules_under_def\<close>)
qed simp

lemma rules_under_at:
  "resolved h n \<Longrightarrow> rules_under (Suc k) h (Some n) = (if nd_kind (h n) = SequenceNode then nd_content (h n) else [])"
  by (auto simp: rules_under_def resolved_def split: option.splits)

lemma own_value_in: "own_value h m key = Some v \<Longrightarrow> v \<in> set (nd_content (h m))"
proof -
  assume "own_value h m key = Some v"
  then obtain p where p: "find (\<lambda>p. nd_kind (h (fst p)) = ScalarNode \<and> nd_value (h (fst p)) = key)
      (pairs (nd_content (h m))) = Some p" "snd p = v"
    by (auto simp: own_value_def listed_value_def)
  have "find P xs = Some p \<Longrightarrow> p \<in> set xs" for P and xs :: "(node_ref \<times> node_ref) list"
    by (induction xs) (auto split: if_splits)
  from this[OF p(1)] show ?thesis using p(2) pairs_set[of "fst p" "snd p"] by auto
qed

lemma merge_rules_facts:
  assumes m: "merge_rules lib (Suc k) profile root hp1 = Some (Inr hp2)"
    and ok: "mergeable R profile root hp" "grown root hp hp1" "mapping_ok hp1 root" "no_merges lib (hp_node hp1) root"
    and same: "own_value (hp_node hp1) root ''rules'' = own_value (hp_node hp) root ''rules''"
    and found: "mapping_value lib (Suc k) (hp_node hp) ''rules'' profile = Some po"
  shows "grown root hp hp2 \<and> mapping_ok hp2 root \<and>
    (\<forall>key. key \<noteq> ''rules'' \<longrightarrow> own_value (hp_node hp2) root key = own_value (hp_node hp1) root key) \<and>
    rules_under (Suc k) (hp_node hp2) (own_value (hp_node hp2) root ''rules'') =
     rules_under (Suc k) (hp_node hp) (own_value (hp_node hp) root ''rules'') @ rules_under (Suc k) (hp_node hp) po \<and>
    (\<forall>v. own_value (hp_node hp2) root ''rules'' = Some v \<longrightarrow> v < hp_next hp \<or> resolved (hp_node hp2) v)"
proof -
  let ?h = "hp_node hp" and ?ao = "own_value (hp_node hp) root ''rules''"
  have sh: "shut ?h {..<hp_next hp}" and rt: "root < hp_next hp" using ok(1) by (auto simp: mergeable_def mapping_ok_def)
  have kind1: "nd_kind (hp_node hp1 root) = MappingNode" using ok(4) by (simp add: no_merges_def)
  then have kind: "nd_kind (?h root) = MappingNode" using ok(2) rt by (simp add: grown_def)
  have added: "mapping_value lib (Suc k) (hp_node hp1) ''rules'' root = Some ?ao"
    using mapping_value_own[OF ok(4)] same by simp
  have prof: "mapping_value lib (Suc k) (hp_node hp1) ''rules'' profile = Some po"
    using grown_lookup[OF ok(1,2), of lib "Suc k" "''rules''"] found by simp
  have ao: "\<forall>v. ?ao = Some v \<longrightarrow> v < hp_next hp"
    using ok(1) own_value_in[of ?h root "''rules''"] by (auto simp: mergeable_def mapping_ok_def)
  have po: "\<forall>v. po = Some v \<longrightarrow> v < hp_next hp" using mergeable_value[OF ok(1)] found by blast
  note under1 = rules_under_grown[OF sh ao ok(2) kind] rules_under_grown[OF sh po ok(2) kind]
  show ?thesis
  proof (cases po)
    case None
    then have "hp2 = hp1" using m added prof by (simp add: merge_rules_def append_rules_def then_do_def Let_def)
    then show ?thesis using ok same under1(1) None ao by simp
  next
    case (Some p)
    obtain r hp' where ar: "append_rules (Suc k) lib ?ao (Some p) hp1 = Some (Inr (r, hp'))"
      and hp2: "hp2 = (case r of None \<Rightarrow> hp' | Some n \<Rightarrow> set_mapping_value root ''rules'' n hp')"
      using m added prof Some by (auto simp: merge_rules_def then_do_def split: option.splits sum.splits)
    obtain n where n: "r = Some n" "rules_node (Suc k) ?ao (Some p) hp1 n hp'" using append_rules_facts[OF ar] by blast
    have "n < hp_next hp' \<and> grown root hp1 hp' \<and> resolved (hp_node hp') n \<and>
        nd_content (hp_node hp' root) = nd_content (hp_node hp1 root) \<and>
        (\<forall>a\<in>set (nd_content (hp_node hp1 root)). hp_node hp' a = hp_node hp1 a)"
    proof (cases "hp' = hp1 \<and> (\<exists>a. resolve_alias (Suc k) (hp_node hp1) a = Some n \<and> (?ao = Some a \<or> Some p = Some a))")
      case True
      then obtain a where a: "resolve_alias (Suc k) (hp_node hp1) a = Some n" "a < hp_next hp" using ao po Some by auto
      have "n < hp_next hp" using resolve_grown[OF sh a(2), of "hp_node hp1" "Suc k"] a(1) ok(2) by (auto simp: grown_def)
      then show ?thesis using True resolve_resolved[OF a(1)] ok(2) by (auto simp: grown_def)
    next
      case False
      then have new: "n = hp_next hp1" "hp_next hp' = Suc n" "nd_kind (hp_node hp' n) = SequenceNode"
        "\<And>a. a \<noteq> n \<Longrightarrow> hp_node hp' a = hp_node hp1 a" using n(2) by (auto simp: rules_node_def)
      have "root \<noteq> n" using new(1) ok(3) by (auto simp: mapping_ok_def)
      moreover have "a \<noteq> n" if "a \<in> set (nd_content (hp_node hp1 root))" for a
        using that new(1) ok(3) by (auto simp: mapping_ok_def)
      ultimately show ?thesis using new by (auto simp: grown_def resolved_def)
    qed
    then have n': "n < hp_next hp'" "grown root hp1 hp'" "resolved (hp_node hp') n"
      "nd_content (hp_node hp' root) = nd_content (hp_node hp1 root)"
      "\<And>a. a \<in> set (nd_content (hp_node hp1 root)) \<Longrightarrow> hp_node hp' a = hp_node hp1 a" by auto
    have ok': "mapping_ok hp' root" using ok(3) n'(2,4) by (auto simp: mapping_ok_def grown_def)
    have same': "own_value (hp_node hp') root key = own_value (hp_node hp1) root key" for key
      unfolding own_value_def n'(4) by (rule listed_value_cong) (simp add: n'(5))
    have hp2': "hp2 = set_mapping_value root ''rules'' n hp'" using hp2 n(1) by simp
    note f = set_mapping_value_facts[OF ok' n'(1), of "''rules''", folded hp2']
    have rt1: "root < hp_next hp'" using ok' by (simp add: mapping_ok_def)
    have kind2: "nd_kind (hp_node hp2 n) = nd_kind (hp_node hp' n)" "nd_alias (hp_node hp2 n) = nd_alias (hp_node hp' n)"
      "n \<noteq> root \<Longrightarrow> hp_node hp2 n = hp_node hp' n" using f(3) n'(1) by (auto simp: grown_def)
    have rootk: "nd_kind (hp_node hp' root) = MappingNode"
      using n'(2) kind1 ok(3) by (auto simp: grown_def mapping_ok_def)
    have res2: "resolved (hp_node hp2) n" using n'(3) kind2 by (simp add: resolved_def)
    have "rules_under (Suc k) (hp_node hp2) (Some n) = rules_under (Suc k) (hp_node hp') (Some n)"
      unfolding rules_under_at[OF res2] rules_under_at[OF n'(3)] using kind2 rootk by (cases "n = root") simp_all
    then have "rules_under (Suc k) (hp_node hp2) (own_value (hp_node hp2) root ''rules'') =
      rules_under (Suc k) ?h ?ao @ rules_under (Suc k) ?h po"
      using f(1) n(2) under1 Some by (simp add: rules_node_def)
    moreover have "grown root hp hp2" using ok(2) n'(2) f(3) grown_trans by blast
    ultimately show ?thesis using f(1,2) same' res2 by simp
  qed
qed


subsection \<open>The merged document\<close>

lemma below_back: "below h' a b \<Longrightarrow> retagged_to h h' \<Longrightarrow> below h a b"
  by (induction rule: below.induct) (auto intro: below.intros simp: retagged_fields)

lemma listed_back: "listed h' v x \<Longrightarrow> retagged_to h h' \<Longrightarrow> listed h v x"
  by (induction rule: listed.induct) (auto intro: listed.intros simp: retagged_fields)

lemma short_id_back: "short_id_value h' m x \<Longrightarrow> retagged_to h h' \<Longrightarrow> short_id_value h m x"
  by (fastforce simp: short_id_value_def retagged_fields intro: listed_back)

text \<open>The new document node above the root hides nothing.\<close>

lemma below_new: "below (h(d := n)) r m \<Longrightarrow> nd_content n = [r] \<Longrightarrow> m = d \<or> below h r m"
  by (induction rule: below.induct) (auto intro: below.intros split: if_splits)

lemma listed_new: "listed (h(d := n)) v x \<Longrightarrow> nd_kind n = DocumentNode \<Longrightarrow> x = d \<or> listed h v x"
  by (induction rule: listed.induct) (auto intro: listed.intros split: if_splits)

lemma short_id_new:
  assumes "short_id_value (h(d := n)) m x" "n = plain_node DocumentNode [] [] [r]"
  shows "x = d \<or> short_id_value h m x"
proof -
  have "m \<noteq> d" using assms by (auto simp: short_id_value_def plain_node_def)
  then obtain a v where "nd_kind (h m) = MappingNode" "(a, v) \<in> set (pairs (nd_content (h m)))"
    "nd_value ((h(d := n)) a) = ''short-id''" "listed (h(d := n)) v x"
    using assms(1) by (auto simp: short_id_value_def)
  moreover from this have "a \<noteq> d" using assms(2) by (auto simp: plain_node_def zero_node_def)
  ultimately show ?thesis using listed_new[of h d n v x] assms(2)
    by (auto simp: short_id_value_def plain_node_def)
qed

lemma short_id_mapping: "short_id_value (h(d := plain_node DocumentNode [] [] [r])) m x \<Longrightarrow> m \<noteq> d"
  by (auto simp: short_id_value_def plain_node_def)

lemma number_new: "number ((h(d := plain_node DocumentNode [] [] [r])) x) \<Longrightarrow> x \<noteq> d \<and> number (h x)"
  by (auto simp: number_def plain_node_def split: if_splits)

text \<open>The rules are read the same below the new document node.\<close>

lemma rules_under_new:
  assumes "resolved g v \<or> v < n \<and> shut h {..<n} \<and> (\<forall>x<n. nd_kind (g x) = nd_kind (h x) \<and> nd_alias (g x) = nd_alias (h x))"
    "n \<le> d" "v \<noteq> d"
  shows "rules_under (Suc k) (g(d := m)) (Some v) = rules_under (Suc k) g (Some v)"
  using assms(1)
proof
  assume r: "resolved g v"
  then have "resolved (g(d := m)) v" using assms(3) by (simp add: resolved_def)
  then show ?thesis using r assms(3) by (simp add: rules_under_at)
next
  assume v: "v < n \<and> shut h {..<n} \<and> (\<forall>x<n. nd_kind (g x) = nd_kind (h x) \<and> nd_alias (g x) = nd_alias (h x))"
  have "resolve_alias (Suc k) (g(d := m)) v = resolve_alias (Suc k) h v \<and> (\<forall>b. resolve_alias (Suc k) h v = Some b \<longrightarrow> b < n)"
    by (rule resolve_grown) (use v assms(2) in auto)
  moreover have "resolve_alias (Suc k) g v = resolve_alias (Suc k) h v \<and> (\<forall>b. resolve_alias (Suc k) h v = Some b \<longrightarrow> b < n)"
    by (rule resolve_grown) (use v in auto)
  ultimately show ?thesis using assms(2)
    by (cases "resolve_alias (Suc k) h v") (simp_all add: rules_under_def del: resolve_alias.simps, fastforce?)
qed

lemma merge_mappings_steps:
  assumes "merge_mappings lib k retag profile root hp = Some (Inr (d, hp'))"
  obtains hp1 hp2 r h where "each (take_section lib k profile root) profile_base_sections hp = Some hp1"
    "merge_rules lib k profile root hp1 = Some (Inr hp2)"
    "(if retag then retag_short_ids k root (hp_node hp2) else Some (False, hp_node hp2)) = Some (r, h)"
    "d = hp_next hp2" "hp_node hp' = h(d := plain_node DocumentNode [] [] [root])"
  using assms by (auto simp: merge_mappings_def then_do_def new_node_def split: option.splits sum.splits)

lemma merged_facts:
  assumes "merge_mappings lib (Suc k) retag profile root hp = Some (Inr (d, hp'))" "mergeable R profile root hp"
    "no_merges lib (hp_node hp) root" "keys_are_text lib"
  defines "h \<equiv> hp_node hp" and "h' \<equiv> hp_node hp'"
  shows "nd_content (h' d) = [root]"
    and "key \<noteq> ''rules'' \<Longrightarrow> own_value h' root key =
      (if key \<in> set profile_base_sections then section_value lib (Suc k) h profile root key else own_value h root key)"
    and "\<exists>po. mapping_value lib (Suc k) h ''rules'' profile = Some po \<and>
      rules_under (Suc k) h' (own_value h' root ''rules'') =
      rules_under (Suc k) h (own_value h root ''rules'') @ rules_under (Suc k) h po"
    and "retag \<Longrightarrow> below h' root m \<Longrightarrow> short_id_value h' m x \<Longrightarrow> \<not> number (h' x)"
proof -
  obtain hp1 hp2 r g where s: "each (take_section lib (Suc k) profile root) profile_base_sections hp = Some hp1"
    "merge_rules lib (Suc k) profile root hp1 = Some (Inr hp2)"
    "(if retag then retag_short_ids (Suc k) root (hp_node hp2) else Some (False, hp_node hp2)) = Some (r, g)"
    "d = hp_next hp2" "h' = g(d := plain_node DocumentNode [] [] [root])"
    using merge_mappings_steps[OF assms(1)] unfolding h'_def by metis
  note t = take_sections[OF s(1) assms(2)]
  have g1: "grown root hp hp1" "mapping_ok hp1 root" using t by blast+
  have own1: "own_value (hp_node hp1) root key = (if key \<in> set profile_base_sections
      then section_value lib (Suc k) h profile root key else own_value h root key)" for key
    using t unfolding h_def by blast
  obtain po where po: "mapping_value lib (Suc k) h ''rules'' profile = Some po"
  proof (cases "mapping_value lib (Suc k) (hp_node hp1) ''rules'' profile")
    case None
    then show ?thesis using s(2) by (simp add: merge_rules_def split: option.splits)
  qed (use that grown_lookup[OF assms(2) g1(1), of lib "Suc k" "''rules''"] in \<open>simp add: h_def\<close>)
  have rules1: "own_value (hp_node hp1) root ''rules'' = own_value (hp_node hp) root ''rules''"
    using own1[of "''rules''"] by (simp add: profile_base_sections_def h_def)
  note f = merge_rules_facts[OF s(2) assms(2) g1 take_sections_no_merges[OF s(1) assms(2,3,4)] rules1 po[unfolded h_def]]
  have rg: "retagged_to (hp_node hp2) g"
  proof (cases retag)
    case True
    then have "retag_walk (Suc k) root (False, hp_node hp2) = Some (r, g)" using s(3) by (simp add: retag_short_ids_def)
    from retags_to[OF retag_walk_retags[OF this]] show ?thesis by simp
  qed (use s(3) in simp)
  have ok2: "mapping_ok hp2 root" using f by blast
  have d: "root \<noteq> d" "d \<notin> set (nd_content (g root))"
    using ok2 s(4) retagged_fields(3)[OF rg] by (auto simp: mapping_ok_def)
  have own: "own_value h' root key = own_value (hp_node hp2) root key" for key
  proof -
    have "own_value h' root key = own_value g root key"
      unfolding own_value_def using d by (simp add: s(5)) (rule listed_value_cong, auto)
    then show ?thesis by (simp add: own_value_retagged[OF rg])
  qed
  show "nd_content (h' d) = [root]" by (simp add: s(5) plain_node_def)
  show "key \<noteq> ''rules'' \<Longrightarrow> own_value h' root key =
      (if key \<in> set profile_base_sections then section_value lib (Suc k) h profile root key else own_value h root key)"
  proof -
    assume "key \<noteq> ''rules''"
    then have "own_value (hp_node hp2) root key = own_value (hp_node hp1) root key"
      using conjunct1[OF conjunct2[OF conjunct2[OF f]]] by blast
    then show ?thesis by (simp only: own own1)
  qed
  show "\<not> number (h' x)" if "retag" "below h' root m" "short_id_value h' m x"
  proof
    assume "number (h' x)"
    from number_new[OF this[unfolded s(5)]] have x: "x \<noteq> d" "number (g x)" by blast+
    have m: "m \<noteq> d" using short_id_mapping[OF that(3)[unfolded s(5)]] by blast
    have "nd_content (plain_node DocumentNode [] [] [root]) = [root]" by (simp add: plain_node_def)
    from below_new[OF that(2)[unfolded s(5)] this] m have "below g root m" by blast
    moreover have "short_id_value g m x" using short_id_new[OF that(3)[unfolded s(5)] refl] x(1) by blast
    moreover have "retag_walk (Suc k) root (False, hp_node hp2) = Some (r, g)"
      using s(3) that(1) by (simp add: retag_short_ids_def)
    ultimately show False
      using retag_walk_clears[of "Suc k" root "(False, hp_node hp2)" "(r, g)" m x] below_back[OF _ rg] short_id_back[OF _ rg] x(2)
      by simp
  qed
  show "\<exists>po. mapping_value lib (Suc k) h ''rules'' profile = Some po \<and>
      rules_under (Suc k) h' (own_value h' root ''rules'') =
      rules_under (Suc k) h (own_value h root ''rules'') @ rules_under (Suc k) h po"
  proof (intro exI conjI)
    let ?d = "plain_node DocumentNode [] [] [root]"
    have "rules_under (Suc k) h' (own_value h' root ''rules'') = rules_under (Suc k) g (own_value (hp_node hp2) root ''rules'')"
    proof (cases "own_value (hp_node hp2) root ''rules''")
      case (Some v)
      have v: "v < hp_next hp2" using own_value_in[OF Some] ok2 by (simp add: mapping_ok_def)
      have "rules_under (Suc k) (g(d := ?d)) (Some v) = rules_under (Suc k) g (Some v)"
      proof (rule rules_under_new)
        have "v < hp_next hp \<or> resolved g v" using f Some rg by (simp add: resolved_def retagged_fields)
        moreover have "nd_kind (g x) = nd_kind (h x) \<and> nd_alias (g x) = nd_alias (h x)" if "x < hp_next hp" for x
          using f that by (simp add: grown_def h_def retagged_fields[OF rg])
        ultimately show "resolved g v \<or> v < hp_next hp \<and> shut h {..<hp_next hp} \<and>
            (\<forall>x<hp_next hp. nd_kind (g x) = nd_kind (h x) \<and> nd_alias (g x) = nd_alias (h x))"
          using assms(2) by (auto simp: mergeable_def h_def)
        show "hp_next hp \<le> d" using f s(4) by (simp add: grown_def)
        show "v \<noteq> d" using v s(4) by simp
      qed
      then show ?thesis using own Some s(5) by simp
    qed (simp add: own)
    then show "rules_under (Suc k) h' (own_value h' root ''rules'') =
        rules_under (Suc k) h (own_value h root ''rules'') @ rules_under (Suc k) h po"
      using f rules_under_retagged[OF rg] by (simp add: h_def)
  qed (rule po)
qed


subsection \<open>The merge returns\<close>

lemma size_part: "t \<in> set ts \<Longrightarrow> size t < size (Tree kd p tg v ts)"
  by (induction ts) auto

lemma denotes_child:
  assumes "denotes h a (Tree kd p tg v ts)" "nd_kind (h a) \<noteq> AliasNode" "c \<in> set (nd_content (h a))"
  shows "\<exists>t\<in>set ts. denotes h c t"
proof -
  have "list_all2 (denotes h) (nd_content (h a)) ts" using denotes_node[OF assms(1,2)] by auto
  then show ?thesis using assms(3) by (metis in_set_conv_nth list_all2_conv_all_nth)
qed

lemma first_found_returns: "(\<And>x. x \<in> set xs \<Longrightarrow> f x \<noteq> None) \<Longrightarrow> first_found f xs \<noteq> None"
  by (induction xs) (auto split: option.splits)

text \<open>An alias met among the parts of a tree leads to a node whose tree is as large.\<close>

lemma denotes_end:
  assumes "denotes h a t"
  obtains K b where "nd_kind (h b) \<noteq> AliasNode" "denotes h b t" "\<And>k. K \<le> k \<Longrightarrow> resolve_alias k h a = Some b"
proof -
  obtain K b where "nd_kind (h b) \<noteq> AliasNode" "leads h a b" "\<forall>k\<ge>K. resolve_alias k h a = Some b"
    using denotes_resolves[OF assms] by blast
  then show ?thesis using that assms denotes_leads by blast
qed

lemma mapping_value_returns:
  "denotes h m t \<Longrightarrow> nd_kind (h m) \<noteq> AliasNode \<Longrightarrow> \<exists>K. \<forall>k\<ge>K. mapping_value lib k h key m \<noteq> None"
proof (induction "size t" arbitrary: m t rule: less_induct)
  case less
  obtain kd p tg v ts where t: "t = Tree kd p tg v ts" by (cases t)
  let ?inner = "\<lambda>k candidate. (case resolve_alias k h candidate of None \<Rightarrow> None
     | Some c \<Rightarrow> if nd_kind (h c) = MappingNode then mapping_value lib k h key c else Some None)"
  let ?outer = "\<lambda>k source. (case resolve_alias k h source of None \<Rightarrow> None
     | Some src \<Rightarrow> first_found (?inner k) (if nd_kind (h src) = SequenceNode then nd_content (h src) else [src]))"
  have inner: "\<exists>K. \<forall>k\<ge>K. ?inner k a \<noteq> None" if dn: "denotes h a t'" and sz: "size t' < size t" for a t'
  proof -
    obtain K1 b where b: "nd_kind (h b) \<noteq> AliasNode" "denotes h b t'" "\<And>k. K1 \<le> k \<Longrightarrow> resolve_alias k h a = Some b"
      using denotes_end[OF dn] by metis
    obtain K2 where "\<forall>k\<ge>K2. mapping_value lib k h key b \<noteq> None" using less.hyps[OF sz b(2,1)] by blast
    then show ?thesis using b(3) by (intro exI[of _ "max K1 K2"]) simp
  qed
  have outer: "\<exists>K. \<forall>k\<ge>K. ?outer k a \<noteq> None" if dn: "denotes h a t'" and sz: "size t' < size t" for a t'
  proof -
    obtain K1 b where b: "nd_kind (h b) \<noteq> AliasNode" "denotes h b t'" "\<And>k. K1 \<le> k \<Longrightarrow> resolve_alias k h a = Some b"
      using denotes_end[OF dn] by metis
    let ?xs = "if nd_kind (h b) = SequenceNode then nd_content (h b) else [b]"
    have "\<exists>K. \<forall>k\<ge>K. ?inner k x \<noteq> None" if xin: "x \<in> set ?xs" for x
    proof (cases "nd_kind (h b) = SequenceNode")
      case True
      obtain kd' p' tg' v' ts' where t': "t' = Tree kd' p' tg' v' ts'" by (cases t')
      obtain t'' where "t'' \<in> set ts'" "denotes h x t''"
        using denotes_child[OF b(2)[unfolded t'] b(1)] xin True by auto
      then show ?thesis using inner[of x t''] size_part[of t'' ts' kd' p' tg' v'] t' sz by simp
    next
      case False
      then show ?thesis using inner[of b t'] b(2) xin sz by simp
    qed
    from enough_for_list[where P = "\<lambda>x k. ?inner k x \<noteq> None", OF this]
    obtain K2 where "\<And>k x. K2 \<le> k \<Longrightarrow> x \<in> set ?xs \<Longrightarrow> ?inner k x \<noteq> None" by blast
    then have "first_found (?inner k) ?xs \<noteq> None" if "K2 \<le> k" for k using that by (intro first_found_returns) blast
    then show ?thesis using b(3) by (intro exI[of _ "max K1 K2"]) simp
  qed
  have "\<exists>K. \<forall>k\<ge>K. ?outer k x \<noteq> None" if xin: "x \<in> set (nd_content (h m))" for x
  proof -
    obtain t' where "t' \<in> set ts" "denotes h x t'" using denotes_child[OF less.prems(1)[unfolded t] less.prems(2) xin] by blast
    then show ?thesis using outer[of x t'] size_part[of t' ts kd p tg v] t by simp
  qed
  from enough_for_list[where P = "\<lambda>x k. ?outer k x \<noteq> None", OF this]
  obtain K where K: "\<And>k x. K \<le> k \<Longrightarrow> x \<in> set (nd_content (h m)) \<Longrightarrow> ?outer k x \<noteq> None" by blast
  have "mapping_value lib (Suc k) h key m \<noteq> None" if "K \<le> k" for k
  proof (cases "find (\<lambda>p. \<not> is_merge lib h p \<and> nd_value (h (fst p)) = key) (scalar_pairs h m)")
    case None
    have "first_found (?outer k) (map snd (filter (is_merge lib h) (scalar_pairs h m))) \<noteq> None"
    proof (rule first_found_returns)
      fix x assume "x \<in> set (map snd (filter (is_merge lib h) (scalar_pairs h m)))"
      then show "?outer k x \<noteq> None" using K[OF that] scalar_pairs_in by fastforce
    qed
    then show ?thesis by (simp only: mapping_value.simps(2) None option.case not_False_eq_True)
  qed (simp add: mapping_value.simps(2))
  then show ?case by (intro exI[of _ "Suc K"]) (metis Suc_le_D Suc_le_mono)
qed


text \<open>Heaps as the library makes them: only an alias has a target, and an alias has no contents.\<close>

lemma grounded_frame:
  "grounded h a \<Longrightarrow> (\<And>b. below h a b \<Longrightarrow> nd_content (h' b) = nd_content (h b)) \<Longrightarrow> grounded h' a"
proof (induction rule: grounded.induct)
  case (grounded a)
  show ?case
  proof (rule grounded.grounded)
    fix c assume "c \<in> set (nd_content (h' a))"
    then have c: "c \<in> set (nd_content (h a))" using grounded.prems[OF below.below_refl] by simp
    have "below h a b" if "below h c b" for b
      using that c by (induction rule: below.induct) (auto intro: below.intros)
    then show "grounded h' c" using grounded.IH[OF c] grounded.prems by blast
  qed
qed

lemma below_shut: "below h a b \<Longrightarrow> shut h R \<Longrightarrow> a \<in> R \<Longrightarrow> b \<in> R"
  by (induction rule: below.induct) (auto simp: shut_def)

lemma below_shrinks:
  assumes "below h a b" "denotes h a t" "bare_aliases h"
  shows "\<exists>t'. denotes h b t' \<and> size t' \<le> size t"
  using assms
proof (induction rule: below.induct)
  case (below_child b c)
  then obtain t' where t': "denotes h b t'" "size t' \<le> size t" by blast
  obtain kd p tg v ts where eq: "t' = Tree kd p tg v ts" by (cases t')
  have "nd_kind (h b) \<noteq> AliasNode" using below_child.prems(2) below_child.hyps(2) unfolding bare_aliases_def by (metis empty_iff list.set(1))
  from denotes_child[OF t'(1)[unfolded eq] this below_child.hyps(2)]
  obtain t'' where "t'' \<in> set ts" "denotes h c t''" by blast
  then show ?case using size_part[of t'' ts kd p tg v] t'(2) eq by (intro exI[of _ t'']) simp
qed blast

text \<open>The nodes that can hang under the root: finite, and not above it.\<close>

definition hangable :: "heap \<Rightarrow> node_ref \<Rightarrow> node_ref \<Rightarrow> bool" where
  "hangable hp root c \<longleftrightarrow> c < hp_next hp \<and> grounded (hp_node hp) c \<and> \<not> below (hp_node hp) c root"

lemma hangable_frame:
  assumes "hangable hp root c" "shut (hp_node hp) {..<hp_next hp}" "grown root hp hp'"
  shows "grounded (hp_node hp') c"
proof (rule grounded_frame)
  show "grounded (hp_node hp) c" using assms(1) by (simp add: hangable_def)
  show "nd_content (hp_node hp' b) = nd_content (hp_node hp b)" if "below (hp_node hp) c b" for b
  proof -
    have "b \<in> {..<hp_next hp}" by (rule below_shut[OF that assms(2)]) (use assms(1) in \<open>simp add: hangable_def\<close>)
    moreover have "b \<noteq> root" using that assms(1) by (auto simp: hangable_def)
    ultimately show ?thesis using assms(3) by (auto simp: grown_def)
  qed
qed

text \<open>A root under which everything is hangable, or new and holds hangable nodes only.\<close>

definition hung :: "heap \<Rightarrow> node_ref \<Rightarrow> heap \<Rightarrow> bool" where
  "hung hp root u \<longleftrightarrow> (\<forall>c\<in>set (nd_content (hp_node u root)).
     hangable hp root c \<or> hp_next hp \<le> c \<and> c < hp_next u \<and> Ball (set (nd_content (hp_node u c))) (hangable hp root))"

lemma hung_grounded:
  assumes "hung hp root u" "shut (hp_node hp) {..<hp_next hp}" "grown root hp u"
  shows "grounded (hp_node u) root"
proof (rule grounded.grounded)
  fix c assume "c \<in> set (nd_content (hp_node u root))"
  then consider "hangable hp root c" | "Ball (set (nd_content (hp_node u c))) (hangable hp root)"
    using assms(1) by (auto simp: hung_def)
  then show "grounded (hp_node u) c"
  proof cases
    case 1
    then show ?thesis by (rule hangable_frame[OF _ assms(2,3)])
  next
    case 2
    then show ?thesis using hangable_frame[OF _ assms(2,3)] by (intro grounded.grounded[of "hp_node u" c]) blast
  qed
qed

lemma hung_set:
  assumes "hung hp root u" "mapping_ok u root" "hp_next hp \<le> hp_next u" "v < hp_next u"
    "hangable hp root v \<or> hp_next hp \<le> v \<and> v \<noteq> root \<and> Ball (set (nd_content (hp_node u v))) (hangable hp root)"
    "root < hp_next hp"
  shows "hung hp root (set_mapping_value root key v u)"
proof -
  let ?h = "hp_node u" and ?xs = "nd_content (hp_node u root)" and ?u = "set_mapping_value root key v u"
  show ?thesis
  proof (cases "put_value ?h key v ?xs")
    case (Some ys)
    have u: "nd_content (hp_node ?u root) = ys" "hp_next ?u = hp_next u"
      "\<And>a. a \<noteq> root \<Longrightarrow> hp_node ?u a = ?h a"
      by (simp_all add: set_mapping_value_def Some set_content_def)
    have "set ys \<subseteq> insert v (set ?xs)" using listed_value_put[OF Some] by blast
    then show ?thesis unfolding hung_def u(1,2)
    proof (intro ballI)
      fix c assume "set ys \<subseteq> insert v (set ?xs)" "c \<in> set ys"
      then have "hangable hp root c \<or> hp_next hp \<le> c \<and> c < hp_next u \<and> Ball (set (nd_content (?h c))) (hangable hp root)"
        using assms(1,4,5) by (auto simp: hung_def)
      moreover have "c \<noteq> root" if "hp_next hp \<le> c" using that assms(6) by simp
      ultimately show "hangable hp root c \<or> hp_next hp \<le> c \<and> c < hp_next u \<and>
          Ball (set (nd_content (hp_node ?u c))) (hangable hp root)" using u(3) by auto
    qed
  next
    case None
    let ?n = "hp_next u"
    have rn: "root \<noteq> ?n" using assms(2) by (simp add: mapping_ok_def)
    have u: "nd_content (hp_node ?u root) = ?xs @ [?n, v]" "hp_next ?u = Suc ?n"
      "nd_content (hp_node ?u ?n) = []" "\<And>a. a \<noteq> root \<Longrightarrow> a \<noteq> ?n \<Longrightarrow> hp_node ?u a = ?h a"
      using rn by (simp_all add: set_mapping_value_def None set_content_def new_node_def plain_node_def)
    show ?thesis unfolding hung_def u(1,2)
    proof (intro ballI)
      fix c assume "c \<in> set (?xs @ [?n, v])"
      then consider "c = ?n" | "c \<in> insert v (set ?xs)" "c \<noteq> ?n" by auto
      then show "hangable hp root c \<or> hp_next hp \<le> c \<and> c < Suc ?n \<and> Ball (set (nd_content (hp_node ?u c))) (hangable hp root)"
      proof cases
        case 1
        then show ?thesis using u(3) assms(3) by simp
      next
        case 2
        then have "hangable hp root c \<or> hp_next hp \<le> c \<and> c < hp_next u \<and> Ball (set (nd_content (?h c))) (hangable hp root)"
          using assms(1,4,5) by (auto simp: hung_def)
        moreover have "c \<noteq> root" if "hp_next hp \<le> c" using that assms(6) by simp
        ultimately show ?thesis using u(4) 2(2) by auto
      qed
    qed
  qed
qed


text \<open>More fuel gives the same.\<close>

lemma first_found_more:
  "first_found f xs = Some y \<Longrightarrow> (\<And>x z. f x = Some z \<Longrightarrow> g x = Some z) \<Longrightarrow> first_found g xs = Some y"
  by (induction xs) (auto split: option.splits)

lemma mapping_value_more: "mapping_value lib k h key m = Some v \<Longrightarrow> k \<le> j \<Longrightarrow> mapping_value lib j h key m = Some v"
proof (induction k arbitrary: j m v)
  case (Suc k)
  obtain i where j: "j = Suc i" "k \<le> i" using Suc.prems(2) by (cases j) auto
  show ?case
  proof (cases "find (\<lambda>p. \<not> is_merge lib h p \<and> nd_value (h (fst p)) = key) (scalar_pairs h m)")
    case None
    let ?inner = "\<lambda>k candidate. (case resolve_alias k h candidate of None \<Rightarrow> None
       | Some c \<Rightarrow> if nd_kind (h c) = MappingNode then mapping_value lib k h key c else Some None)"
    let ?outer = "\<lambda>k source. (case resolve_alias k h source of None \<Rightarrow> None
       | Some src \<Rightarrow> first_found (?inner k) (if nd_kind (h src) = SequenceNode then nd_content (h src) else [src]))"
    have inner: "?inner k x = Some z \<Longrightarrow> ?inner i x = Some z" for x z
      using Suc.IH[OF _ j(2)] resolve_more[OF _ j(2)] by (auto split: option.splits if_splits)
    have outer: "?outer i x = Some z" if o: "?outer k x = Some z" for x z
    proof -
      obtain src where src: "resolve_alias k h x = Some src"
        and ff: "first_found (?inner k) (if nd_kind (h src) = SequenceNode then nd_content (h src) else [src]) = Some z"
        using o by (cases "resolve_alias k h x") simp_all
      show ?thesis using first_found_more[OF ff, of "?inner i", OF inner]
        by (simp only: resolve_more[OF src j(2)] option.case)
    qed
    have "first_found (?outer k) (map snd (filter (is_merge lib h) (scalar_pairs h m))) = Some v"
      using Suc.prems(1) by (simp only: mapping_value.simps(2) None option.case)
    from first_found_more[OF this, of "?outer i", OF outer] show ?thesis
      by (simp only: j(1) mapping_value.simps(2) None option.case)
  qed (use Suc.prems(1) j(1) in \<open>simp add: mapping_value.simps(2)\<close>)
qed simp

lemma each_more:
  "each f xs s = Some s' \<Longrightarrow> (\<And>x u v. f x u = Some v \<Longrightarrow> g x u = Some v) \<Longrightarrow> each g xs s = Some s'"
  by (induction xs arbitrary: s) (auto split: option.splits)

lemma take_section_more:
  assumes t: "take_section lib k profile root key u = Some v" and kj: "k \<le> j"
  shows "take_section lib j profile root key u = Some v"
proof -
  obtain vo where mv: "mapping_value lib k (hp_node u) key profile = Some vo"
    using t by (cases "mapping_value lib k (hp_node u) key profile") (simp_all add: take_section_def)
  show ?thesis using t by (simp only: take_section_def mv mapping_value_more[OF mv kj] option.case)
qed

lemma append_rules_more:
  assumes ar: "append_rules k lib added profile hp = Some r" and kj: "k \<le> j"
  shows "append_rules j lib added profile hp = Some r"
proof (cases profile)
  case None
  then show ?thesis using ar by (simp add: append_rules_def)
next
  case (Some p)
  obtain pr where pr: "resolve_alias k (hp_node hp) p = Some pr"
    using ar Some by (auto simp: append_rules_def Let_def split: option.splits)
  show ?thesis
  proof (cases added)
    case None
    show ?thesis using ar by (simp add: append_rules_def Let_def None Some pr resolve_more[OF pr kj])
  next
    case (Some a)
    obtain ad where ad: "resolve_alias k (hp_node hp) a = Some ad"
      using ar \<open>profile = Some p\<close> Some by (auto simp: append_rules_def Let_def split: option.splits)
    show ?thesis using ar
      by (simp only: append_rules_def Let_def Some \<open>profile = Some p\<close> pr ad resolve_more[OF pr kj] resolve_more[OF ad kj]
          option.case option.map prod.case)
  qed
qed

lemma then_do_more:
  "then_do r f = Some x \<Longrightarrow> (\<And>y. r = Some y \<Longrightarrow> r' = Some y) \<Longrightarrow> (\<And>y z. f y = Some z \<Longrightarrow> f' y = Some z) \<Longrightarrow> then_do r' f' = Some x"
  by (auto simp: then_do_def split: option.splits sum.splits)

lemma merge_rules_more: "merge_rules lib k p r hp = Some x \<Longrightarrow> k \<le> j \<Longrightarrow> merge_rules lib j p r hp = Some x"
proof -
  assume m: "merge_rules lib k p r hp = Some x" and kj: "k \<le> j"
  obtain a b where ab: "mapping_value lib k (hp_node hp) ''rules'' r = Some a"
    "mapping_value lib k (hp_node hp) ''rules'' p = Some b" using m by (auto simp: merge_rules_def split: option.splits)
  show ?thesis
    using m unfolding merge_rules_def ab mapping_value_more[OF ab(1) kj] mapping_value_more[OF ab(2) kj] prod.case option.case
    by (rule then_do_more) (auto intro: append_rules_more[OF _ kj])
qed

lemma append_rules_returns:
  assumes "\<And>a. added = Some a \<Longrightarrow> resolve_alias k (hp_node hp) a \<noteq> None"
    "\<And>p. profile = Some p \<Longrightarrow> resolve_alias k (hp_node hp) p \<noteq> None"
  shows "append_rules k lib added profile hp \<noteq> None"
proof (cases profile)
  case None
  then show ?thesis by (simp add: append_rules_def)
next
  case (Some p)
  then obtain pr where pr: "resolve_alias k (hp_node hp) p = Some pr" using assms(2) by blast
  show ?thesis
  proof (cases added)
    case None
    show ?thesis by (simp add: append_rules_def Let_def None Some pr)
  next
    case (Some a)
    then obtain ad where ad: "resolve_alias k (hp_node hp) a = Some ad" using assms(1) by blast
    show ?thesis by (simp add: append_rules_def Let_def Some \<open>profile = Some p\<close> pr ad new_node_def)
  qed
qed

lemma stands_shut: "bare_aliases h \<Longrightarrow> shut h {a. \<exists>t. denotes h a t}"
  unfolding shut_def
proof (intro ballI conjI allI impI subsetI)
  fix a c assume b: "bare_aliases h" and a: "a \<in> {a. \<exists>t. denotes h a t}" and c: "c \<in> set (nd_content (h a))"
  have k: "nd_kind (h a) \<noteq> AliasNode"
  proof
    assume "nd_kind (h a) = AliasNode"
    then have "nd_content (h a) = []" using b[unfolded bare_aliases_def, THEN spec, of a] by simp
    then show False using c by simp
  qed
  obtain kd p tg v ts where "denotes h a (Tree kd p tg v ts)" using a by (auto) (metis tree.exhaust)
  from denotes_child[OF this k c] show "c \<in> {a. \<exists>t. denotes h a t}" by blast
next
  fix a b assume "bare_aliases h" "a \<in> {a. \<exists>t. denotes h a t}" "nd_alias (h a) = Some b"
  then have k: "nd_kind (h a) = AliasNode" unfolding bare_aliases_def by (metis option.distinct(1))
  obtain t where "denotes h a t" using \<open>a \<in> _\<close> by blast
  from denotes_alias[OF this k] show "b \<in> {a. \<exists>t. denotes h a t}" using \<open>nd_alias (h a) = Some b\<close> by auto
qed

lemma hangable_smaller:
  assumes "denotes (hp_node hp) root tr" "denotes (hp_node hp) c tc" "size tc < size tr" "bare_aliases (hp_node hp)"
    "c < hp_next hp"
  shows "hangable hp root c"
proof -
  have "\<not> below (hp_node hp) c root"
  proof
    assume "below (hp_node hp) c root"
    from below_shrinks[OF this assms(2,4)] obtain t where t: "denotes (hp_node hp) root t" "size t \<le> size tc" by blast
    then show False using denotes_unique[OF assms(1) t(1)] assms(3) by simp
  qed
  then show ?thesis using assms(5) denotes_grounded[OF assms(2,4)] by (simp add: hangable_def)
qed

lemma hangable_region:
  assumes "mergeable R profile root hp" "c \<in> R" "denotes (hp_node hp) c tc" "bare_aliases (hp_node hp)"
  shows "hangable hp root c"
  using assms below_shut[of "hp_node hp" c root R] denotes_grounded[OF assms(3,4)]
  by (auto simp: mergeable_def hangable_def)

text \<open>Enough fuel to follow every alias of the documents.\<close>

lemma resolve_enough: "\<exists>K. \<forall>k\<ge>K. \<forall>a<n. (\<exists>t. denotes h a t) \<longrightarrow> resolve_alias k h a \<noteq> None"
proof (rule enough_for_all)
  fix a assume "a < n"
  show "\<exists>K. \<forall>k\<ge>K. (\<exists>t. denotes h a t) \<longrightarrow> resolve_alias k h a \<noteq> None"
  proof (cases "\<exists>t. denotes h a t")
    case True
    then show ?thesis using denotes_resolves by fastforce
  qed simp
qed


text \<open>What holds of the root while the merge goes on.\<close>

definition merging :: "'r yaml_library \<Rightarrow> heap \<Rightarrow> node_ref \<Rightarrow> heap \<Rightarrow> bool" where
  "merging lib hp root u \<longleftrightarrow> grown root hp u \<and> mapping_ok u root \<and> no_merges lib (hp_node u) root \<and> hung hp root u"

lemma take_section_keeps:
  assumes t: "take_section lib k profile root key u = Some w" and I: "merging lib hp root u"
    and ok: "mergeable R profile root hp" "keys_are_text lib"
    and hv: "\<And>v. mapping_value lib k (hp_node hp) key profile = Some (Some v) \<Longrightarrow> hangable hp root v"
  shows "merging lib hp root w"
proof -
  have u: "grown root hp u" "mapping_ok u root" "no_merges lib (hp_node u) root" "hung hp root u"
    using I by (simp_all add: merging_def)
  have same: "mapping_value lib k (hp_node u) key profile = mapping_value lib k (hp_node hp) key profile"
    by (rule grown_lookup[OF ok(1) u(1)])
  have nx: "hp_next hp \<le> hp_next u" using u(1) by (simp add: grown_def)
  have rt: "root < hp_next hp" using ok(1) by (simp add: mergeable_def mapping_ok_def)
  consider (none) "w = u" | (some) v where "mapping_value lib k (hp_node hp) key profile = Some (Some v)"
    "w = set_mapping_value root key v u"
    using t unfolding take_section_def same by (auto split: option.splits)
  then show ?thesis
  proof cases
    case some
    have h: "hangable hp root v" by (rule hv[OF some(1)])
    then have v: "v < hp_next u" using nx by (simp add: hangable_def)
    show ?thesis unfolding some(2) merging_def
      using grown_trans[OF u(1) set_mapping_value_facts(3)[OF u(2) v]] set_mapping_value_facts(2)[OF u(2) v]
        set_mapping_value_no_merges[OF u(2,3) ok(2)] hung_set[OF u(4,2) nx v _ rt] h by blast
  qed (use I in simp)
qed

lemma rules_under_items:
  "c \<in> set (rules_under k h (Some a)) \<Longrightarrow> \<exists>r. resolve_alias k h a = Some r \<and> c \<in> set (nd_content (h r))"
  by (cases "resolve_alias k h a") (auto simp: rules_under_def split: if_splits)

lemma merge_rules_hangs:
  assumes m: "merge_rules lib (Suc k) profile root hp1 = Some (Inr hp2)" and I: "merging lib hp root hp1"
    and ok: "mergeable R profile root hp"
    and same: "own_value (hp_node hp1) root ''rules'' = own_value (hp_node hp) root ''rules''"
    and hv: "\<And>a r. own_value (hp_node hp) root ''rules'' = Some a \<or>
        mapping_value lib (Suc k) (hp_node hp) ''rules'' profile = Some (Some a) \<Longrightarrow>
        resolve_alias (Suc k) (hp_node hp) a = Some r \<Longrightarrow>
        hangable hp root r \<and> Ball (set (nd_content (hp_node hp r))) (hangable hp root)"
    and small: "\<And>a. own_value (hp_node hp) root ''rules'' = Some a \<or>
        mapping_value lib (Suc k) (hp_node hp) ''rules'' profile = Some (Some a) \<Longrightarrow> a < hp_next hp"
  shows "hung hp root hp2"
proof -
  let ?h = "hp_node hp" and ?ao = "own_value (hp_node hp) root ''rules''"
  have u: "grown root hp hp1" "mapping_ok hp1 root" "no_merges lib (hp_node hp1) root" "hung hp root hp1"
    using I by (simp_all add: merging_def)
  have sh: "shut ?h {..<hp_next hp}" and rt: "root < hp_next hp" using ok by (auto simp: mergeable_def mapping_ok_def)
  have nx: "hp_next hp \<le> hp_next hp1" using u(1) by (simp add: grown_def)
  obtain po where po: "mapping_value lib (Suc k) (hp_node hp1) ''rules'' profile = Some po"
    using m by (auto simp: merge_rules_def split: option.splits)
  have po': "mapping_value lib (Suc k) ?h ''rules'' profile = Some po"
    using grown_lookup[OF ok u(1), of lib "Suc k" "''rules''"] po by simp
  have added: "mapping_value lib (Suc k) (hp_node hp1) ''rules'' root = Some ?ao"
    using mapping_value_own[OF u(3)] same by simp
  have res: "resolve_alias (Suc k) (hp_node hp1) a = resolve_alias (Suc k) ?h a" if "a < hp_next hp" for a
    using resolve_grown[OF sh that, of "hp_node hp1" "Suc k"] u(1) by (auto simp: grown_def)
  have hang: "hangable hp root r \<and> Ball (set (nd_content (hp_node hp1 r))) (hangable hp root)"
    if "?ao = Some a \<or> po = Some a" "resolve_alias (Suc k) (hp_node hp1) a = Some r" for a r
  proof -
    have r: "resolve_alias (Suc k) ?h a = Some r" using that(2) res small[of a] that(1) po' by auto
    then have h: "hangable hp root r" "Ball (set (nd_content (?h r))) (hangable hp root)"
      using hv[OF _ r] that(1) po' by auto
    then have "r \<noteq> root" "r < hp_next hp" by (auto simp: hangable_def intro: below.intros)
    then show ?thesis using h u(1) by (auto simp: grown_def)
  qed
  show ?thesis
  proof (cases po)
    case None
    then have "hp2 = hp1" using m added po by (simp add: merge_rules_def append_rules_def then_do_def Let_def)
    then show ?thesis using u(4) by simp
  next
    case (Some p)
    obtain r hp' where ar: "append_rules (Suc k) lib ?ao (Some p) hp1 = Some (Inr (r, hp'))"
      and hp2: "hp2 = (case r of None \<Rightarrow> hp' | Some n \<Rightarrow> set_mapping_value root ''rules'' n hp')"
      using m added po Some by (auto simp: merge_rules_def then_do_def split: option.splits sum.splits)
    obtain n where n: "r = Some n" "rules_node (Suc k) ?ao (Some p) hp1 n hp'" using append_rules_facts[OF ar] by blast
    have hp2': "hp2 = set_mapping_value root ''rules'' n hp'" using hp2 n(1) by simp
    show ?thesis
    proof (cases "hp' = hp1 \<and> (\<exists>a. resolve_alias (Suc k) (hp_node hp1) a = Some n \<and> (?ao = Some a \<or> Some p = Some a))")
      case True
      then have "hangable hp root n" using hang Some by auto
      then show ?thesis unfolding hp2' using hung_set[OF u(4,2) nx _ _ rt] True nx
        by (auto simp: hangable_def)
    next
      case False
      then have new: "n = hp_next hp1" "hp_next hp' = Suc n" "nd_kind (hp_node hp' n) = SequenceNode"
        "\<And>a. a \<noteq> n \<Longrightarrow> hp_node hp' a = hp_node hp1 a" using n(2) by (auto simp: rules_node_def)
      have rn: "root \<noteq> n" using u(2) new(1) by (auto simp: mapping_ok_def)
      have "nd_content (hp_node hp' n) = rules_under (Suc k) (hp_node hp1) ?ao @ rules_under (Suc k) (hp_node hp1) (Some p)"
        using n(2) new(3) by (simp add: rules_node_def rules_under_at[of "hp_node hp'" n k] resolved_def)
      moreover have "hangable hp root c" if cin: "c \<in> set (rules_under (Suc k) (hp_node hp1) vo)" and vo: "vo = ?ao \<or> vo = po" for c vo
      proof (cases vo)
        case (Some a)
        then obtain r where "resolve_alias (Suc k) (hp_node hp1) a = Some r" "c \<in> set (nd_content (hp_node hp1 r))"
          using rules_under_items cin by blast
        then show ?thesis using hang[of a r] vo Some by auto
      qed (use cin in simp)
      ultimately have items: "Ball (set (nd_content (hp_node hp' n))) (hangable hp root)" using Some by auto
      have "hung hp root hp'" unfolding hung_def
      proof
        fix c assume "c \<in> set (nd_content (hp_node hp' root))"
        then have c: "c \<in> set (nd_content (hp_node hp1 root))" using new(4) rn by simp
        then have "c \<noteq> n" using u(2) new(1) by (auto simp: mapping_ok_def)
        then show "hangable hp root c \<or> hp_next hp \<le> c \<and> c < hp_next hp' \<and> Ball (set (nd_content (hp_node hp' c))) (hangable hp root)"
          using u(4) c new by (auto simp: hung_def)
      qed
      moreover have "mapping_ok hp' root" using u(2) new rn by (auto simp: mapping_ok_def)
      ultimately show ?thesis unfolding hp2' using hung_set[OF _ _ _ _ _ rt, of hp' n "''rules''"] items nx new rn by auto
    qed
  qed
qed


text \<open>Two mappings of finite documents.\<close>

definition documents_ok :: "'r yaml_library \<Rightarrow> node_ref set \<Rightarrow> node_ref \<Rightarrow> node_ref \<Rightarrow> heap \<Rightarrow> bool" where
  "documents_ok lib R profile root hp \<longleftrightarrow>
     mergeable R profile root hp \<and> no_merges lib (hp_node hp) root \<and> bare_aliases (hp_node hp) \<and>
     nd_kind (hp_node hp profile) = MappingNode \<and>
     (\<exists>t. denotes (hp_node hp) profile t) \<and> (\<exists>t. denotes (hp_node hp) root t)"

lemma value_hangs:
  assumes "documents_ok lib R profile root hp" "mapping_value lib k (hp_node hp) key profile = Some (Some v)"
  shows "\<exists>t. denotes (hp_node hp) v t" "hangable hp root v" "v < hp_next hp"
    "resolve_alias j (hp_node hp) v = Some r \<Longrightarrow>
      hangable hp root r \<and> Ball (set (nd_content (hp_node hp r))) (hangable hp root)"
proof -
  let ?h = "hp_node hp" and ?S = "{a. \<exists>t. denotes (hp_node hp) a t}"
  have ok: "mergeable R profile root hp" "bare_aliases ?h" "profile \<in> ?S" "shut ?h R" "profile \<in> R"
    using assms(1) by (auto simp: documents_ok_def mergeable_def)
  have sh: "shut ?h ?S" by (rule stands_shut[OF ok(2)])
  have v: "v \<in> ?S" "v \<in> R" using mapping_value_in[OF assms(2)] sh ok by blast+
  have hang: "hangable hp root c" if "c \<in> R" "c \<in> ?S" for c
    using hangable_region[OF ok(1) that(1)] that(2) ok(2) by blast
  show "\<exists>t. denotes ?h v t" "hangable hp root v" "v < hp_next hp"
    using v hang ok(1) by (auto simp: mergeable_def)
  assume "resolve_alias j ?h v = Some r"
  then have "r \<in> R" "r \<in> ?S" using resolve_shut v sh ok(4) by blast+
  moreover have "set (nd_content (?h r)) \<subseteq> R" "set (nd_content (?h r)) \<subseteq> ?S"
    using calculation sh ok(4) by (auto simp: shut_def)
  ultimately show "hangable hp root r \<and> Ball (set (nd_content (?h r))) (hangable hp root)" using hang by blast
qed

lemma own_hangs:
  assumes "documents_ok lib R profile root hp" "a \<in> set (nd_content (hp_node hp root))"
  shows "\<exists>t. denotes (hp_node hp) a t" "hangable hp root a" "a < hp_next hp"
    "resolve_alias j (hp_node hp) a = Some r \<Longrightarrow>
      hangable hp root r \<and> Ball (set (nd_content (hp_node hp r))) (hangable hp root)"
proof -
  let ?h = "hp_node hp"
  have ok: "mergeable R profile root hp" "bare_aliases ?h" "nd_kind (?h root) \<noteq> AliasNode"
    "shut ?h {..<hp_next hp}" "root < hp_next hp"
    using assms(1) by (auto simp: documents_ok_def mergeable_def mapping_ok_def no_merges_def)
  obtain kd p tg v ts where tr: "denotes ?h root (Tree kd p tg v ts)"
    using assms(1) unfolding documents_ok_def by (metis tree.exhaust)
  obtain t where t: "t \<in> set ts" "denotes ?h a t" using denotes_child[OF tr ok(3) assms(2)] by blast
  have small: "size t < size (Tree kd p tg v ts)" by (rule size_part[OF t(1)])
  show a: "a < hp_next hp" using ok(4,5) assms(2) by (auto simp: shut_def)
  show "\<exists>t. denotes ?h a t" using t(2) by blast
  show "hangable hp root a" by (rule hangable_smaller[OF tr t(2) small ok(2) a])
  assume r: "resolve_alias j ?h a = Some r"
  have dr: "denotes ?h r t" using t(2) denotes_leads[OF resolve_leads[OF r]] by simp
  have rn: "r < hp_next hp" using resolve_shut[OF r ok(4)] a by simp
  have "hangable hp root c" if c: "c \<in> set (nd_content (?h r))" for c
  proof -
    have k: "nd_kind (?h r) \<noteq> AliasNode"
    proof
      assume "nd_kind (?h r) = AliasNode"
      then have "nd_content (?h r) = []" using ok(2)[unfolded bare_aliases_def, THEN spec, of r] by simp
      then show False using c by simp
    qed
    obtain kd' p' tg' v' ts' where eq: "t = Tree kd' p' tg' v' ts'" by (cases t)
    obtain t' where t': "t' \<in> set ts'" "denotes ?h c t'" using denotes_child[OF dr[unfolded eq] k c] by blast
    have "size t' < size t" using size_part[OF t'(1)] eq by simp
    then have s': "size t' < size (Tree kd p tg v ts)" using small by simp
    have "c < hp_next hp" using c rn ok(4) by (auto simp: shut_def)
    then show ?thesis by (rule hangable_smaller[OF tr t'(2) s' ok(2)])
  qed
  then show "hangable hp root r \<and> Ball (set (nd_content (?h r))) (hangable hp root)"
    using hangable_smaller[OF tr dr small ok(2) rn] by blast
qed

lemma sections_return:
  assumes ok: "documents_ok lib R profile root hp" "keys_are_text lib"
    and found: "\<And>key. key \<in> set ks \<Longrightarrow> mapping_value lib k (hp_node hp) key profile \<noteq> None"
  shows "\<exists>u. each (take_section lib k profile root) ks hp = Some u \<and> merging lib hp root u"
proof (rule each_returns)
  have m: "mergeable R profile root hp" using ok(1) by (simp add: documents_ok_def)
  show "merging lib hp root hp"
    using ok(1) own_hangs(2)[OF ok(1)] by (auto simp: merging_def documents_ok_def mergeable_def hung_def)
  fix key u assume key: "key \<in> set ks" and I: "merging lib hp root u"
  have "mapping_value lib k (hp_node u) key profile \<noteq> None"
    using found[OF key] grown_lookup[OF m, of u lib k key] I by (simp add: merging_def)
  then have "\<exists>w. take_section lib k profile root key u = Some w"
    by (auto simp: take_section_def split: option.splits)
  then obtain w where "take_section lib k profile root key u = Some w" ..
  then show "\<exists>w. take_section lib k profile root key u = Some w \<and> merging lib hp root w"
    using take_section_keeps[OF _ I m ok(2)] value_hangs(2)[OF ok(1)] by blast
qed


text \<open>From some fuel on, the sections and the rules are merged alike, or the rules fail alike.\<close>

lemma rules_settle:
  assumes ok: "documents_ok lib R profile root hp" "keys_are_text lib"
  obtains K hp1 res where "\<And>k. K \<le> k \<Longrightarrow> each (take_section lib k profile root) profile_base_sections hp = Some hp1"
    "\<And>k. K \<le> k \<Longrightarrow> merge_rules lib k profile root hp1 = Some res"
    "\<And>hp2. res = Inr hp2 \<Longrightarrow> grounded (hp_node hp2) root"
proof -
  let ?h = "hp_node hp"
  have m: "mergeable R profile root hp" "nd_kind (?h profile) \<noteq> AliasNode" "shut ?h {..<hp_next hp}"
    using ok(1) by (auto simp: documents_ok_def mergeable_def)
  obtain tp where tp: "denotes ?h profile tp" using ok(1) by (auto simp: documents_ok_def)
  obtain K1 where K1: "\<And>k key. K1 \<le> k \<Longrightarrow> key \<in> set (''rules'' # profile_base_sections) \<Longrightarrow>
      mapping_value lib k ?h key profile \<noteq> None"
    using enough_for_list[where P = "\<lambda>key k. mapping_value lib k ?h key profile \<noteq> None",
        OF mapping_value_returns[OF tp m(2)]] by blast
  obtain K2 where K2: "\<And>k a t. K2 \<le> k \<Longrightarrow> a < hp_next hp \<Longrightarrow> denotes ?h a t \<Longrightarrow> resolve_alias k ?h a \<noteq> None"
    using resolve_enough[of "hp_next hp" ?h] by blast
  define j where "j = max K1 K2"
  let ?k = "Suc j"
  have big: "K1 \<le> ?k" "K2 \<le> ?k" by (simp_all add: j_def)
  obtain hp1 where hp1: "each (take_section lib ?k profile root) profile_base_sections hp = Some hp1" "merging lib hp root hp1"
    using sections_return[OF ok, of profile_base_sections ?k] K1[OF big(1)] by auto
  have u: "grown root hp hp1" "mapping_ok hp1 root" "no_merges lib (hp_node hp1) root"
    using hp1(2) by (simp_all add: merging_def)
  have rules1: "own_value (hp_node hp1) root ''rules'' = own_value ?h root ''rules''"
    using take_sections[OF hp1(1) m(1)] by (simp add: profile_base_sections_def)
  obtain po where po: "mapping_value lib ?k ?h ''rules'' profile = Some po" using K1[OF big(1), of "''rules''"] by auto
  have po1: "mapping_value lib ?k (hp_node hp1) ''rules'' profile = Some po"
    using grown_lookup[OF m(1) u(1), of lib ?k "''rules''"] po by simp
  have src: "(\<exists>t. denotes ?h a t) \<and> a < hp_next hp \<and> (\<forall>r. resolve_alias ?k ?h a = Some r \<longrightarrow>
      hangable hp root r \<and> Ball (set (nd_content (?h r))) (hangable hp root))"
    if a: "own_value ?h root ''rules'' = Some a \<or> mapping_value lib ?k ?h ''rules'' profile = Some (Some a)" for a
    using a
  proof
    assume "own_value ?h root ''rules'' = Some a"
    note o = own_hangs[OF ok(1) own_value_in[OF this]]
    show ?thesis using o(1,3) o(4)[of ?k] by blast
  next
    assume "mapping_value lib ?k ?h ''rules'' profile = Some (Some a)"
    note o = value_hangs[OF ok(1) this]
    show ?thesis using o(1,3) o(4)[of ?k] by blast
  qed
  have res: "resolve_alias ?k (hp_node hp1) a \<noteq> None"
    if a: "own_value ?h root ''rules'' = Some a \<or> po = Some a" for a
  proof -
    have d: "\<exists>t. denotes ?h a t" "a < hp_next hp" using src[of a] a po by auto
    have "resolve_alias ?k (hp_node hp1) a = resolve_alias ?k ?h a"
      using resolve_grown[OF m(3) d(2), of "hp_node hp1" ?k] u(1) by (auto simp: grown_def)
    then show ?thesis using K2[OF big(2) d(2)] d(1) by auto
  qed
  have added: "mapping_value lib ?k (hp_node hp1) ''rules'' root = Some (own_value ?h root ''rules'')"
    using mapping_value_own[OF u(3)] rules1 by simp
  have "append_rules ?k lib (own_value ?h root ''rules'') po hp1 \<noteq> None"
    by (rule append_rules_returns) (use res in blast)+
  then have "\<exists>out. merge_rules lib ?k profile root hp1 = Some out"
    using added po1 by (auto simp: merge_rules_def then_do_def split: sum.splits)
  then obtain out where out: "merge_rules lib ?k profile root hp1 = Some out" ..
  have "grounded (hp_node hp2) root" if "out = Inr hp2" for hp2
  proof -
    have mr: "merge_rules lib ?k profile root hp1 = Some (Inr hp2)" using out that by simp
    have g: "grown root hp hp2" using merge_rules_facts[OF mr m(1) u rules1 po] by blast
    have "hung hp root hp2" by (rule merge_rules_hangs[OF mr hp1(2) m(1) rules1]) (use src in blast)+
    from hung_grounded[OF this m(3) g] show ?thesis .
  qed
  moreover have "each (take_section lib k profile root) profile_base_sections hp = Some hp1" if "?k \<le> k" for k
    using each_more[OF hp1(1)] take_section_more[OF _ that] by blast
  moreover have "merge_rules lib k profile root hp1 = Some out" if "?k \<le> k" for k
    by (rule merge_rules_more[OF out that])
  ultimately show thesis by (rule that[of ?k hp1 out, rotated 2])
qed

lemma merge_returns:
  assumes ok: "documents_ok lib R profile root hp" "keys_are_text lib"
  shows "\<exists>K. \<forall>k\<ge>K. merge_mappings lib k retag profile root hp \<noteq> None"
proof -
  obtain K hp1 res where s: "\<And>k. K \<le> k \<Longrightarrow> each (take_section lib k profile root) profile_base_sections hp = Some hp1"
    "\<And>k. K \<le> k \<Longrightarrow> merge_rules lib k profile root hp1 = Some res"
    "\<And>hp2. res = Inr hp2 \<Longrightarrow> grounded (hp_node hp2) root" using rules_settle[OF ok] by metis
  show ?thesis
  proof (cases res)
    case (Inl e)
    have "merge_mappings lib k retag profile root hp \<noteq> None" if "K \<le> k" for k
      by (simp add: merge_mappings_def s(1)[OF that] s(2)[OF that] Inl then_do_def)
    then show ?thesis by blast
  next
    case (Inr hp2)
    obtain L where L: "\<And>k. L \<le> k \<Longrightarrow> retag_short_ids k root (hp_node hp2) \<noteq> None"
      using retag_short_ids_returns[OF s(3)[OF Inr]] by (metis option.distinct(1))
    have "merge_mappings lib k retag profile root hp \<noteq> None" if "max K L \<le> k" for k
    proof -
      have k: "K \<le> k" "L \<le> k" using that by simp_all
      show ?thesis using L[OF k(2)]
        by (auto simp: merge_mappings_def s(1)[OF k(1)] s(2)[OF k(1)] Inr then_do_def new_node_def)
    qed
    then show ?thesis by blast
  qed
qed

end
