(* ===== verification/Profile_Documents.thy ===== *)
theory Profile_Documents
  imports Profile_Base
begin

text \<open>
  The properties of merged and written profiles, over the lemmas of \<open>Profile_Base\<close>, with a small pair of
  documents they are applied to.
\<close>

subsection \<open>The merge\<close>

text \<open>The only error of a merge: rules on both sides, of which one is not a list.\<close>

definition rules_clash :: "nat \<Rightarrow> nodes \<Rightarrow> node_ref option \<Rightarrow> node_ref option \<Rightarrow> bool" where
  "rules_clash k h added profile =
     (case (Option.bind added (resolve_alias k h), Option.bind profile (resolve_alias k h)) of
        (Some a, Some p) \<Rightarrow> nd_kind (h a) \<noteq> SequenceNode \<or> nd_kind (h p) \<noteq> SequenceNode
      | _ \<Rightarrow> False)"

lemma append_rules_error:
  assumes "append_rules k lib added profile hp = Some (Inl e)"
  shows "rules_clash k (hp_node hp) added profile"
proof (cases profile)
  case None
  then show ?thesis using assms by (simp add: append_rules_def)
next
  case (Some p)
  obtain pr where pr: "resolve_alias k (hp_node hp) p = Some pr"
    using assms Some by (auto simp: append_rules_def Let_def split: option.splits)
  show ?thesis
  proof (cases added)
    case None
    then show ?thesis using assms Some pr by (simp add: append_rules_def Let_def)
  next
    case (Some a)
    obtain ad where ad: "resolve_alias k (hp_node hp) a = Some ad"
      using assms \<open>profile = Some p\<close> Some by (auto simp: append_rules_def Let_def split: option.splits)
    show ?thesis using assms \<open>profile = Some p\<close> Some pr ad
      by (auto simp: append_rules_def Let_def rules_clash_def rules_list_def new_node_def split: if_splits)
  qed
qed

lemma rules_clash_grown:
  assumes "rules_clash k (hp_node hp1) added profile" "shut (hp_node hp) {..<hp_next hp}" "grown m hp hp1"
    "\<And>a. added = Some a \<or> profile = Some a \<Longrightarrow> a < hp_next hp"
  shows "rules_clash k (hp_node hp) added profile"
proof -
  have r: "resolve_alias k (hp_node hp1) a = resolve_alias k (hp_node hp) a \<and>
      (\<forall>b. resolve_alias k (hp_node hp) a = Some b \<longrightarrow> b < hp_next hp)" if "added = Some a \<or> profile = Some a" for a
    by (rule resolve_grown[OF assms(2) assms(4)[OF that]]) (use assms(3) in \<open>auto simp: grown_def\<close>)
  have kinds: "nd_kind (hp_node hp1 b) = nd_kind (hp_node hp b)" if "b < hp_next hp" for b
    using that assms(3) by (simp add: grown_def)
  obtain a p where ap: "added = Some a" "profile = Some p"
    using assms(1) by (cases added; cases profile) (auto simp: rules_clash_def split: option.splits)
  show ?thesis using assms(1) r[of a] r[of p] kinds ap by (auto simp: rules_clash_def split: option.splits)
qed

lemma merge_error:
  assumes "merge_mappings lib (Suc k) retag profile root hp = Some (Inl e)" "documents_ok lib R profile root hp"
    "keys_are_text lib"
  shows "\<exists>po. mapping_value lib (Suc k) (hp_node hp) ''rules'' profile = Some po \<and>
    rules_clash (Suc k) (hp_node hp) (own_value (hp_node hp) root ''rules'') po"
proof -
  let ?h = "hp_node hp"
  have m: "mergeable R profile root hp" "no_merges lib ?h root" "shut ?h {..<hp_next hp}"
    using assms(2) by (auto simp: documents_ok_def mergeable_def)
  obtain hp1 where hp1: "each (take_section lib (Suc k) profile root) profile_base_sections hp = Some hp1"
    "merge_rules lib (Suc k) profile root hp1 = Some (Inl e)"
    using assms(1) by (auto simp: merge_mappings_def then_do_def new_node_def split: option.splits sum.splits if_splits)
  have g: "grown root hp hp1" using take_sections[OF hp1(1) m(1)] by blast
  have nm: "no_merges lib (hp_node hp1) root" by (rule take_sections_no_merges[OF hp1(1) m(1,2) assms(3)])
  have rules1: "own_value (hp_node hp1) root ''rules'' = own_value ?h root ''rules''"
    using take_sections[OF hp1(1) m(1)] by (simp add: profile_base_sections_def)
  have added: "mapping_value lib (Suc k) (hp_node hp1) ''rules'' root = Some (own_value ?h root ''rules'')"
    using mapping_value_own[OF nm] rules1 by simp
  obtain po where po1: "mapping_value lib (Suc k) (hp_node hp1) ''rules'' profile = Some po"
    using hp1(2) by (auto simp: merge_rules_def split: option.splits)
  then have po: "mapping_value lib (Suc k) ?h ''rules'' profile = Some po"
    using grown_lookup[OF m(1) g, of lib "Suc k" "''rules''"] by simp
  have "append_rules (Suc k) lib (own_value ?h root ''rules'') po hp1 = Some (Inl e)"
    using hp1(2) added po1 by (auto simp: merge_rules_def then_do_def split: option.splits sum.splits)
  from append_rules_error[OF this] have c: "rules_clash (Suc k) (hp_node hp1) (own_value ?h root ''rules'') po" .
  have "rules_clash (Suc k) ?h (own_value ?h root ''rules'') po"
    by (rule rules_clash_grown[OF c m(3) g])
      (use own_hangs(3)[OF assms(2)] own_value_in[of ?h root "''rules''"] value_hangs(3)[OF assms(2), of "Suc k" "''rules''"] po in blast)
  then show ?thesis using po by blast
qed

text \<open>What a merge makes of a profile and an overlay, and that it makes it.\<close>

definition merged :: "'r yaml_library \<Rightarrow> nat \<Rightarrow> bool \<Rightarrow> node_ref \<Rightarrow> node_ref \<Rightarrow> nodes \<Rightarrow> node_ref \<Rightarrow> nodes \<Rightarrow> bool" where
  "merged lib k retag profile root h d h' \<longleftrightarrow>
     nd_content (h' d) = [root] \<and>
     (\<forall>key. key \<noteq> ''rules'' \<longrightarrow> own_value h' root key =
        (if key \<in> set profile_base_sections then section_value lib k h profile root key else own_value h root key)) \<and>
     (\<exists>po. mapping_value lib k h ''rules'' profile = Some po \<and>
        rules_under k h' (own_value h' root ''rules'') = rules_under k h (own_value h root ''rules'') @ rules_under k h po) \<and>
     (\<forall>m x. retag \<and> below h' root m \<and> short_id_value h' m x \<longrightarrow> \<not> number (h' x))"

lemma merged_mappings:
  assumes "documents_ok lib R profile root hp" "keys_are_text lib"
  shows "\<exists>K. \<forall>k\<ge>K.
    (case merge_mappings lib k retag profile root hp of
       None \<Rightarrow> False
     | Some (Inl e) \<Rightarrow> \<exists>po. mapping_value lib k (hp_node hp) ''rules'' profile = Some po \<and>
         rules_clash k (hp_node hp) (own_value (hp_node hp) root ''rules'') po
     | Some (Inr (d, hp')) \<Rightarrow> merged lib k retag profile root (hp_node hp) d (hp_node hp'))"
proof -
  obtain K where K: "\<And>k. K \<le> k \<Longrightarrow> merge_mappings lib k retag profile root hp \<noteq> None"
    using merge_returns[OF assms] by metis
  have m: "mergeable R profile root hp" "no_merges lib (hp_node hp) root" using assms(1) by (simp_all add: documents_ok_def)
  show ?thesis
  proof (intro exI[of _ "Suc K"] allI impI)
    fix k assume "Suc K \<le> k"
    then obtain j where j: "k = Suc j" "K \<le> k" by (cases k) auto
    obtain out where out: "merge_mappings lib k retag profile root hp = Some out" using K[OF j(2)] by blast
    show "(case merge_mappings lib k retag profile root hp of
       None \<Rightarrow> False
     | Some (Inl e) \<Rightarrow> \<exists>po. mapping_value lib k (hp_node hp) ''rules'' profile = Some po \<and>
         rules_clash k (hp_node hp) (own_value (hp_node hp) root ''rules'') po
     | Some (Inr (d, hp')) \<Rightarrow> merged lib k retag profile root (hp_node hp) d (hp_node hp'))"
    proof (cases out)
      case (Inl e)
      then show ?thesis using out merge_error[OF _ assms, of j retag e] j(1) by simp
    next
      case (Inr r)
      obtain d hp' where r: "r = (d, hp')" by (cases r)
      have e: "merge_mappings lib (Suc j) retag profile root hp = Some (Inr (d, hp'))" using out Inr r j(1) by simp
      note f = merged_facts[OF e m assms(2)]
      have "merged lib (Suc j) retag profile root (hp_node hp) d (hp_node hp')"
        unfolding merged_def using f(1,3) f(2) f(4) by blast
      then show ?thesis using e j(1) by simp
    qed
  qed
qed


text \<open>The documents \<open>{proxies: [], rules: [MATCH,DIRECT]}\<close> and \<open>{rules: [DOMAIN,a,DIRECT], mode: rule}\<close>.\<close>

definition text_node :: "string \<Rightarrow> node" where
  "text_node = (\<lambda>v. plain_node ScalarNode ''!!str'' v [])"

definition nodes_of :: "node list \<Rightarrow> nodes" where
  "nodes_of ns = (\<lambda>a. if a < length ns then ns ! a else zero_node)"

definition demo_documents :: heap where
  "demo_documents = \<lparr>hp_node = nodes_of [zero_node,
      plain_node MappingNode ''!!map'' [] [2, 3, 4, 5], text_node ''proxies'', plain_node SequenceNode ''!!seq'' [] [],
      text_node ''rules'', plain_node SequenceNode ''!!seq'' [] [6], text_node ''MATCH,DIRECT'',
      plain_node MappingNode ''!!map'' [] [8, 9, 10, 11], text_node ''rules'', plain_node SequenceNode ''!!seq'' [] [12],
      text_node ''mode'', text_node ''rule'', text_node ''DOMAIN,a,DIRECT''], hp_next = 13\<rparr>"

definition demo_yaml :: "nat yaml_library" where
  "demo_yaml = \<lparr>yl_short_tag = nd_tag, yl_parse = (\<lambda>text hp. Inl ''empty''), yl_decode = (\<lambda>h a. Inr 0),
     yl_unmarshal = (\<lambda>text. Inr 0), yl_encode = (\<lambda>h a. Inr (nd_value (h a) @ ''\<newline>''))\<rparr>"

lemma denotes_leaf:
  "nd_kind (h a) \<noteq> AliasNode \<Longrightarrow> nd_content (h a) = [] \<Longrightarrow> \<exists>t. denotes h a t"
  using denotes.in_place[of h a "[]"] by auto

lemma denotes_parts:
  "nd_kind (h a) \<noteq> AliasNode \<Longrightarrow> (\<And>c. c \<in> set (nd_content (h a)) \<Longrightarrow> \<exists>t. denotes h c t) \<Longrightarrow> \<exists>t. denotes h a t"
  using denotes.in_place[of h a] children_stand[of "nd_content (h a)" h] by blast

lemma demo_node [simp]:
  "hp_node demo_documents = nodes_of [zero_node,
      plain_node MappingNode ''!!map'' [] [2, 3, 4, 5], text_node ''proxies'', plain_node SequenceNode ''!!seq'' [] [],
      text_node ''rules'', plain_node SequenceNode ''!!seq'' [] [6], text_node ''MATCH,DIRECT'',
      plain_node MappingNode ''!!map'' [] [8, 9, 10, 11], text_node ''rules'', plain_node SequenceNode ''!!seq'' [] [12],
      text_node ''mode'', text_node ''rule'', text_node ''DOMAIN,a,DIRECT'']"
  "hp_next demo_documents = 13"
  by (simp_all add: demo_documents_def)

lemmas demo_eval = nodes_of_def text_node_def plain_node_def zero_node_def

lemma bare_nodes_of:
  "list_all (\<lambda>n. if nd_kind n = AliasNode then nd_content n = [] else nd_alias n = None) ns \<Longrightarrow> bare_aliases (nodes_of ns)"
  by (auto simp: bare_aliases_def nodes_of_def list_all_length zero_node_def)

lemma shut_nodes_of:
  "n = length ns \<Longrightarrow> list_all (\<lambda>x. list_all (\<lambda>c. c < n) (nd_content x) \<and> nd_alias x = None) ns \<Longrightarrow>
   shut (nodes_of ns) {..<n}"
  by (fastforce simp: shut_def nodes_of_def list_all_length in_set_conv_nth)

lemma demo_documents_ok: "documents_ok demo_yaml {1, 2, 3, 4, 5, 6} 1 7 demo_documents"
proof -
  let ?h = "hp_node demo_documents"
  have bare: "bare_aliases ?h" unfolding demo_node by (rule bare_nodes_of) (simp add: demo_eval)
  have shut1: "shut ?h {1, 2, 3, 4, 5, 6}" by (simp add: shut_def demo_eval)
  have shut2: "shut ?h {..<13}" unfolding demo_node by (rule shut_nodes_of) (simp_all add: demo_eval)
  have leaves: "\<exists>t. denotes ?h a t" if "a \<in> {2, 3, 4, 6, 8, 10, 11, 12}" for a
    using that by (intro denotes_leaf) (auto simp: demo_eval)
  have l5: "\<exists>t. denotes ?h 5 t" by (rule denotes_parts) (use leaves in \<open>auto simp: demo_eval\<close>)
  have l9: "\<exists>t. denotes ?h 9 t" by (rule denotes_parts) (use leaves in \<open>auto simp: demo_eval\<close>)
  have "\<exists>t. denotes ?h 1 t" by (rule denotes_parts) (use leaves l5 in \<open>auto simp: demo_eval\<close>)
  moreover have "\<exists>t. denotes ?h 7 t" by (rule denotes_parts) (use leaves l9 in \<open>auto simp: demo_eval\<close>)
  moreover have "mapping_ok demo_documents 7" by (simp add: mapping_ok_def demo_eval)
  moreover have "no_merges demo_yaml ?h 7"
    by (simp add: no_merges_def scalar_pairs_def is_merge_def demo_yaml_def demo_eval)
  ultimately show ?thesis using bare shut1 shut2
    unfolding documents_ok_def mergeable_def by (simp add: demo_eval del: demo_node(1)) (simp add: demo_eval)
qed

text \<open>C29. Merging the overlay of the host with a profile returns. The merged document has the proxies,
  proxy groups and sub-rules of the profile where it has them and every other section of the overlay; its
  rules are those of the overlay followed by those of the profile; and when the profile names short ids, no
  short id its contents reach is left a number. The one error is rules on both sides that are no lists.\<close>

theorem merged_profile:
  assumes "documents_ok lib R profile root hp" "keys_are_text lib"
  shows "\<exists>K. \<forall>k\<ge>K.
    (case merge_mappings lib k retag profile root hp of
       None \<Rightarrow> False
     | Some (Inl e) \<Rightarrow> \<exists>po. mapping_value lib k (hp_node hp) ''rules'' profile = Some po \<and>
         rules_clash k (hp_node hp) (own_value (hp_node hp) root ''rules'') po
     | Some (Inr (d, hp')) \<Rightarrow> merged lib k retag profile root (hp_node hp) d (hp_node hp'))"
  by (rule merged_mappings[OF assms])

theorem merged_profile_witness:
  "\<exists>K. \<forall>k\<ge>K. merge_mappings demo_yaml k True 1 7 demo_documents \<noteq> None"
proof -
  have "keys_are_text demo_yaml" by (simp add: keys_are_text_def demo_yaml_def demo_eval)
  from merged_profile[OF demo_documents_ok this, of True] show ?thesis by (metis (no_types, lifting) option.simps(4))
qed


subsection \<open>Aliases\<close>

text \<open>The document \<open>{x: &a [v], y: *a}\<close>.\<close>

definition demo_aliased :: nodes where
  "demo_aliased = nodes_of [zero_node, plain_node MappingNode ''!!map'' [] [2, 3, 5, 6], text_node ''x'',
     (plain_node SequenceNode ''!!seq'' [] [4])\<lparr>nd_anchor := ''a''\<rparr>, text_node ''v'', text_node ''y'',
     (plain_node AliasNode [] ''a'' [])\<lparr>nd_alias := Some 3\<rparr>, plain_node DocumentNode [] [] [1]]"

lemma demo_aliased_stands: "\<exists>t. denotes demo_aliased 1 t"
proof -
  let ?h = demo_aliased
  have leaves: "\<exists>t. denotes ?h a t" if "a \<in> {2, 4, 5}" for a
    using that by (intro denotes_leaf) (auto simp: demo_aliased_def demo_eval)
  have l3: "\<exists>t. denotes ?h 3 t" by (rule denotes_parts) (use leaves in \<open>auto simp: demo_aliased_def demo_eval\<close>)
  then have l6: "\<exists>t. denotes ?h 6 t"
    using denotes.through_alias[of ?h 6 3] by (auto simp: demo_aliased_def demo_eval)
  show ?thesis by (rule denotes_parts) (use leaves l3 l6 in \<open>auto simp: demo_aliased_def demo_eval\<close>)
qed

text \<open>C30. Writing the aliases of a finite document out returns, leaves the document the same tree, and
  leaves no alias anywhere under its root, so that no anchor has to be kept.\<close>

theorem aliases_written_out:
  assumes "denotes h root t" "nd_kind (h root) \<noteq> AliasNode"
  shows "\<exists>K. \<forall>k\<ge>K. \<exists>h'. inline_aliases k root h = Some h' \<and> denotes h' root t \<and>
    (\<forall>b. below h' root b \<longrightarrow> nd_kind (h' b) \<noteq> AliasNode)"
proof -
  obtain K where K: "\<And>k. K \<le> k \<Longrightarrow> \<exists>h'. inline_aliases k root h = Some h'"
    using inline_aliases_returns[OF assms] by blast
  show ?thesis
  proof (intro exI[of _ K] allI impI)
    fix k assume "K \<le> k"
    then obtain h' where h': "inline_aliases k root h = Some h'" using K by blast
    then show "\<exists>h'. inline_aliases k root h = Some h' \<and> denotes h' root t \<and>
        (\<forall>b. below h' root b \<longrightarrow> nd_kind (h' b) \<noteq> AliasNode)"
      using inline_aliases_facts[OF h' assms] by blast
  qed
qed

theorem aliases_written_out_witness:
  "\<exists>K t. denotes demo_aliased 1 t \<and> (\<forall>k\<ge>K. \<exists>h'. inline_aliases k 1 demo_aliased = Some h' \<and> denotes h' 1 t)"
proof -
  obtain t where t: "denotes demo_aliased 1 t" using demo_aliased_stands ..
  have "nd_kind (demo_aliased 1) \<noteq> AliasNode" by (simp add: demo_aliased_def demo_eval)
  from aliases_written_out[OF t this] show ?thesis using t by meson
qed

text \<open>
  A short id behind an alias: the profile \<open>{x-reality: &r {short-id: 0123}, proxies: [{reality-opts: *r}]}\<close>
  under an empty overlay. Retagging follows the contents of the merged root, and the anchored mapping is
  not among them, so the id the proxy leads to is still a number.
\<close>

definition demo_short_id :: heap where
  "demo_short_id = \<lparr>hp_node = nodes_of [zero_node,
      plain_node MappingNode ''!!map'' [] [2, 3, 6, 7], text_node ''x-reality'',
      (plain_node MappingNode ''!!map'' [] [4, 5])\<lparr>nd_anchor := ''r''\<rparr>, text_node ''short-id'',
      plain_node ScalarNode ''!!int'' ''0123'' [], text_node ''proxies'', plain_node SequenceNode ''!!seq'' [] [8],
      plain_node MappingNode ''!!map'' [] [9, 10], text_node ''reality-opts'',
      (plain_node AliasNode [] ''r'' [])\<lparr>nd_alias := Some 3\<rparr>, plain_node MappingNode ''!!map'' [] []], hp_next = 12\<rparr>"

lemma short_id_behind_an_alias:
  "case merge_mappings demo_yaml 6 True 1 11 demo_short_id of
     Some (Inr (d, hp')) \<Rightarrow> own_value (hp_node hp') 11 ''proxies'' = Some 7 \<and>
       nd_content (hp_node hp' 7) = [8] \<and> resolve_alias 6 (hp_node hp') (nd_content (hp_node hp' 8) ! 1) = Some 3 \<and>
       nd_content (hp_node hp' 3) = [4, 5] \<and> number (hp_node hp' 5)
   | _ \<Rightarrow> False"
  by code_simp

text \<open>Retagging the whole profile document restores it, as reading the profile by itself does.\<close>

lemma short_id_of_the_document:
  "case retag_short_ids 6 1 (hp_node demo_short_id) of Some (retagged, h) \<Rightarrow> retagged \<and> \<not> number (h 5) | None \<Rightarrow> False"
  by code_simp


subsection \<open>The file\<close>

text \<open>What is written of a document, when it can be encoded, and the temporary file it goes through.\<close>

definition written_text :: "nat \<Rightarrow> 'r yaml_library \<Rightarrow> sink \<Rightarrow> node_ref \<Rightarrow> heap \<Rightarrow> string option" where
  "written_text k lib wr document hp =
     (case inline_aliases k document (hp_node hp) of
        None \<Rightarrow> None
      | Some h \<Rightarrow>
          (case encode_config_mapping lib wr (hd (nd_content (h document))) ([], hp\<lparr>hp_node := h\<rparr>) of
             Inl _ \<Rightarrow> None
           | Inr (out, _) \<Rightarrow> Some out))"

definition temporary_files :: "document_answers \<Rightarrow> string \<Rightarrow> string set" where
  "temporary_files a path = (case da_create a of Inl _ \<Rightarrow> {} | Inr name \<Rightarrow> {dir_of path @ ''/'' @ name})"

lemma failures_empty: "failures xs = [] \<longleftrightarrow> (\<forall>x\<in>set xs. x = None)"
  by (induction xs) (auto simp: failures_def List.map_filter_def split: option.splits)

lemma write_document_cases:
  assumes "write_document_file k lib a dir document s = Some (r, s')"
  obtains (failed) e where "r = Inl e" "\<And>p. (\<forall>name. da_create a = Inr name \<longrightarrow> p \<noteq> dir @ ''/'' @ name) \<Longrightarrow> pf_files s' p = pf_files s p"
  | (written) name out where "da_create a = Inr name" "r = Inr (dir @ ''/'' @ name)"
      "written_text k lib (da_write a) document (pf_heap s) = Some out" "pf_files s' = (pf_files s)(dir @ ''/'' @ name \<mapsto> out)"
proof -
  obtain h where h: "inline_aliases k document (hp_node (pf_heap s)) = Some h"
    using assms by (auto simp: write_document_file_def split: option.splits)
  show thesis
  proof (cases "da_create a")
    case (Inl e)
    then have "r = Inl e" "pf_files s' = pf_files s" using assms h by (auto simp: write_document_file_def Let_def)
    then show thesis by (intro failed) simp_all
  next
    case (Inr name)
    let ?w = "encode_config_mapping lib (da_write a) (hd (nd_content (h document))) ([], (pf_heap s)\<lparr>hp_node := h\<rparr>)"
    let ?errs = "failures [case ?w of Inl e \<Rightarrow> Some e | Inr _ \<Rightarrow> None, da_flush a, da_close a, da_chmod a]"
    show thesis
    proof (cases "?errs = []")
      case True
      then obtain out hp where w: "?w = Inr (out, hp)" by (cases ?w) (auto simp: failures_empty)
      have "r = Inr (dir @ ''/'' @ name)" "pf_files s' = (pf_files s)(dir @ ''/'' @ name \<mapsto> out)"
        using assms h Inr True w by (auto simp: write_document_file_def Let_def put_file_def)
      then show thesis using written Inr h w by (simp add: written_text_def)
    next
      case False
      then obtain x xs where "?errs = x # xs" by (cases ?errs) auto
      then have "r = Inl (join ''\<newline>'' ?errs)"
        "s' = remove_file a (dir @ ''/'' @ name) (put_file (dir @ ''/'' @ name) (da_partial a) (s\<lparr>pf_heap := (pf_heap s)\<lparr>hp_node := h\<rparr>\<rparr>))"
        using assms h Inr by (auto simp: write_document_file_def Let_def split: sum.splits list.splits)
      then show thesis using Inr by (intro failed) (auto simp: remove_file_def put_file_def)
    qed
  qed
qed

lemma write_document_returns:
  "inline_aliases k document (hp_node (pf_heap s)) = Some h \<Longrightarrow> \<exists>r s'. write_document_file k lib a dir document s = Some (r, s')"
  by (auto simp: write_document_file_def Let_def)



definition demo_answers :: document_answers where
  "demo_answers = \<lparr>da_create = Inr ''.config-1.yaml'', da_write = (\<lambda>_. None), da_flush = None, da_close = None,
     da_chmod = None, da_rename = None, da_removed = True, da_partial = []\<rparr>"

definition demo_profile_state :: profile_state where
  "demo_profile_state = \<lparr>pf_heap = \<lparr>hp_node = demo_aliased, hp_next = 8\<rparr>,
     pf_files = [''/h/config.yaml'' \<mapsto> ''old'', ''/h/other'' \<mapsto> ''kept''], pf_releases = 0, pf_reclaims = 0\<rparr>"


end
