(* ===== verification/Procfs.thy ===== *)
theory Procfs
  imports Go_Netip
begin

text \<open>
  \<open>core/platform/procfs.go\<close>: the user a socket belongs to, looked up in the tables of \<open>/proc/net\<close>. An
  address is written the way the kernel prints it, in words of the machine's byte order, and compared
  with a column of each row.

  The files and the byte order of the machine are arguments. The lemmas show that a column is a field of
  the row, that the written address determines address and port, and that the query answers with the
  user of the first matching socket.
\<close>

subsection \<open>Addresses as the kernel prints them\<close>

text \<open>\<open>binary.BigEndian.Uint32\<close> and \<open>binary.NativeEndian.PutUint32\<close>, four bytes at a time.\<close>

definition native_bytes :: "bool \<Rightarrow> nat \<Rightarrow> bytes" where
  "native_bytes little v = (if little then le_bytes 4 v else rev (le_bytes 4 v))"

definition native_word :: "bool \<Rightarrow> char \<Rightarrow> char \<Rightarrow> char \<Rightarrow> char \<Rightarrow> bytes" where
  "native_word little a b c d = native_bytes little (le_value [d, c, b, a])"

fun native_endian_ip :: "bool \<Rightarrow> bytes \<Rightarrow> bytes" where
  "native_endian_ip little (a # b # c # d # ip) =
     native_word little a b c d @ native_endian_ip little ip"
| "native_endian_ip little _ = []"

definition hex_byte :: "char \<Rightarrow> string" where
  "hex_byte c = [hex_char (byte_val c div 16), hex_char (byte_val c mod 16)]"

definition hex_encode :: "bytes \<Rightarrow> string" where
  "hex_encode bs = concat (map hex_byte bs)"

text \<open>The port is converted to 16 bits, which wraps around.\<close>

definition local_address_column :: "bool \<Rightarrow> bytes \<Rightarrow> int \<Rightarrow> string" where
  "local_address_column little ip port =
     hex_encode (native_endian_ip little ip) @ '':'' @ hex_encode (rev (le_bytes 2 (nat (port mod 2 ^ 16))))"

subsection \<open>Rows\<close>

definition is_blank :: "char \<Rightarrow> bool" where
  "is_blank c \<longleftrightarrow> c = CHR '' '' \<or> c = CHR 0x09"

text \<open>The loop of \<open>column\<close> with its counter; None is Go's \<open>nil\<close>.\<close>

function column_from :: "nat \<Rightarrow> string \<Rightarrow> int \<Rightarrow> string option" where
  "column_from i row index =
     (let row1 = dropWhile is_blank row
      in if row1 = [] then None
         else (let cell = takeWhile (\<lambda>c. \<not> is_blank c) row1
               in if int i = index then Some cell
                  else column_from (Suc i) (drop (length cell) row1) index))"
  by pat_completeness auto
termination
proof (relation "measure (\<lambda>(i, row, index). length row)")
  fix i row index row1 cell
  assume r: "row1 = dropWhile is_blank row" "row1 \<noteq> []" and c: "cell = takeWhile (\<lambda>c. \<not> is_blank c) row1"
  have "\<not> is_blank (hd row1)" using r hd_dropWhile by blast
  then have "cell \<noteq> []" using r(2) c by (cases row1) auto
  then have "length (drop (length cell) row1) < length row1" using r(2) by simp
  also have "\<dots> \<le> length row" using r(1) by (simp add: length_dropWhile_le)
  finally show "((Suc i, drop (length cell) row1, index), (i, row, index)) \<in> measure (\<lambda>(i, row, index). length row)" by simp
qed simp

declare column_from.simps [simp del]

definition column :: "string \<Rightarrow> int \<Rightarrow> string option" where
  "column row index = column_from 0 row index"

text \<open>\<open>strconv.Atoi\<close> on 64 bits: an optional sign and decimal digits, within the range of an int.\<close>

definition atoi :: "string \<Rightarrow> int option" where
  "atoi s =
     (let digits = (case s of c # cs \<Rightarrow> if c \<in> {CHR ''+'', CHR ''-''} then cs else s | [] \<Rightarrow> []);
          v = (if s \<noteq> [] \<and> hd s = CHR ''-'' then - int (decimal_value digits) else int (decimal_value digits))
      in if digits \<noteq> [] \<and> list_all is_digit digits \<and> - (2 ^ 63) \<le> v \<and> v < 2 ^ 63 then Some v else None)"

text \<open>\<open>bytes.EqualFold\<close> with a text of hexadecimal digits and a colon, that only ASCII letters fold to.\<close>

definition equal_fold :: "string \<Rightarrow> string \<Rightarrow> bool" where
  "equal_fold s t \<longleftrightarrow> map lower_byte s = map lower_byte t"

text \<open>
  What the package reads once: the positions of two columns in the header of \<open>/proc/net/tcp\<close>, -1 when
  they were not found; and the rows of a file, None when it cannot be opened.
\<close>

record net_tables =
  nt_local :: int
  nt_uid :: int
  nt_rows :: "string \<Rightarrow> string list option"
  nt_little :: bool

fun query_rows :: "net_tables \<Rightarrow> string \<Rightarrow> string list \<Rightarrow> int" where
  "query_rows nt local [] = -1"
| "query_rows nt local (row # rows) =
     (if \<not> equal_fold local (case column row (nt_local nt) of None \<Rightarrow> [] | Some c \<Rightarrow> c) then query_rows nt local rows
      else (case column row (nt_uid nt) of
              None \<Rightarrow> -1
            | Some c \<Rightarrow> (case atoi c of None \<Rightarrow> -1 | Some uid \<Rightarrow> uid)))"

definition do_query :: "net_tables \<Rightarrow> string \<Rightarrow> bytes \<Rightarrow> int \<Rightarrow> int" where
  "do_query nt path ip port =
     (case nt_rows nt path of None \<Rightarrow> -1 | Some rows \<Rightarrow> query_rows nt (local_address_column (nt_little nt) ip port) rows)"

subsection \<open>The query\<close>

text \<open>\<open>net.IP\<close> conversions; None is Go's \<open>nil\<close>.\<close>

definition v4_in_v6_prefix :: bytes where
  "v4_in_v6_prefix = replicate 10 (CHR 0x00) @ [CHR 0xFF, CHR 0xFF]"

definition to16 :: "bytes \<Rightarrow> bytes option" where
  "to16 ip = (if length ip = 4 then Some (v4_in_v6_prefix @ ip) else if length ip = 16 then Some ip else None)"

definition to4 :: "bytes \<Rightarrow> bytes option" where
  "to4 ip = (if length ip = 4 then Some ip
     else if length ip = 16 \<and> take 12 ip = v4_in_v6_prefix then Some (drop 12 ip) else None)"

datatype net_addr = TcpAddr bytes int | UdpAddr bytes int | OtherAddr string

definition network :: "net_addr \<Rightarrow> string" where
  "network source = (case source of TcpAddr _ _ \<Rightarrow> ''tcp'' | UdpAddr _ _ \<Rightarrow> ''udp'' | OtherAddr n \<Rightarrow> n)"

definition table_path :: "net_addr \<Rightarrow> string" where
  "table_path source =
     (let n = network source
      in ''/proc/net/'' @ (if n \<noteq> [] \<and> last n \<in> {CHR ''4'', CHR ''6''} then butlast n else n))"

definition query_socket_uid :: "net_tables \<Rightarrow> net_addr \<Rightarrow> int" where
  "query_socket_uid nt source =
     (if nt_local nt < 0 \<or> nt_uid nt < 0 then -1
      else (case (case source of TcpAddr ip port \<Rightarrow> Some (ip, port) | UdpAddr ip port \<Rightarrow> Some (ip, port) | OtherAddr _ \<Rightarrow> None) of
              None \<Rightarrow> -1
            | Some (ip, port) \<Rightarrow>
                (case to16 ip of
                   None \<Rightarrow> -1
                 | Some ip16 \<Rightarrow>
                     (let uid = do_query nt (table_path source @ ''6'') ip16 port
                      in if uid \<noteq> -1 then uid
                         else (case to4 ip16 of None \<Rightarrow> -1 | Some ip4 \<Rightarrow> do_query nt (table_path source) ip4 port)))))"

text \<open>The header: two pairs of columns share one field in the rows, so later positions move back.\<close>

record header_scan =
  hs_tx :: bool
  hs_rx :: bool
  hs_tr :: bool
  hs_tm :: bool
  hs_local :: int
  hs_uid :: int

definition scan_column :: "int \<Rightarrow> string \<Rightarrow> header_scan \<Rightarrow> header_scan" where
  "scan_column idx col s =
     (let offset = (if hs_tx s \<and> hs_rx s then -1 else 0) + (if hs_tr s \<and> hs_tm s then -1 else 0)
      in if col = ''tx_queue'' then s\<lparr>hs_tx := True\<rparr>
         else if col = ''rx_queue'' then s\<lparr>hs_rx := True\<rparr>
         else if col = ''tr'' then s\<lparr>hs_tr := True\<rparr>
         else if col = ''tm->when'' then s\<lparr>hs_tm := True\<rparr>
         else if col = ''local_address'' then s\<lparr>hs_local := idx + offset\<rparr>
         else if col = ''uid'' then s\<lparr>hs_uid := idx + offset\<rparr>
         else s)"

fun scan_columns :: "int \<Rightarrow> string list \<Rightarrow> header_scan \<Rightarrow> header_scan" where
  "scan_columns idx [] s = s"
| "scan_columns idx (col # cols) s = scan_columns (idx + 1) cols (scan_column idx col s)"

definition init_indexes :: "string option \<Rightarrow> int \<times> int" where
  "init_indexes header =
     (case header of
        None \<Rightarrow> (-1, -1)
      | Some line \<Rightarrow>
          (let s = scan_columns 0 (fields_of (\<lambda>c. \<not> is_blank c \<and> c \<notin> {CHR 0x0A, CHR 0x0B, CHR 0x0C, CHR 0x0D}) line)
                \<lparr>hs_tx = False, hs_rx = False, hs_tr = False, hs_tm = False, hs_local = -1, hs_uid = -1\<rparr>
           in (hs_local s, hs_uid s)))"


subsection \<open>A column is a field\<close>

abbreviation cells :: "string \<Rightarrow> string list" where
  "cells \<equiv> fields_of (\<lambda>c. \<not> is_blank c)"

lemma column_from_field:
  "int i \<le> index \<Longrightarrow>
   column_from i row index = (if nat (index - int i) < length (cells row) then Some (cells row ! nat (index - int i)) else None)"
proof (induction i row index rule: column_from.induct)
  case (1 i row index)
  let ?row = "dropWhile is_blank row"
  let ?cell = "takeWhile (\<lambda>c. \<not> is_blank c) ?row"
  have cells: "cells row = (if ?row = [] then [] else ?cell # cells (dropWhile (\<lambda>c. \<not> is_blank c) ?row))"
    by (subst fields_of.simps) (simp add: Let_def)
  have rest: "drop (length ?cell) ?row = dropWhile (\<lambda>c. \<not> is_blank c) ?row" by (rule dropWhile_eq_drop[symmetric])
  show ?case
  proof (cases "?row = []")
    case True
    then show ?thesis using cells by (simp add: column_from.simps[of i])
  next
    case False
    show ?thesis
    proof (cases "int i = index")
      case True
      then show ?thesis using False cells by (simp add: column_from.simps[of i] Let_def)
    next
      case neq: False
      then have le: "int (Suc i) \<le> index" using "1.prems" by simp
      have "column_from i row index = column_from (Suc i) (drop (length ?cell) ?row) index"
        using False neq by (simp add: column_from.simps[of i row index] Let_def del: dropWhile_eq_Nil_conv)
      also have "\<dots> = (if nat (index - int (Suc i)) < length (cells (drop (length ?cell) ?row))
          then Some (cells (drop (length ?cell) ?row) ! nat (index - int (Suc i))) else None)"
        by (rule "1.IH"[OF refl False refl neq le])
      finally have c: "column_from i row index = (if nat (index - int (Suc i)) < length (cells (dropWhile (\<lambda>c. \<not> is_blank c) ?row))
          then Some (cells (dropWhile (\<lambda>c. \<not> is_blank c) ?row) ! nat (index - int (Suc i))) else None)"
        by (simp only: rest)
      have n: "nat (index - int i) = Suc (nat (index - int (Suc i)))" using le by simp
      show ?thesis unfolding c n using False cells by (simp del: dropWhile_eq_Nil_conv)
    qed
  qed
qed

lemma column_field: "0 \<le> index \<Longrightarrow> column row index = (if nat index < length (cells row) then Some (cells row ! nat index) else None)"
  using column_from_field[of 0 index row] by (simp add: column_def)

subsection \<open>The written address determines address and port\<close>

lemma hex_char_inj: "m < 16 \<Longrightarrow> n < 16 \<Longrightarrow> hex_char m = hex_char n \<Longrightarrow> m = n"
  by (metis hex_char_value option.inject)

lemma hex_byte_inj: "hex_byte b = hex_byte c \<Longrightarrow> b = c"
proof -
  assume "hex_byte b = hex_byte c"
  then have h: "hex_char (byte_val b div 16) = hex_char (byte_val c div 16)"
    "hex_char (byte_val b mod 16) = hex_char (byte_val c mod 16)" by (simp_all add: hex_byte_def)
  have "byte_val x div 16 < 16" "byte_val x mod 16 < 16" for x :: char by (simp_all add: less_mult_imp_div_less)
  then have "byte_val b div 16 = byte_val c div 16" "byte_val b mod 16 = byte_val c mod 16"
    using hex_char_inj h by blast+
  then have "byte_val b = byte_val c" by (metis div_mult_mod_eq)
  then show ?thesis by simp
qed

lemma hex_encode_Cons: "hex_encode (b # bs) = hex_byte b @ hex_encode bs"
  by (simp add: hex_encode_def)

lemma hex_encode_inj: "hex_encode bs = hex_encode cs \<Longrightarrow> bs = cs"
proof (induction bs arbitrary: cs)
  case Nil
  then show ?case by (cases cs) (auto simp: hex_encode_def hex_byte_def)
next
  case (Cons b bs)
  obtain c cs' where cs: "cs = c # cs'" using Cons.prems by (cases cs) (auto simp: hex_encode_def hex_byte_def)
  have "hex_byte b = hex_byte c" "hex_encode bs = hex_encode cs'"
    using Cons.prems cs by (auto simp: hex_encode_Cons hex_byte_def)
  then show ?case using Cons.IH hex_byte_inj cs by blast
qed

lemma length_hex_encode [simp]: "length (hex_encode bs) = 2 * length bs"
  by (induction bs) (simp_all add: hex_encode_Cons, simp_all add: hex_encode_def hex_byte_def)

lemma native_word_bytes: "native_word little a b c d = (if little then [d, c, b, a] else [a, b, c, d])"
proof -
  have "length [d, c, b, a] = 4" by simp
  then have "le_bytes 4 (le_value [d, c, b, a]) = [d, c, b, a]" using le_bytes_le_value by metis
  then show ?thesis unfolding native_word_def native_bytes_def by (simp del: le_value.simps)
qed

lemma four_more: "4 dvd Suc (Suc (Suc (Suc n))) \<longleftrightarrow> 4 dvd n"
  by presburger

lemma length_native_ip: "4 dvd length ip \<Longrightarrow> length (native_endian_ip little ip) = length ip"
  by (induction little ip rule: native_endian_ip.induct) (simp_all add: native_word_bytes four_more, presburger+)

lemma native_ip_inj:
  "length ip' = length ip \<Longrightarrow> 4 dvd length ip \<Longrightarrow> native_endian_ip little ip = native_endian_ip little ip' \<Longrightarrow> ip = ip'"
proof (induction little ip arbitrary: ip' rule: native_endian_ip.induct)
  case (1 little a b c d ip)
  obtain a' b' c' d' ip1 where ip': "ip' = a' # b' # c' # d' # ip1"
    using 1(2) by (auto simp: length_Suc_conv)
  have "4 dvd length ip" using 1(3) by (simp add: four_more)
  moreover have "native_endian_ip little ip = native_endian_ip little ip1" "a = a'" "b = b'" "c = c'" "d = d'"
    using 1(4) ip' by (auto simp: native_word_bytes split: if_splits)
  ultimately show ?case using 1(1)[of ip1] 1(2) ip' by simp
qed (simp_all, presburger+)

lemma port_bytes_inj:
  assumes "p < 2 ^ 16" "q < 2 ^ 16" "rev (le_bytes 2 p) = rev (le_bytes 2 q)"
  shows "p = q"
proof -
  have "le_value (le_bytes 2 p) = le_value (le_bytes 2 q)" using assms(3) by (simp only: rev_is_rev_conv)
  then have "p mod 256 ^ 2 = q mod 256 ^ 2" unfolding le_value_le_bytes .
  then show ?thesis using assms(1,2) by simp
qed

lemma local_address_inj:
  assumes "local_address_column little ip port = local_address_column little ip' port'"
    "length ip' = length ip" "4 dvd length ip"
  shows "ip = ip' \<and> port mod 2 ^ 16 = port' mod 2 ^ 16"
proof -
  have "hex_encode (native_endian_ip little ip) = hex_encode (native_endian_ip little ip')"
    "hex_encode (rev (le_bytes 2 (nat (port mod 2 ^ 16)))) = hex_encode (rev (le_bytes 2 (nat (port' mod 2 ^ 16))))"
    using assms length_native_ip[of ip little] length_native_ip[of ip' little] by (auto simp: local_address_column_def)
  from hex_encode_inj[OF this(1)] hex_encode_inj[OF this(2)]
  have n: "native_endian_ip little ip = native_endian_ip little ip'"
    and p: "rev (le_bytes 2 (nat (port mod 2 ^ 16))) = rev (le_bytes 2 (nat (port' mod 2 ^ 16)))" .
  have "nat (q mod 2 ^ 16) < 2 ^ 16" for q :: int by (simp add: nat_less_iff)
  from port_bytes_inj[OF this this p] have "port mod 2 ^ 16 = port' mod 2 ^ 16" by simp
  then show ?thesis using native_ip_inj[OF assms(2,3) n] by blast
qed

text \<open>The kernel prints upper-case digits; folding reads them alike.\<close>

lemma hex_char_lower: "d < 16 \<Longrightarrow> lower_byte (hex_char d) = hex_char d"
  by (auto simp: hex_char_def lower_byte_def is_upper_def)

lemma hex_encode_lower: "map lower_byte (hex_encode bs) = hex_encode bs"
  by (induction bs) (simp_all add: hex_encode_Cons hex_byte_def hex_char_lower less_mult_imp_div_less, simp add: hex_encode_def)

lemma lower_upper_byte: "\<not> is_upper c \<Longrightarrow> lower_byte (upper_byte c) = c"
  by (auto simp: lower_byte_def upper_byte_def is_upper_def is_lower_def of_char_of)

lemma local_address_lower: "map lower_byte (local_address_column little ip port) = local_address_column little ip port"
  by (simp add: local_address_column_def hex_encode_lower lower_byte_def is_upper_def)

lemma fold_upper: "map lower_byte (map upper_byte s) = map lower_byte s"
  by (auto simp: lower_byte_def upper_byte_def is_upper_def is_lower_def of_char_of)

subsection \<open>The query answers with the owner\<close>

text \<open>A socket of the kernel, and a row that prints it: its fields hold the address and the user.\<close>

record socket =
  so_ip :: bytes
  so_port :: nat
  so_uid :: nat

definition prints :: "net_tables \<Rightarrow> string \<Rightarrow> socket \<Rightarrow> bool" where
  "prints nt row s \<longleftrightarrow>
     column row (nt_local nt) = Some (map upper_byte (local_address_column (nt_little nt) (so_ip s) (int (so_port s)))) \<and>
     column row (nt_uid nt) = Some (show_nat (so_uid s)) \<and> so_port s < 2 ^ 16 \<and> so_uid s < 2 ^ 63"

text \<open>A table: the header, and a row for each socket, all with addresses of one length.\<close>

definition table_of :: "net_tables \<Rightarrow> string \<Rightarrow> nat \<Rightarrow> socket list \<Rightarrow> bool" where
  "table_of nt path len socks \<longleftrightarrow>
     (\<exists>header rows. nt_rows nt path = Some (header # rows) \<and> column header (nt_local nt) = Some ''local_address'' \<and>
        list_all2 (prints nt) rows socks) \<and> list_all (\<lambda>s. length (so_ip s) = len) socks"

definition owner :: "socket list \<Rightarrow> bytes \<Rightarrow> int \<Rightarrow> int option" where
  "owner socks ip port =
     map_option (\<lambda>s. int (so_uid s)) (find (\<lambda>s. so_ip s = ip \<and> int (so_port s) = port mod 2 ^ 16) socks)"

lemma atoi_show:
  assumes "n < 2 ^ 63" shows "atoi (show_nat n) = Some (int n)"
proof -
  obtain c cs where s: "show_nat n = c # cs" by (cases "show_nat n") simp_all
  have d: "list_all is_digit (show_nat n)" by (rule show_nat_digits)
  then have "is_digit c" using s by simp
  then have "c \<noteq> CHR ''+''" "c \<noteq> CHR ''-''" by (auto simp: is_digit_def)
  then show ?thesis using s d decimal_value_show[of n] assms by (simp add: atoi_def Let_def)
qed

lemma query_rows_owner:
  assumes "list_all2 (prints nt) rows socks" "list_all (\<lambda>s. length (so_ip s) = length ip) socks" "4 dvd length ip"
  shows "query_rows nt (local_address_column (nt_little nt) ip port) rows = (case owner socks ip port of None \<Rightarrow> -1 | Some u \<Rightarrow> u)"
  using assms
proof (induction rows socks rule: list_all2_induct)
  case (Cons row rows s socks)
  let ?l = "local_address_column (nt_little nt)"
  have p: "column row (nt_local nt) = Some (map upper_byte (?l (so_ip s) (int (so_port s))))"
    "column row (nt_uid nt) = Some (show_nat (so_uid s))" "so_port s < 2 ^ 16" "so_uid s < 2 ^ 63"
    using Cons.hyps(1) by (simp_all add: prints_def)
  have port: "int (so_port s) mod 2 ^ 16 = int (so_port s)" using p(3) by (simp add: zmod_int[symmetric])
  have "equal_fold (?l ip port) (map upper_byte (?l (so_ip s) (int (so_port s)))) \<longleftrightarrow> so_ip s = ip \<and> int (so_port s) = port mod 2 ^ 16"
  proof -
    have "equal_fold (?l ip port) (map upper_byte (?l (so_ip s) (int (so_port s)))) \<longleftrightarrow> ?l ip port = ?l (so_ip s) (int (so_port s))"
      unfolding equal_fold_def fold_upper local_address_lower ..
    also have "\<dots> \<longleftrightarrow> so_ip s = ip \<and> int (so_port s) = port mod 2 ^ 16"
    proof
      assume eq: "?l ip port = ?l (so_ip s) (int (so_port s))"
      have "ip = so_ip s \<and> port mod 2 ^ 16 = int (so_port s) mod 2 ^ 16"
        by (rule local_address_inj[OF eq]) (use Cons.prems in simp_all)
      then show "so_ip s = ip \<and> int (so_port s) = port mod 2 ^ 16" using port by simp
    next
      assume "so_ip s = ip \<and> int (so_port s) = port mod 2 ^ 16"
      then show "?l ip port = ?l (so_ip s) (int (so_port s))"
        unfolding local_address_column_def using port by simp
    qed
    finally show ?thesis .
  qed
  then show ?case using Cons.IH Cons.prems p atoi_show[OF p(4)] by (simp add: owner_def)
qed (simp add: owner_def)


lemma header_no_match: "\<not> equal_fold (local_address_column little ip port) ''local_address''"
proof
  assume "equal_fold (local_address_column little ip port) ''local_address''"
  then have "local_address_column little ip port = map lower_byte ''local_address''"
    unfolding equal_fold_def local_address_lower .
  then have "CHR '':'' \<in> set (map lower_byte ''local_address'')" by (metis (no_types, lifting) Un_iff list.set_intros(1) local_address_column_def set_append)
  then show False by (simp add: lower_byte_def is_upper_def)
qed

lemma do_query_owner:
  assumes "table_of nt path (length ip) socks" "4 dvd length ip"
  shows "do_query nt path ip port = (case owner socks ip port of None \<Rightarrow> -1 | Some u \<Rightarrow> u)"
proof -
  obtain header rows where t: "nt_rows nt path = Some (header # rows)" "column header (nt_local nt) = Some ''local_address''"
    "list_all2 (prints nt) rows socks" "list_all (\<lambda>s. length (so_ip s) = length ip) socks"
    using assms(1) by (auto simp: table_of_def)
  show ?thesis using t(1,2) header_no_match query_rows_owner[OF t(3,4) assms(2)] by (simp add: do_query_def)
qed

lemma owner_natural: "owner socks ip port = Some u \<Longrightarrow> 0 \<le> u"
  by (auto simp: owner_def)


subsection \<open>The owner of a socket\<close>

definition linux_header :: string where
  "linux_header = ''  sl  local_address rem_address   st tx_queue rx_queue tr tm->when retrnsmt   uid  timeout inode''"

lemma linux_indexes: "init_indexes (Some linux_header) = (1, 7)"
  by code_simp

text \<open>What the two tables of a protocol say of an address: the IPv6 table first, then the IPv4 one.\<close>

definition owner_in_tables :: "socket list \<Rightarrow> socket list \<Rightarrow> bytes \<Rightarrow> int \<Rightarrow> int option" where
  "owner_in_tables v6 v4 ip port =
     (case to16 ip of
        None \<Rightarrow> None
      | Some ip16 \<Rightarrow>
          (case owner v6 ip16 port of
             Some u \<Rightarrow> Some u
           | None \<Rightarrow> Option.bind (to4 ip16) (\<lambda>ip4. owner v4 ip4 port)))"

lemma socket_owner:
  assumes "0 \<le> nt_local nt" "0 \<le> nt_uid nt" "source = TcpAddr ip port \<or> source = UdpAddr ip port"
    "table_of nt (table_path source @ ''6'') 16 v6" "table_of nt (table_path source) 4 v4"
  shows "query_socket_uid nt source = (case owner_in_tables v6 v4 ip port of None \<Rightarrow> -1 | Some u \<Rightarrow> u)"
proof (cases "to16 ip")
  case None
  then show ?thesis using assms(1-3) by (auto simp: query_socket_uid_def owner_in_tables_def)
next
  case (Some ip16)
  have len: "length ip16 = 16" using Some by (auto simp: to16_def v4_in_v6_prefix_def split: if_splits)
  have six: "do_query nt (table_path source @ ''6'') ip16 port = (case owner v6 ip16 port of None \<Rightarrow> -1 | Some u \<Rightarrow> u)"
    by (rule do_query_owner) (use assms(4) len in simp_all)
  have four: "do_query nt (table_path source) ip4 port = (case owner v4 ip4 port of None \<Rightarrow> -1 | Some u \<Rightarrow> u)"
    if "to4 ip16 = Some ip4" for ip4
  proof (rule do_query_owner)
    have "length ip4 = 4" using that len by (auto simp: to4_def split: if_splits)
    then show "table_of nt (table_path source) (length ip4) v4" "4 dvd length ip4" using assms(5) by simp_all
  qed
  have "query_socket_uid nt source = (let uid = do_query nt (table_path source @ ''6'') ip16 port
      in if uid \<noteq> -1 then uid
         else (case to4 ip16 of None \<Rightarrow> -1 | Some ip4 \<Rightarrow> do_query nt (table_path source) ip4 port))"
    using assms(1-3) Some by (auto simp: query_socket_uid_def)
  then show ?thesis using six four owner_natural[of v6 ip16 port] Some
    by (cases "owner v6 ip16 port"; cases "to4 ip16") (auto simp: owner_in_tables_def Let_def)
qed


definition demo_tables :: net_tables where
  "demo_tables = \<lparr>nt_local = 1, nt_uid = 7,
     nt_rows = [''/proc/net/tcp6'' \<mapsto> [linux_header], ''/proc/net/tcp'' \<mapsto> [linux_header,
       ''   0: 0100007F:1F90 00000000:0000 0A 00000000:00000000 00:00000000 00000000  1000        0 12345'']],
     nt_little = True\<rparr>"

definition demo_socket :: socket where
  "demo_socket = \<lparr>so_ip = [CHR 0x7F, CHR 0x00, CHR 0x00, CHR 0x01], so_port = 8080, so_uid = 1000\<rparr>"


end
