(* ===== verification/Fd_Limit.thy ===== *)
theory Fd_Limit
  imports Go_Prelude
begin

text \<open>
  \<open>core/platform/limit.go\<close>: the valve that refuses new connections when the process runs out of file
  descriptors. A duplicate of \<open>/dev/null\<close> shows the lowest free descriptor, and a count of
  \<open>/proc/self/fd\<close> confirms it.

  What the kernel answers is an argument: a function of how many limits or listings have been read, so
  that it may change between two reads of one call. The lemmas show when a connection is refused in
  terms of the descriptors in use.
\<close>

subsection \<open>State\<close>

datatype errno = EMFILE | ENFILE | OtherErrno int

datatype fd_log = ProbeDisabled errno | Refusing int int | PressureCleared

text \<open>The package's variables, with what it logged and how often it read the limit and the listing.\<close>

record fd_probe =
  fp_null_fd :: int
  fp_armed :: bool
  fp_ceiling :: int
  fp_last_at :: int
  fp_last_blocked :: bool
  fp_log :: "fd_log list"
  fp_reads :: nat
  fp_lists :: nat

text \<open>\<open>RLIMIT_NOFILE\<close>, the number of names in \<open>/proc/self/fd\<close>, and the duplicate; None is an error.\<close>

record kernel =
  kn_limit :: "nat \<Rightarrow> u64 option"
  kn_names :: "nat \<Rightarrow> nat option"
  kn_dup :: "int \<Rightarrow> errno + int"

definition fd_pressure_window :: int where
  "fd_pressure_window = 10 * 1000000"

definition fallback_fd_limit :: int where
  "fallback_fd_limit = 1024"

definition max_fd_limit :: u64 where
  "max_fd_limit = 1048576"

definition probe_init :: "errno + int \<Rightarrow> fd_probe" where
  "probe_init opened =
     (let s = \<lparr>fp_null_fd = -1, fp_armed = False, fp_ceiling = 0, fp_last_at = 0, fp_last_blocked = False,
               fp_log = [], fp_reads = 0, fp_lists = 0\<rparr>
      in case opened of
           Inl e \<Rightarrow> s\<lparr>fp_log := [ProbeDisabled e]\<rparr>
         | Inr fd \<Rightarrow> s\<lparr>fp_null_fd := fd, fp_armed := True\<rparr>)"

subsection \<open>Operations\<close>

definition fd_limit :: "u64 option \<Rightarrow> int" where
  "fd_limit answer =
     (case answer of
        None \<Rightarrow> fallback_fd_limit
      | Some cur \<Rightarrow>
          (let current = (if max_fd_limit < cur then max_fd_limit else cur)
           in if 0 < current then uint current else fallback_fd_limit))"

definition refresh_fd_ceiling :: "kernel \<Rightarrow> fd_probe \<Rightarrow> int \<times> fd_probe" where
  "refresh_fd_ceiling k s =
     (let ceiling = fd_limit (kn_limit k (fp_reads s)) div 4 * 3
      in (ceiling, s\<lparr>fp_reads := Suc (fp_reads s), fp_ceiling := ceiling\<rparr>))"

definition fd_ceiling_value :: "kernel \<Rightarrow> fd_probe \<Rightarrow> int \<times> fd_probe" where
  "fd_ceiling_value k s = (if fp_ceiling s \<noteq> 0 then (fp_ceiling s, s) else refresh_fd_ceiling k s)"

definition disarm_probe :: "errno \<Rightarrow> fd_probe \<Rightarrow> fd_probe" where
  "disarm_probe e s =
     (if \<not> fp_armed s then s
      else s\<lparr>fp_armed := False, fp_last_blocked := False, fp_log := fp_log s @ [ProbeDisabled e]\<rparr>)"

definition open_fd_count :: "kernel \<Rightarrow> fd_probe \<Rightarrow> int \<times> fd_probe" where
  "open_fd_count k s =
     ((case kn_names k (fp_lists s) of None \<Rightarrow> -1 | Some n \<Rightarrow> int n - 1), s\<lparr>fp_lists := Suc (fp_lists s)\<rparr>)"

definition probe_fd_pressure :: "kernel \<Rightarrow> fd_probe \<Rightarrow> bool \<times> fd_probe" where
  "probe_fd_pressure k s =
     (case kn_dup k (fp_null_fd s) of
        Inl e \<Rightarrow> if e = EMFILE \<or> e = ENFILE then (True, s) else (False, disarm_probe e s)
      | Inr lowest_free \<Rightarrow>
          (case fd_ceiling_value k s of (ceiling, s1) \<Rightarrow>
             if lowest_free \<le> ceiling then (False, s1)
             else (case open_fd_count k (snd (refresh_fd_ceiling k s1)) of (count, s2) \<Rightarrow>
                     if count < 0 then (False, s2)
                     else (case fd_ceiling_value k s2 of (ceiling2, s3) \<Rightarrow> (ceiling2 < count, s3)))))"

text \<open>The report of a change of verdict, whose arguments are read again.\<close>

definition report_pressure :: "kernel \<Rightarrow> bool \<Rightarrow> fd_probe \<Rightarrow> fd_probe" where
  "report_pressure k blocked s =
     (if blocked
      then (case open_fd_count k s of (count, s1) \<Rightarrow>
              (case fd_ceiling_value k s1 of (ceiling, s2) \<Rightarrow> s2\<lparr>fp_log := fp_log s2 @ [Refusing count ceiling]\<rparr>))
      else s\<lparr>fp_log := fp_log s @ [PressureCleared]\<rparr>)"

definition should_block_connection :: "kernel \<Rightarrow> int \<Rightarrow> fd_probe \<Rightarrow> bool \<times> fd_probe" where
  "should_block_connection k now s =
     (if \<not> fp_armed s then (False, s)
      else if \<not> fp_last_blocked s \<and> fp_last_at s \<noteq> 0 \<and> now - fp_last_at s < fd_pressure_window then (False, s)
      else (case probe_fd_pressure k s of (blocked, s1) \<Rightarrow>
              (let s2 = s1\<lparr>fp_last_blocked := blocked\<rparr>;
                   s3 = (if fp_last_blocked s1 \<noteq> blocked then report_pressure k blocked s2 else s2)
               in (blocked, s3\<lparr>fp_last_at := now\<rparr>))))"

subsection \<open>Ceilings\<close>

lemma fd_limit_bounds: "0 < fd_limit answer" "fd_limit answer \<le> 2 ^ 20"
proof -
  have "uint (if max_fd_limit < cur then max_fd_limit else cur) \<le> 2 ^ 20" for cur :: u64
    by (auto simp: max_fd_limit_def word_less_def not_less)
  moreover have "0 < uint w" if "0 < w" for w :: u64 using that by (simp add: word_less_def)
  ultimately show "0 < fd_limit answer" "fd_limit answer \<le> 2 ^ 20"
    by (auto simp: fd_limit_def fallback_fd_limit_def Let_def split: option.split)
qed

lemma ceiling_below_limit: "fd_limit answer div 4 * 3 < fd_limit answer"
  using fd_limit_bounds(1)[of answer] by linarith

text \<open>A descriptor table: a duplicate takes the lowest free number, and refuses with \<open>EMFILE\<close> once all numbers
  below the limit are taken; the listing counts the descriptors and its own.\<close>

definition kernel_of :: "nat set \<Rightarrow> kernel \<Rightarrow> int \<Rightarrow> bool" where
  "kernel_of fds k null \<longleftrightarrow>
     finite fds \<and>
     (\<forall>fd. kn_dup k null = Inr fd \<longrightarrow> (\<exists>n. fd = int n \<and> n \<notin> fds \<and> (\<forall>m < n. m \<in> fds))) \<and>
     (\<forall>i n. kn_names k i = Some n \<longrightarrow> n = Suc (card fds))"

lemma lowest_free_count:
  assumes "finite fds" "n \<notin> fds" "\<forall>m < n. m \<in> fds"
  shows "n \<le> card fds"
proof -
  have "{..<n} \<subseteq> fds" using assms(3) by auto
  then show ?thesis using card_mono[OF assms(1), of "{..<n}"] by simp
qed

lemma lowest_free_above:
  fixes n c :: nat
  assumes "n \<notin> fds" "\<forall>m < n. m \<in> fds"
  shows "c < n \<longleftrightarrow> {..c} \<subseteq> fds"
proof
  assume "c < n"
  then have "\<And>m. m \<le> c \<Longrightarrow> m < n" by simp
  then show "{..c} \<subseteq> fds" using assms(2) by (intro subsetI) simp
next
  assume "{..c} \<subseteq> fds"
  then show "c < n" using assms(1) by (meson atMost_iff not_le_imp_less subsetD)
qed

lemma full_below_count:
  assumes "finite fds" "{..c} \<subseteq> fds"
  shows "c < card fds"
  using card_mono[OF assms] by simp

lemma fd_ceiling_value_fields:
  "fp_armed (snd (fd_ceiling_value k s)) = fp_armed s"
  "fp_last_blocked (snd (fd_ceiling_value k s)) = fp_last_blocked s"
  "fp_null_fd (snd (fd_ceiling_value k s)) = fp_null_fd s"
  "fp_log (snd (fd_ceiling_value k s)) = fp_log s"
  by (simp_all add: fd_ceiling_value_def refresh_fd_ceiling_def Let_def)

text \<open>While the kernel gives one limit, every ceiling read is three quarters of it.\<close>

definition steady :: "kernel \<Rightarrow> nat \<Rightarrow> fd_probe \<Rightarrow> bool" where
  "steady k c s \<longleftrightarrow> (\<forall>i. fd_limit (kn_limit k i) div 4 * 3 = int c) \<and> fp_ceiling s \<in> {0, int c}"

lemma steady_ceiling:
  assumes "steady k c s"
  shows "fst (fd_ceiling_value k s) = int c" "steady k c (snd (fd_ceiling_value k s))"
    "steady k c (snd (refresh_fd_ceiling k s))"
  using assms by (auto simp: steady_def fd_ceiling_value_def refresh_fd_ceiling_def Let_def)

lemma steady_count: "steady k c s \<Longrightarrow> steady k c (snd (open_fd_count k s))"
  by (simp add: steady_def open_fd_count_def)

text \<open>The verdict of a probe over a descriptor table.\<close>

lemma probe_verdict:
  assumes "kernel_of fds k (fp_null_fd s)" "steady k c s"
  shows "fst (probe_fd_pressure k s) \<longleftrightarrow>
    (case kn_dup k (fp_null_fd s) of
       Inl e \<Rightarrow> e = EMFILE \<or> e = ENFILE
     | Inr _ \<Rightarrow> {..c} \<subseteq> fds \<and> kn_names k (fp_lists s) \<noteq> None)"
proof (cases "kn_dup k (fp_null_fd s)")
  case (Inl e)
  then show ?thesis by (simp add: probe_fd_pressure_def)
next
  case (Inr fd)
  then obtain n where n: "fd = int n" "n \<notin> fds" "\<forall>m < n. m \<in> fds" using assms(1) by (auto simp: kernel_of_def)
  obtain s1 where s1: "fd_ceiling_value k s = (int c, s1)" "steady k c s1" "fp_lists s1 = fp_lists s"
    using steady_ceiling[OF assms(2)]
    by (cases "fd_ceiling_value k s") (auto simp: fd_ceiling_value_def refresh_fd_ceiling_def Let_def split: if_splits)
  obtain s2 where s2: "refresh_fd_ceiling k s1 = (int c, s2)" "steady k c s2" "fp_lists s2 = fp_lists s"
    using steady_ceiling(3)[OF s1(2)] s1(2,3) by (auto simp: refresh_fd_ceiling_def Let_def steady_def)
  obtain s3 where s3: "open_fd_count k s2 = ((case kn_names k (fp_lists s) of None \<Rightarrow> -1 | Some m \<Rightarrow> int m - 1), s3)" "steady k c s3"
    using steady_count[OF s2(2)] s2(3) by (simp add: open_fd_count_def)
  obtain s4 where s4: "fd_ceiling_value k s3 = (int c, s4)"
    using steady_ceiling(1)[OF s3(2)] by (cases "fd_ceiling_value k s3") auto
  have count: "kn_names k (fp_lists s) = Some m \<Longrightarrow> m = Suc (card fds)" for m
    using assms(1) by (auto simp: kernel_of_def)
  have "c < n \<Longrightarrow> c < card fds"
    using lowest_free_count[OF _ n(2,3)] assms(1) by (auto simp: kernel_of_def)
  moreover have "fst (probe_fd_pressure k s) \<longleftrightarrow> c < n \<and> (\<exists>m. kn_names k (fp_lists s) = Some m \<and> c < card fds)"
    using Inr n(1) s1(1) s2(1) s3(1) s4 count by (auto simp: probe_fd_pressure_def split: option.splits)
  ultimately show ?thesis using Inr lowest_free_above[OF n(2,3), of c] by auto
qed

text \<open>A probe leaves the valve armed unless the duplicate failed for a reason other than exhaustion.\<close>

lemma probe_armed:
  "fp_armed (snd (probe_fd_pressure k s)) \<longleftrightarrow>
     fp_armed s \<and> (\<forall>e. kn_dup k (fp_null_fd s) = Inl e \<longrightarrow> e = EMFILE \<or> e = ENFILE)"
  by (auto simp: probe_fd_pressure_def disarm_probe_def open_fd_count_def refresh_fd_ceiling_def
      fd_ceiling_value_fields fd_ceiling_value_def Let_def split: sum.splits option.splits prod.splits if_splits)

lemma report_fields:
  "fp_armed (report_pressure k b s) = fp_armed s"
  "fp_last_blocked (report_pressure k b s) = fp_last_blocked s"
  by (simp_all add: report_pressure_def open_fd_count_def fd_ceiling_value_def refresh_fd_ceiling_def Let_def)

lemma should_block_armed:
  "fp_armed (snd (should_block_connection k now s)) \<Longrightarrow> fp_armed s"
  by (auto simp: should_block_connection_def Let_def report_fields probe_armed split: prod.splits if_splits)

text \<open>A call whose answer comes from a probe.\<close>

definition probes_now :: "int \<Rightarrow> fd_probe \<Rightarrow> bool" where
  "probes_now now s \<longleftrightarrow>
     fp_armed s \<and> (fp_last_blocked s \<or> fp_last_at s = 0 \<or> fd_pressure_window \<le> now - fp_last_at s)"

lemma should_block_probes:
  assumes "probes_now now s"
  shows "fst (should_block_connection k now s) = fst (probe_fd_pressure k s)"
    "fp_armed (snd (should_block_connection k now s)) = fp_armed (snd (probe_fd_pressure k s))"
    "fp_last_blocked (snd (should_block_connection k now s)) = fst (probe_fd_pressure k s)"
    "fp_last_at (snd (should_block_connection k now s)) = now"
  using assms
  by (auto simp: probes_now_def should_block_connection_def Let_def report_fields split: prod.split)

lemma should_block_idle: "\<not> probes_now now s \<Longrightarrow> should_block_connection k now s = (False, s)"
  by (auto simp: probes_now_def should_block_connection_def)

lemma valve_verdict:
  assumes "kernel_of fds k (fp_null_fd s)" "steady k c s" "probes_now now s" "kn_dup k (fp_null_fd s) = Inr fd"
  shows "fst (should_block_connection k now s) \<longleftrightarrow> {..c} \<subseteq> fds \<and> kn_names k (fp_lists s) \<noteq> None"
  using probe_verdict[OF assms(1,2)] should_block_probes(1)[OF assms(3)] assms(4) by simp

text \<open>A connection refused, in a row of calls: the valve was armed at the start and every refusal was probed.\<close>

fun valve_calls :: "(kernel \<times> int) list \<Rightarrow> fd_probe \<Rightarrow> bool list \<times> fd_probe" where
  "valve_calls [] s = ([], s)"
| "valve_calls ((k, now) # calls) s =
     (case should_block_connection k now s of (b, s1) \<Rightarrow>
        (case valve_calls calls s1 of (bs, s2) \<Rightarrow> (b # bs, s2)))"

lemma valve_calls_unarmed: "\<not> fp_armed s \<Longrightarrow> valve_calls calls s = (replicate (length calls) False, s)"
  by (induction calls) (auto simp: should_block_connection_def)

lemma valve_facts:
  assumes "kernel_of fds k (fp_null_fd s)" "steady k c s" "should_block_connection k now s = (blocked, s')"
  shows "blocked \<longleftrightarrow> probes_now now s \<and>
       (case kn_dup k (fp_null_fd s) of
          Inl e \<Rightarrow> e = EMFILE \<or> e = ENFILE
        | Inr _ \<Rightarrow> {..c} \<subseteq> fds \<and> kn_names k (fp_lists s) \<noteq> None)" (is "_ \<longleftrightarrow> _ \<and> ?verdict")
    "blocked \<Longrightarrow> kn_dup k (fp_null_fd s) = Inr fd \<Longrightarrow> c < card fds"
    "fp_armed s' \<longleftrightarrow> fp_armed s \<and>
       (probes_now now s \<longrightarrow> (\<forall>e. kn_dup k (fp_null_fd s) = Inl e \<longrightarrow> e = EMFILE \<or> e = ENFILE))"
    "blocked \<Longrightarrow> probes_now later s'"
    "\<not> fp_armed s' \<Longrightarrow> valve_calls calls s' = (replicate (length calls) False, s')"
proof -
  show verdict: "blocked \<longleftrightarrow> probes_now now s \<and> ?verdict"
    using probe_verdict[OF assms(1,2)] should_block_probes(1)[of now s k] should_block_idle[of now s k] assms(3)
    by (cases "probes_now now s") simp_all
  show "c < card fds" if "blocked" "kn_dup k (fp_null_fd s) = Inr fd"
  proof -
    have "{..c} \<subseteq> fds" using verdict that by simp
    then show ?thesis using full_below_count[of fds c] assms(1) by (simp add: kernel_of_def)
  qed
  show armed: "fp_armed s' \<longleftrightarrow> fp_armed s \<and>
       (probes_now now s \<longrightarrow> (\<forall>e. kn_dup k (fp_null_fd s) = Inl e \<longrightarrow> e = EMFILE \<or> e = ENFILE))"
    using should_block_probes(2)[of now s k] should_block_idle[of now s k] probe_armed[of k s] assms(3)
    by (cases "probes_now now s") simp_all
  show "probes_now later s'" if "blocked"
  proof -
    have p: "probes_now now s" using verdict that by blast
    then have "fp_last_blocked s'"
      using should_block_probes(1)[OF p, of k] should_block_probes(3)[OF p, of k] assms(3) that by simp
    moreover have "fp_armed s'"
      using armed verdict that p by (auto simp: probes_now_def split: sum.splits)
    ultimately show ?thesis by (simp add: probes_now_def)
  qed
  show "\<not> fp_armed s' \<Longrightarrow> valve_calls calls s' = (replicate (length calls) False, s')"
    by (rule valve_calls_unarmed)
qed


definition demo_kernel :: kernel where
  "demo_kernel = \<lparr>kn_limit = (\<lambda>_. Some 5), kn_names = (\<lambda>_. Some 5), kn_dup = (\<lambda>_. Inr 4)\<rparr>"


end
