(* ===== verification/Tun_Start.thy ===== *)
theory Tun_Start
  imports Go_Netip
begin

text \<open>
  \<open>core/tun/tun.go\<close>: how a tun descriptor handed over by Android becomes a listener. The settings of the
  listener are read from text, and the descriptor is duplicated for the listener and then closed.

  The JSON decoder, the names of the stacks, the duplicate and the listener's constructor are arguments.
  A run is recorded as what it does with descriptors. The lemmas show which settings are accepted and
  that no descriptor is leaked or closed twice.
\<close>

subsection \<open>Settings\<close>

record start_options =
  so_mtu :: u32
  so_congestion :: string

text \<open>The fields of mihomo's tun configuration that \<open>Start\<close> sets; its flags are constant.\<close>

record 'stack listener_options =
  to_enable :: bool
  to_device :: string
  to_stack :: 'stack
  to_dns_hijack :: "string list"
  to_auto_route :: bool
  to_auto_detect :: bool
  to_inet4 :: "(addr \<times> nat) list"
  to_inet6 :: "(addr \<times> nat) list"
  to_mtu :: u32
  to_congestion :: string
  to_fd :: int

text \<open>What a run does with descriptors; the constructor answers with a listener or an error.\<close>

datatype ('stack, 'l) fd_event =
  Closed int
| Duplicated int int
| Constructed "'stack listener_options" "'l option"

record ('stack, 'l) tun_world =
  tw_unmarshal :: "string \<Rightarrow> start_options option"
  tw_stacks :: "string \<rightharpoonup> 'stack"
  tw_default :: 'stack
  tw_dup :: "int \<Rightarrow> int option"
  tw_new :: "'stack listener_options \<Rightarrow> 'l option"

definition tun_stack :: "('stack, 'l) tun_world \<Rightarrow> string \<Rightarrow> 'stack" where
  "tun_stack w name = (case tw_stacks w (to_lower name) of Some st \<Rightarrow> st | None \<Rightarrow> tw_default w)"

text \<open>The loop over the addresses, with the prefixes gathered so far; None is the early return.\<close>

fun gather_prefixes ::
  "string list \<Rightarrow> (addr \<times> nat) list \<Rightarrow> (addr \<times> nat) list \<Rightarrow> ((addr \<times> nat) list \<times> (addr \<times> nat) list) option"
where
  "gather_prefixes [] p4 p6 = Some (p4, p6)"
| "gather_prefixes (a # as) p4 p6 =
     (let a1 = trim_space a
      in if a1 = [] then gather_prefixes as p4 p6
         else (case parse_prefix a1 of
                 None \<Rightarrow> None
               | Some pfx \<Rightarrow>
                   if is_v4 (fst pfx) then gather_prefixes as (p4 @ [pfx]) p6
                   else gather_prefixes as p4 (p6 @ [pfx])))"

fun gather_hijacks :: "string list \<Rightarrow> string list \<Rightarrow> string list option" where
  "gather_hijacks [] hs = Some hs"
| "gather_hijacks (d # ds) hs =
     (let d1 = trim_space d
      in if d1 = [] then gather_hijacks ds hs
         else (let hijack = join_host_port d1 ''53''
               in if parse_addr_port hijack = None then None else gather_hijacks ds (hs @ [hijack])))"

subsection \<open>Start\<close>

definition listener_options_of :: "'stack \<Rightarrow> start_options \<Rightarrow> (addr \<times> nat) list \<Rightarrow> (addr \<times> nat) list \<Rightarrow> string list \<Rightarrow> int \<Rightarrow> 'stack listener_options" where
  "listener_options_of st settings p4 p6 hijacks dup_fd =
     \<lparr>to_enable = True, to_device = ''YuClash'', to_stack = st, to_dns_hijack = hijacks, to_auto_route = False,
      to_auto_detect = False, to_inet4 = p4, to_inet6 = p6, to_mtu = so_mtu settings,
      to_congestion = so_congestion settings, to_fd = dup_fd\<rparr>"

text \<open>The deferred close of the descriptor runs after the constructor, whatever that answers.\<close>

definition tun_start ::
  "('stack, 'l) tun_world \<Rightarrow> int \<Rightarrow> string \<Rightarrow> string \<Rightarrow> string \<Rightarrow> string \<Rightarrow> 'l option \<times> ('stack, 'l) fd_event list"
where
  "tun_start w fd stack address dns raw =
     (case tw_unmarshal w raw of
        None \<Rightarrow> (None, [Closed fd])
      | Some settings \<Rightarrow>
          (let st = tun_stack w stack
           in case gather_prefixes (split_on CHR '','' address) [] [] of
                None \<Rightarrow> (None, [Closed fd])
              | Some (p4, p6) \<Rightarrow>
                  (case gather_hijacks (split_on CHR '','' dns) [] of
                     None \<Rightarrow> (None, [Closed fd])
                   | Some hijacks \<Rightarrow>
                       (case tw_dup w fd of
                          None \<Rightarrow> (None, [Closed fd])
                        | Some dup_fd \<Rightarrow>
                            (let options = listener_options_of st settings p4 p6 hijacks dup_fd;
                                 made = tw_new w options
                             in (made, [Duplicated fd dup_fd, Constructed options made, Closed fd]))))))"

subsection \<open>The settings accepted\<close>

text \<open>The entries of a list separated by commas, trimmed and without the empty ones.\<close>

definition entries :: "string \<Rightarrow> string list" where
  "entries text = filter (\<lambda>e. e \<noteq> []) (map trim_space (split_on CHR '','' text))"

lemma gather_prefixes_filter:
  "gather_prefixes as p4 p6 =
     (let es = filter (\<lambda>e. e \<noteq> []) (map trim_space as); ps = map (\<lambda>e. the (parse_prefix e)) es
      in if list_all (\<lambda>e. parse_prefix e \<noteq> None) es
         then Some (p4 @ filter (\<lambda>p. is_v4 (fst p)) ps, p6 @ filter (\<lambda>p. \<not> is_v4 (fst p)) ps) else None)"
  by (induction as arbitrary: p4 p6) (auto simp: Let_def split: option.splits)

lemma gather_hijacks_filter:
  "gather_hijacks ds hs =
     (let es = filter (\<lambda>e. e \<noteq> []) (map trim_space ds)
      in if list_all (\<lambda>e. parse_addr e \<noteq> None) es then Some (hs @ map (\<lambda>e. join_host_port e ''53'') es) else None)"
proof -
  have "parse_port ''53'' = Some 53"
    by (simp add: parse_port_def is_digit_def decimal_value_def digit_value_def)
  then have "parse_addr_port (join_host_port e ''53'') = None \<longleftrightarrow> parse_addr e = None" for e
    by (subst parse_joined_port) auto
  then show ?thesis
    by (induction ds arbitrary: hs) (simp_all add: Let_def)
qed

definition tun_plan :: "('stack, 'l) tun_world \<Rightarrow> string \<Rightarrow> string \<Rightarrow> string \<Rightarrow> string \<Rightarrow> (int \<Rightarrow> 'stack listener_options) option" where
  "tun_plan w stack address dns raw =
     (case tw_unmarshal w raw of
        None \<Rightarrow> None
      | Some settings \<Rightarrow>
          if list_all (\<lambda>e. parse_prefix e \<noteq> None) (entries address) \<and>
             list_all (\<lambda>e. parse_addr e \<noteq> None) (entries dns)
          then (let ps = map (\<lambda>e. the (parse_prefix e)) (entries address)
                in Some (listener_options_of (tun_stack w stack) settings (filter (\<lambda>p. is_v4 (fst p)) ps)
                     (filter (\<lambda>p. \<not> is_v4 (fst p)) ps) (map (\<lambda>e. join_host_port e ''53'') (entries dns))))
          else None)"

lemma tun_start_plan:
  "tun_start w fd stack address dns raw =
     (case (tun_plan w stack address dns raw, tw_dup w fd) of
        (Some plan, Some dup_fd) \<Rightarrow>
          (tw_new w (plan dup_fd),
           [Duplicated fd dup_fd, Constructed (plan dup_fd) (tw_new w (plan dup_fd)), Closed fd])
      | _ \<Rightarrow> (None, [Closed fd]))"
  by (simp add: tun_start_def tun_plan_def gather_prefixes_filter gather_hijacks_filter entries_def Let_def
      split: option.splits)

subsection \<open>The descriptor table\<close>

text \<open>The table after the events. The constructor owns the descriptor it is given: it stays open with the
  listener and is closed on an error.\<close>

fun fds_after :: "int set \<Rightarrow> ('stack, 'l) fd_event list \<Rightarrow> int set" where
  "fds_after fds [] = fds"
| "fds_after fds (Closed fd # es) = fds_after (fds - {fd}) es"
| "fds_after fds (Duplicated _ fd # es) = fds_after (insert fd fds) es"
| "fds_after fds (Constructed options made # es) =
     fds_after (if made = None then fds - {to_fd options} else fds) es"

definition closes :: "int \<Rightarrow> ('stack, 'l) fd_event list \<Rightarrow> nat" where
  "closes fd es = length (filter (\<lambda>e. e = Closed fd) es)"

lemma plan_fd: "tun_plan w stack address dns raw = Some plan \<Longrightarrow> to_fd (plan d) = d"
  by (auto simp: tun_plan_def listener_options_of_def Let_def split: option.splits if_splits)

lemma tun_start_table:
  assumes "tun_start w fd stack address dns raw = (made, events)" "fd \<in> fds" "\<And>d. tw_dup w fd = Some d \<Longrightarrow> d \<notin> fds"
  shows "fds_after fds events = fds - {fd} \<union> (if made = None then {} else set_option (tw_dup w fd))"
    "closes fd events = 1" "d \<noteq> fd \<Longrightarrow> closes d events = 0"
  using assms plan_fd[of w stack address dns raw]
  by (auto simp: tun_start_plan closes_def split: option.splits)

text \<open>C34. Start makes the listener of the settings the texts plan: the stack by its lower-case name or the
  default, the prefixes of the addresses by family and in order, port 53 of every name server, all of
  which must be addresses; and whatever fails, the descriptor handed over is closed exactly once, no
  other is closed by Start, and the duplicate stays open exactly with the listener.\<close>

theorem tun_start_owns_descriptor:
  assumes "tun_start w fd stack address dns raw = (made, events)" "fd \<in> fds" "\<And>d. tw_dup w fd = Some d \<Longrightarrow> d \<notin> fds"
  shows "made = (case (tun_plan w stack address dns raw, tw_dup w fd) of
           (Some plan, Some dup_fd) \<Rightarrow> tw_new w (plan dup_fd) | _ \<Rightarrow> None) \<and>
    fds_after fds events = fds - {fd} \<union> (if made = None then {} else set_option (tw_dup w fd)) \<and>
    closes fd events = 1 \<and> (\<forall>d. d \<noteq> fd \<longrightarrow> closes d events = 0)"
  using tun_start_table[OF assms] assms(1) by (auto simp: tun_start_plan split: option.splits)

definition demo_tun :: "(nat, nat) tun_world" where
  "demo_tun = \<lparr>tw_unmarshal = (\<lambda>_. Some \<lparr>so_mtu = 1500, so_congestion = ''bbr''\<rparr>), tw_stacks = [''gvisor'' \<mapsto> 1],
     tw_default = 2, tw_dup = (\<lambda>_. Some 9), tw_new = (\<lambda>options. if to_stack options = 1 then None else Some 5)\<rparr>"

theorem tun_start_owns_descriptor_witness:
  "\<exists>made events. tun_start demo_tun 7 ''mixed'' [] [] [] = (made, events) \<and>
     made = Some 5 \<and> closes 7 events = 1 \<and> fds_after {3, 7} events = {3, 9}"
proof -
  obtain made events where run: "tun_start demo_tun 7 ''mixed'' [] [] [] = (made, events)" by fastforce
  have e: "entries [] = []" by code_simp
  have plan: "tun_plan demo_tun ''mixed'' [] [] [] = Some (listener_options_of 2 \<lparr>so_mtu = 1500, so_congestion = ''bbr''\<rparr> [] [] [])"
    by (simp add: tun_plan_def e demo_tun_def tun_stack_def)
  have dup: "tw_dup demo_tun 7 = Some 9" by (simp add: demo_tun_def)
  have "made = (case (tun_plan demo_tun ''mixed'' [] [] [], tw_dup demo_tun 7) of
           (Some plan, Some dup_fd) \<Rightarrow> tw_new demo_tun (plan dup_fd) | _ \<Rightarrow> None) \<and>
    fds_after {3, 7} events = {3, 7} - {7} \<union> (if made = None then {} else set_option (tw_dup demo_tun 7)) \<and>
    closes 7 events = 1 \<and> (\<forall>d. d \<noteq> 7 \<longrightarrow> closes d events = 0)"
    by (rule tun_start_owns_descriptor[OF run]) (simp_all add: dup)
  moreover have "tw_new demo_tun (listener_options_of 2 s [] [] [] 9) = Some 5" for s
    by (simp add: demo_tun_def listener_options_of_def)
  ultimately show ?thesis using run plan dup by auto
qed

end
