(* ===== verification/Dns_Updates.thy ===== *)
theory Dns_Updates
  imports Go_Prelude
begin

text \<open>
  \<open>handleUpdateDns\<close> of \<open>core/lib.go\<close>: the name servers of the network Android reports, put in place by
  goroutines that may run in any order. mihomo's update is recorded. The lemmas show that the newest
  call wins.
\<close>

text \<open>
  Each call of \<open>handleUpdateDns\<close> draws a number and leaves a goroutine. Of those that hold the mutex one
  after the other, only one whose number is the newest goes on; a newer call may still arrive before
  it updates. The values called with are recorded.
\<close>

record dns_updates =
  du_seq :: u64
  du_waiting :: "(nat \<times> u64 \<times> string list) list"
  du_updating :: "(nat \<times> string list) option"
  du_applied :: "(nat \<times> string list) list"
  du_called :: "string list"

definition dns_initial :: dns_updates where
  "dns_initial = \<lparr>du_seq = 0, du_waiting = [], du_updating = None, du_applied = [], du_called = []\<rparr>"

definition dns_servers :: "string \<Rightarrow> string list" where
  "dns_servers value = (if value \<noteq> [] then split_on CHR '','' value else [])"

definition handle_update_dns :: "string \<Rightarrow> dns_updates \<Rightarrow> dns_updates" where
  "handle_update_dns value s =
     (let addr = dns_servers value; seq = du_seq s + 1
      in s\<lparr>du_seq := seq, du_waiting := (length (du_called s), seq, addr) # du_waiting s,
           du_called := du_called s @ [value]\<rparr>)"

text \<open>The goroutine under the mutex: the check, and the update with the flush of the cache.\<close>

definition dns_check :: "nat \<Rightarrow> u64 \<Rightarrow> string list \<Rightarrow> dns_updates \<Rightarrow> dns_updates" where
  "dns_check n seq addr s =
     (let s1 = s\<lparr>du_waiting := remove1 (n, seq, addr) (du_waiting s)\<rparr>
      in if seq \<noteq> du_seq s then s1 else s1\<lparr>du_updating := Some (n, addr)\<rparr>)"

definition dns_apply :: "dns_updates \<Rightarrow> dns_updates" where
  "dns_apply s =
     (case du_updating s of
        None \<Rightarrow> s
      | Some u \<Rightarrow> s\<lparr>du_applied := du_applied s @ [u], du_updating := None\<rparr>)"

inductive dns_step :: "dns_updates \<Rightarrow> dns_updates \<Rightarrow> bool" where
  dns_call: "du_seq s \<noteq> - 1 \<Longrightarrow> dns_step s (handle_update_dns v s)"
| dns_lock: "(n, seq, addr) \<in> set (du_waiting s) \<Longrightarrow> du_updating s = None \<Longrightarrow> dns_step s (dns_check n seq addr s)"
| dns_update: "du_updating s = Some u \<Longrightarrow> dns_step s (dns_apply s)"

inductive dns_reachable :: "dns_updates \<Rightarrow> bool" where
  dns_zero: "dns_reachable dns_initial"
| dns_more: "dns_reachable s \<Longrightarrow> dns_step s s' \<Longrightarrow> dns_reachable s'"

text \<open>Numbers do not wrap around within 2 ^ 64 calls. The call with number \<open>n\<close>, and the numbers still under way.\<close>

definition dns_asked :: "dns_updates \<Rightarrow> nat \<Rightarrow> string list \<Rightarrow> bool" where
  "dns_asked s n addr \<longleftrightarrow> n < length (du_called s) \<and> addr = dns_servers (du_called s ! n)"

definition under_way :: "dns_updates \<Rightarrow> nat list" where
  "under_way s = map fst (du_applied s) @ (case du_updating s of None \<Rightarrow> [] | Some u \<Rightarrow> [fst u])"

definition dns_inv :: "dns_updates \<Rightarrow> bool" where
  "dns_inv s \<longleftrightarrow>
     unat (du_seq s) = length (du_called s) \<and>
     (\<forall>(n, seq, addr) \<in> set (du_waiting s). dns_asked s n addr \<and> unat seq = Suc n) \<and>
     (\<forall>(n, addr) \<in> set (du_applied s). dns_asked s n addr) \<and>
     (\<forall>n addr. du_updating s = Some (n, addr) \<longrightarrow> dns_asked s n addr) \<and>
     distinct (map fst (du_waiting s) @ under_way s) \<and> sorted_wrt (<) (under_way s) \<and>
     (du_called s \<noteq> [] \<longrightarrow> length (du_called s) - 1 \<in> set (map fst (du_waiting s) @ under_way s))"

lemma dns_next: "q \<noteq> - 1 \<Longrightarrow> unat (q + 1 :: u64) = Suc (unat q)"
  by (metis add.commute add.right_neutral add_eq_0_iff unatSuc)

lemma dns_asked_more: "dns_asked s n addr \<Longrightarrow> dns_asked (handle_update_dns v s) n addr"
  by (simp add: dns_asked_def handle_update_dns_def Let_def nth_append)

lemma under_way_call [simp]: "under_way (handle_update_dns v s) = under_way s"
  by (simp add: under_way_def handle_update_dns_def Let_def)

lemma under_way_asked: "dns_inv s \<Longrightarrow> n \<in> set (under_way s) \<Longrightarrow> n < length (du_called s)"
  by (fastforce simp: dns_inv_def under_way_def dns_asked_def split: option.splits)

lemma waiting_asked: "dns_inv s \<Longrightarrow> n \<in> fst ` set (du_waiting s) \<Longrightarrow> n < length (du_called s)"
  by (fastforce simp: dns_inv_def dns_asked_def)

lemma dns_inv_call:
  assumes "dns_inv s" "du_seq s \<noteq> - 1"
  shows "dns_inv (handle_update_dns v s)"
proof -
  let ?s = "handle_update_dns v s"
  have new: "dns_asked ?s (length (du_called s)) (dns_servers v)"
    by (simp add: dns_asked_def handle_update_dns_def Let_def)
  have "length (du_called s) \<notin> set (map fst (du_waiting s) @ under_way s)"
    using under_way_asked[OF assms(1)] waiting_asked[OF assms(1)] by fastforce
  then show ?thesis
    using assms(1) dns_next[OF assms(2)] new dns_asked_more[of s _ _ v] unfolding dns_inv_def under_way_call
    by (auto simp: handle_update_dns_def Let_def)
qed

lemma dns_inv_apply:
  assumes "dns_inv s" "du_updating s = Some u"
  shows "dns_inv (dns_apply s)"
  using assms by (cases u) (auto simp: dns_inv_def under_way_def dns_apply_def dns_asked_def)

lemma map_fst_remove1:
  "distinct (map fst xs) \<Longrightarrow> x \<in> set xs \<Longrightarrow> map fst (remove1 x xs) = remove1 (fst x) (map fst xs)"
  by (induction xs) force+

lemma dns_check_fields:
  "du_seq (dns_check n seq addr s) = du_seq s" "du_called (dns_check n seq addr s) = du_called s"
  "du_applied (dns_check n seq addr s) = du_applied s"
  "du_waiting (dns_check n seq addr s) = remove1 (n, seq, addr) (du_waiting s)"
  "dns_asked (dns_check n seq addr s) = dns_asked s"
  by (auto simp: dns_check_def dns_asked_def Let_def fun_eq_iff)

lemma dns_inv_check:
  assumes "dns_inv s" "(n, seq, addr) \<in> set (du_waiting s)" "du_updating s = None"
  shows "dns_inv (dns_check n seq addr s)"
proof -
  let ?s = "dns_check n seq addr s" and ?len = "length (du_called s)"
  have n: "dns_asked s n addr" "unat seq = Suc n" "unat (du_seq s) = ?len"
    using assms(1,2) by (auto simp: dns_inv_def)
  have newest: "seq = du_seq s \<longleftrightarrow> n = ?len - 1" using n by (auto simp: word_unat_eq_iff dns_asked_def)
  have distinct: "distinct (map fst (du_waiting s))" "n \<notin> set (under_way s)"
    "set (map fst (du_waiting s)) \<inter> set (under_way s) = {}" "distinct (under_way s)"
  proof -
    have "distinct (map fst (du_waiting s) @ under_way s)" using assms(1) unfolding dns_inv_def by blast
    moreover have "n \<in> set (map fst (du_waiting s))" using assms(2) by force
    ultimately show "distinct (map fst (du_waiting s))" "n \<notin> set (under_way s)"
      "set (map fst (du_waiting s)) \<inter> set (under_way s) = {}" "distinct (under_way s)" by auto
  qed
  have waiting: "map fst (du_waiting ?s) = remove1 n (map fst (du_waiting s))"
    using map_fst_remove1[OF distinct(1) assms(2)] by (simp add: dns_check_fields)
  then have rest: "set (map fst (du_waiting ?s)) = set (map fst (du_waiting s)) - {n}" "distinct (map fst (du_waiting ?s))"
    using distinct(1) by simp_all
  have way: "under_way ?s = under_way s @ (if n = ?len - 1 then [n] else [])"
    and updating: "du_updating ?s = (if n = ?len - 1 then Some (n, addr) else None)"
    using newest assms(3) by (simp_all add: under_way_def dns_check_def Let_def)
  have below: "m < n" if "m \<in> set (under_way s)" "n = ?len - 1" for m
    using under_way_asked[OF assms(1) that(1)] that distinct(2) by (cases "m = n") auto
  have "distinct (map fst (du_waiting ?s) @ under_way ?s)"
    using rest distinct way by auto
  moreover have "sorted_wrt (<) (under_way ?s)"
    using assms(1) below by (auto simp: way dns_inv_def sorted_wrt_append)
  moreover have "?len - 1 \<in> set (map fst (du_waiting ?s) @ under_way ?s)" if "du_called s \<noteq> []"
    using assms(1) that rest(1) by (auto simp: way dns_inv_def)
  moreover have "set (du_waiting ?s) \<subseteq> set (du_waiting s)"
    by (simp add: dns_check_fields set_remove1_subset)
  ultimately show ?thesis
    using assms(1) n(1) unfolding dns_inv_def dns_check_fields(1,2,3,5) updating by (auto split: if_splits)
qed

lemma dns_inv_reachable: "dns_reachable s \<Longrightarrow> dns_inv s"
proof (induction rule: dns_reachable.induct)
  case dns_zero
  then show ?case by (simp add: dns_inv_def dns_initial_def under_way_def)
next
  case (dns_more s s')
  from dns_more.hyps(2) dns_more.IH show ?case
    by (cases rule: dns_step.cases) (auto intro: dns_inv_call dns_inv_check dns_inv_apply)
qed

lemma newest_dns:
  assumes "dns_reachable s"
  shows "sorted_wrt (<) (map fst (du_applied s))" "(n, addr) \<in> set (du_applied s) \<Longrightarrow> dns_asked s n addr"
    "du_called s \<noteq> [] \<Longrightarrow> du_waiting s = [] \<Longrightarrow> du_updating s = None \<Longrightarrow>
       du_applied s \<noteq> [] \<and> last (du_applied s) = (length (du_called s) - 1, dns_servers (last (du_called s)))"
proof -
  have inv: "dns_inv s" by (rule dns_inv_reachable[OF assms])
  show order: "sorted_wrt (<) (map fst (du_applied s))"
    using inv by (auto simp: dns_inv_def under_way_def sorted_wrt_append)
  show asked: "(n, addr) \<in> set (du_applied s) \<Longrightarrow> dns_asked s n addr" for n addr
    using inv by (auto simp: dns_inv_def)
  show "du_applied s \<noteq> [] \<and> last (du_applied s) = (length (du_called s) - 1, dns_servers (last (du_called s)))"
    if "du_called s \<noteq> []" "du_waiting s = []" "du_updating s = None"
  proof -
    let ?n = "length (du_called s) - 1"
    have n: "?n \<in> set (map fst (du_applied s))" using inv that by (auto simp: dns_inv_def under_way_def)
    then have some: "du_applied s \<noteq> []" by auto
    obtain m addr where l: "last (du_applied s) = (m, addr)" by fastforce
    then have "(m, addr) \<in> set (du_applied s)" using some by (metis last_in_set)
    then have m: "dns_asked s m addr" by (rule asked)
    have "?n \<le> m"
    proof -
      obtain us where "du_applied s = us @ [(m, addr)]" using append_butlast_last_id[OF some] l by metis
      then show ?thesis using n order by (auto simp: sorted_wrt_append)
    qed
    moreover have "m < length (du_called s)" using m unfolding dns_asked_def by blast
    ultimately have "m = ?n" by linarith
    then show ?thesis using some l m that(1) by (simp add: dns_asked_def last_conv_nth)
  qed
qed

text \<open>C36. However the goroutines of \<open>updateDns\<close> are scheduled, the name servers put in place are those of calls in
  the order of their arrival, and once none is under way those of the newest call are in place.\<close>

theorem newest_dns_wins:
  assumes "dns_reachable s"
  shows "sorted_wrt (<) (map fst (du_applied s)) \<and>
    (\<forall>n addr. (n, addr) \<in> set (du_applied s) \<longrightarrow> dns_asked s n addr) \<and>
    (du_called s \<noteq> [] \<and> du_waiting s = [] \<and> du_updating s = None \<longrightarrow>
       du_applied s \<noteq> [] \<and> last (du_applied s) = (length (du_called s) - 1, dns_servers (last (du_called s))))"
  using newest_dns[OF assms] by blast

theorem newest_dns_wins_witness:
  "\<exists>s. dns_reachable s \<and> du_called s = [''1.1.1.1'', ''8.8.8.8,::1''] \<and> map snd (du_applied s) = [[''8.8.8.8'', ''::1'']]"
proof -
  let ?s2 = "handle_update_dns ''8.8.8.8,::1'' (handle_update_dns ''1.1.1.1'' dns_initial)"
  let ?s4 = "dns_apply (dns_check 1 2 [''8.8.8.8'', ''::1''] ?s2)"
  let ?s = "dns_check 0 1 [''1.1.1.1''] ?s4"
  have "dns_reachable ?s2"
    by (intro dns_more[OF _ dns_call] dns_zero) (simp_all add: handle_update_dns_def dns_initial_def Let_def)
  moreover have "(1, 2, [''8.8.8.8'', ''::1'']) \<in> set (du_waiting ?s2)" "du_updating ?s2 = None" by code_simp+
  ultimately have "dns_reachable (dns_check 1 2 [''8.8.8.8'', ''::1''] ?s2)" by (blast intro: dns_more dns_lock)
  moreover have "du_updating (dns_check 1 2 [''8.8.8.8'', ''::1''] ?s2) = Some (1, [''8.8.8.8'', ''::1''])" by code_simp
  ultimately have "dns_reachable ?s4" by (blast intro: dns_more dns_update)
  moreover have "(0, 1, [''1.1.1.1'']) \<in> set (du_waiting ?s4)" "du_updating ?s4 = None" by code_simp+
  ultimately have "dns_reachable ?s" by (blast intro: dns_more dns_lock)
  then obtain s where s: "s = ?s" and r: "dns_reachable s" by blast
  have quiet: "du_waiting s = []" "du_updating s = None" unfolding s by code_simp+
  have called: "du_called s = [''1.1.1.1'', ''8.8.8.8,::1'']" unfolding s by code_simp
  then have "last (du_applied s) = (length (du_called s) - 1, dns_servers (last (du_called s)))"
    using newest_dns_wins[OF r] quiet by simp
  moreover have "map snd (du_applied s) = [[''8.8.8.8'', ''::1'']]" unfolding s by code_simp
  ultimately show ?thesis using r called by (intro exI[of _ s] conjI)
qed

end
