(* ===== verification/Tun_Handler.thy ===== *)
theory Tun_Handler
  imports Procfs Fd_Limit
begin

text \<open>
  The tunnel of \<open>core/lib.go\<close> and the callbacks of \<open>core/mobile/mobile.go\<close>: a handler with a listener and
  the callbacks of the Android service, swapped in and out while other goroutines dial. A dial loads the
  active handler and uses it later, when it may have been replaced; the steps keep the two apart.

  A listener is a number, given out by \<open>t.Start\<close> (theory \<open>Tun_Start\<close>). The lemmas show that a socket is
  protected, and a process resolved, only by the callbacks of the tunnel in force, and that every
  listener is closed once.
\<close>

subsection \<open>Callbacks\<close>

text \<open>The Android service's side, where None is the error of a Java exception, and the wrapper.\<close>

record service =
  sv_protect :: "32 word \<Rightarrow> bool option"
  sv_uid :: "32 word \<Rightarrow> string \<Rightarrow> string \<Rightarrow> 32 word option"
  sv_package :: "32 word \<Rightarrow> string option"

definition protect :: "service \<Rightarrow> int \<Rightarrow> bool" where
  "protect c fd = (sv_protect c (word_of_int fd) = Some True)"

definition resolve_uid :: "service \<Rightarrow> int \<Rightarrow> string \<Rightarrow> string \<Rightarrow> int" where
  "resolve_uid c protocol source target =
     (case sv_uid c (word_of_int protocol) source target of None \<Rightarrow> -1 | Some uid \<Rightarrow> sint uid)"

definition resolve_package :: "service \<Rightarrow> int \<Rightarrow> string" where
  "resolve_package c uid = (case sv_package c (word_of_int uid) of None \<Rightarrow> [] | Some name \<Rightarrow> name)"

subsection \<open>State\<close>

record tun_handler =
  th_listener :: "nat option"
  th_callbacks :: "service option"

text \<open>
  The handlers by address, \<open>activeTunHandler\<close>, \<open>tunHandler\<close>, whether the hooks are installed, how far a
  start has come, the dials that hold a handler they loaded, and what happened to listeners and sockets.
\<close>

datatype tun_phase = Quiet | Entered service | Starting nat

record tun_state =
  ta_handlers :: "nat \<Rightarrow> tun_handler option"
  ta_next :: nat
  ta_active :: "nat option"
  ta_tun :: "nat option"
  ta_hooked :: bool
  ta_phase :: tun_phase
  ta_dials :: "(nat \<times> int) list"
  ta_opened :: "nat list"
  ta_closed :: "nat list"
  ta_protected :: "(service \<times> int) list"

definition tun_initial :: tun_state where
  "tun_initial = \<lparr>ta_handlers = (\<lambda>_. None), ta_next = 0, ta_active = None, ta_tun = None, ta_hooked = False,
     ta_phase = Quiet, ta_dials = [], ta_opened = [], ta_closed = [], ta_protected = []\<rparr>"

subsection \<open>The handler\<close>

definition remove_hook :: "nat \<Rightarrow> tun_state \<Rightarrow> tun_state" where
  "remove_hook h s = (if ta_active s = Some h then s\<lparr>ta_active := None\<rparr> else s)"

definition install_hooks :: "tun_state \<Rightarrow> tun_state" where
  "install_hooks s = (if ta_hooked s then s else s\<lparr>ta_hooked := True\<rparr>)"

definition init_hook :: "nat \<Rightarrow> tun_state \<Rightarrow> tun_state" where
  "init_hook h s = (install_hooks s)\<lparr>ta_active := Some h\<rparr>"

definition clear_handler :: "nat \<Rightarrow> tun_state \<Rightarrow> tun_state" where
  "clear_handler h s =
     (let s1 = remove_hook h s
      in case ta_handlers s1 h of
           None \<Rightarrow> s1
         | Some th \<Rightarrow>
             s1\<lparr>ta_closed := ta_closed s1 @ (case th_listener th of None \<Rightarrow> [] | Some l \<Rightarrow> [l]),
                ta_handlers := (ta_handlers s1)(h \<mapsto> \<lparr>th_listener = None, th_callbacks = None\<rparr>)\<rparr>)"

text \<open>Both hooks return early until the listener is set and once the handler is cleared.\<close>

definition live_callbacks :: "tun_state \<Rightarrow> nat \<Rightarrow> service option" where
  "live_callbacks s h =
     (case ta_handlers s h of None \<Rightarrow> None | Some th \<Rightarrow> if th_listener th = None then None else th_callbacks th)"

definition handle_protect :: "nat \<Rightarrow> int \<Rightarrow> tun_state \<Rightarrow> tun_state" where
  "handle_protect h fd s =
     (case live_callbacks s h of
        None \<Rightarrow> s
      | Some c \<Rightarrow> s\<lparr>ta_protected := ta_protected s @ [(c, fd)]\<rparr>)"

definition ip_protocol :: "string \<Rightarrow> int" where
  "ip_protocol n =
     (if n \<in> {''udp'', ''udp4'', ''udp6''} then 17 else if n \<in> {''tcp'', ''tcp4'', ''tcp6''} then 6 else 0)"

definition handle_resolve_process ::
  "32 word \<Rightarrow> net_tables \<Rightarrow> (net_addr \<Rightarrow> string) \<Rightarrow> tun_state \<Rightarrow> nat \<Rightarrow> net_addr \<Rightarrow> net_addr \<Rightarrow> int \<times> string" where
  "handle_resolve_process sdk nt text s h source target =
     (case live_callbacks s h of
        None \<Rightarrow> (-1, [])
      | Some c \<Rightarrow>
          (let uid = (if sint sdk < 29 then query_socket_uid nt source
                      else resolve_uid c (ip_protocol (network source)) (text source) (text target))
           in if uid < 0 then (-1, []) else (uid, resolve_package c uid)))"

text \<open>The hooks: what a dial does before it is connected, and the package of a connection.\<close>

datatype dial_verdict = Blocked | Unprotected | Protecting nat

definition socket_hook :: "bool \<Rightarrow> tun_state \<Rightarrow> dial_verdict" where
  "socket_hook blocked s =
     (if blocked then Blocked else case ta_active s of None \<Rightarrow> Unprotected | Some h \<Rightarrow> Protecting h)"

definition package_name_resolver ::
  "32 word \<Rightarrow> net_tables \<Rightarrow> (net_addr \<Rightarrow> string) \<Rightarrow> tun_state \<Rightarrow> net_addr option \<Rightarrow> net_addr option \<Rightarrow> u32
   \<Rightarrow> string option \<times> u32" where
  "package_name_resolver sdk nt text s src dst uid0 =
     (case (ta_active s, src, dst) of
        (Some h, Some source, Some target) \<Rightarrow>
          (case handle_resolve_process sdk nt text s h source target of
             (uid, name) \<Rightarrow> (Some name, if 0 \<le> uid then word_of_int uid else uid0))
      | _ \<Rightarrow> (None, uid0))"

subsection \<open>Starting and stopping\<close>

definition stop_tun_locked :: "tun_state \<Rightarrow> tun_state" where
  "stop_tun_locked s = (case ta_tun s of None \<Rightarrow> s | Some h \<Rightarrow> (clear_handler h s)\<lparr>ta_tun := None\<rparr>)"

text \<open>\<open>handleStartTun\<close> up to the new handler; \<open>start\<close> up to \<open>t.Start\<close>; and the rest of both.\<close>

definition enter_start :: "service \<Rightarrow> int \<Rightarrow> tun_state \<Rightarrow> tun_state" where
  "enter_start c fd s = (stop_tun_locked s)\<lparr>ta_phase := (if fd = 0 then Quiet else Entered c)\<rparr>"

definition begin_start :: "service \<Rightarrow> tun_state \<Rightarrow> tun_state" where
  "begin_start c s =
     (let h = ta_next s
      in init_hook h (s\<lparr>ta_handlers := (ta_handlers s)(h \<mapsto> \<lparr>th_listener = None, th_callbacks = Some c\<rparr>),
                        ta_next := Suc h, ta_tun := Some h, ta_phase := Starting h\<rparr>))"

definition finish_start :: "nat \<Rightarrow> nat option \<Rightarrow> tun_state \<Rightarrow> tun_state" where
  "finish_start h made s =
     (case made of
        Some l \<Rightarrow> s\<lparr>ta_handlers := (ta_handlers s)(h := map_option (\<lambda>th. th\<lparr>th_listener := Some l\<rparr>) (ta_handlers s h)),
                     ta_opened := ta_opened s @ [l], ta_phase := Quiet\<rparr>
      | None \<Rightarrow> (clear_handler h s)\<lparr>ta_tun := None, ta_phase := Quiet\<rparr>)"

text \<open>A start with nothing between its parts, and its answer.\<close>

definition handle_start_tun :: "service \<Rightarrow> int \<Rightarrow> nat option \<Rightarrow> tun_state \<Rightarrow> bool \<times> tun_state" where
  "handle_start_tun c fd made s =
     (let s1 = enter_start c fd s
      in if fd = 0 then (False, s1)
         else (made \<noteq> None, finish_start (ta_next s1) made (begin_start c s1)))"

definition handle_stop_tun :: "tun_state \<Rightarrow> tun_state" where
  "handle_stop_tun s = stop_tun_locked s"

inductive tun_step :: "tun_state \<Rightarrow> tun_state \<Rightarrow> bool" where
  tun_stop: "ta_phase s = Quiet \<Longrightarrow> tun_step s (handle_stop_tun s)"
| tun_enter: "ta_phase s = Quiet \<Longrightarrow> tun_step s (enter_start c fd s)"
| tun_begin: "ta_phase s = Entered c \<Longrightarrow> tun_step s (begin_start c s)"
| tun_finish: "ta_phase s = Starting h \<Longrightarrow> (\<forall>l. made = Some l \<longrightarrow> l \<notin> set (ta_opened s)) \<Longrightarrow>
     tun_step s (finish_start h made s)"
| tun_dial: "socket_hook blocked s = Protecting h \<Longrightarrow> tun_step s (s\<lparr>ta_dials := (h, fd) # ta_dials s\<rparr>)"
| tun_protect: "(h, fd) \<in> set (ta_dials s) \<Longrightarrow>
     tun_step s (handle_protect h fd (s\<lparr>ta_dials := remove1 (h, fd) (ta_dials s)\<rparr>))"

inductive tun_reachable :: "tun_state \<Rightarrow> bool" where
  tun_zero: "tun_reachable tun_initial"
| tun_more: "tun_reachable s \<Longrightarrow> tun_step s s' \<Longrightarrow> tun_reachable s'"

subsection \<open>The tunnel in force\<close>

definition cleared :: tun_handler where
  "cleared = \<lparr>th_listener = None, th_callbacks = None\<rparr>"

text \<open>Which handler the phase makes current, and what it must hold.\<close>

definition current_ok :: "tun_state \<Rightarrow> bool" where
  "current_ok s \<longleftrightarrow>
     (case ta_phase s of
        Entered _ \<Rightarrow> ta_tun s = None
      | Starting h \<Rightarrow> ta_tun s = Some h \<and> (\<exists>c. ta_handlers s h = Some \<lparr>th_listener = None, th_callbacks = Some c\<rparr>)
      | Quiet \<Rightarrow>
          (case ta_tun s of
             None \<Rightarrow> True
           | Some h \<Rightarrow> \<exists>l c. ta_handlers s h = Some \<lparr>th_listener = Some l, th_callbacks = Some c\<rparr>))"

definition in_force :: "tun_state \<Rightarrow> nat option" where
  "in_force s = Option.bind (ta_tun s) (\<lambda>h. Option.bind (ta_handlers s h) th_listener)"

definition tun_inv :: "tun_state \<Rightarrow> bool" where
  "tun_inv s \<longleftrightarrow> current_ok s \<and> ta_active s = ta_tun s \<and>
     (\<forall>h th. ta_handlers s h = Some th \<longrightarrow> h < ta_next s \<and> (ta_tun s \<noteq> Some h \<longrightarrow> th = cleared)) \<and>
     ta_opened s = ta_closed s @ (case in_force s of None \<Rightarrow> [] | Some l \<Rightarrow> [l]) \<and> distinct (ta_opened s)"

lemma tun_inv_initial: "tun_inv tun_initial"
  by (simp add: tun_inv_def tun_initial_def current_ok_def in_force_def)

lemma stop_tun_inv:
  assumes "tun_inv s" "ta_phase s = Quiet"
  shows "tun_inv (stop_tun_locked s)" "ta_tun (stop_tun_locked s) = None" "ta_phase (stop_tun_locked s) = Quiet"
  using assms
  by (auto simp: tun_inv_def current_ok_def in_force_def stop_tun_locked_def clear_handler_def remove_hook_def
      cleared_def Let_def split: option.splits)

lemma enter_start_inv:
  assumes "tun_inv s" "ta_phase s = Quiet"
  shows "tun_inv (enter_start c fd s)"
  using stop_tun_inv[OF assms]
  by (auto simp: enter_start_def tun_inv_def current_ok_def in_force_def)

lemma begin_start_inv:
  assumes "tun_inv s" "ta_phase s = Entered c"
  shows "tun_inv (begin_start c s)"
  using assms
  by (auto simp: tun_inv_def current_ok_def in_force_def begin_start_def init_hook_def install_hooks_def Let_def
      intro: less_SucI split: if_splits)

lemma finish_start_inv:
  assumes "tun_inv s" "ta_phase s = Starting h" "\<forall>l. made = Some l \<longrightarrow> l \<notin> set (ta_opened s)"
  shows "tun_inv (finish_start h made s)"
  using assms
  by (cases made)
    (auto simp: tun_inv_def current_ok_def in_force_def finish_start_def clear_handler_def remove_hook_def
      cleared_def Let_def split: if_splits)

lemma handle_protect_fields:
  "ta_handlers (handle_protect h fd s) = ta_handlers s" "ta_next (handle_protect h fd s) = ta_next s"
  "ta_active (handle_protect h fd s) = ta_active s" "ta_tun (handle_protect h fd s) = ta_tun s"
  "ta_phase (handle_protect h fd s) = ta_phase s" "ta_opened (handle_protect h fd s) = ta_opened s"
  "ta_closed (handle_protect h fd s) = ta_closed s"
  by (simp_all add: handle_protect_def split: option.split)

lemma tun_inv_dials: "tun_inv (s\<lparr>ta_dials := ds\<rparr>) = tun_inv s"
  by (simp add: tun_inv_def current_ok_def in_force_def cong: tun_phase.case_cong option.case_cong)

lemma tun_inv_protect: "tun_inv (handle_protect h fd s) = tun_inv s"
  by (simp add: tun_inv_def current_ok_def in_force_def handle_protect_fields cong: tun_phase.case_cong option.case_cong)

lemma tun_inv_step: "tun_step s s' \<Longrightarrow> tun_inv s \<Longrightarrow> tun_inv s'"
proof (induction rule: tun_step.induct)
  case (tun_stop s)
  then show ?case unfolding handle_stop_tun_def by (rule stop_tun_inv[rotated])
next
  case (tun_enter s c fd)
  then show ?case by (blast intro: enter_start_inv)
next
  case (tun_begin s c)
  then show ?case by (blast intro: begin_start_inv)
next
  case (tun_finish s h made)
  then show ?case by (blast intro: finish_start_inv)
next
  case (tun_dial blocked s h fd)
  then show ?case by (simp only: tun_inv_dials)
next
  case (tun_protect h fd s)
  then show ?case by (simp only: tun_inv_protect tun_inv_dials)
qed

lemma tun_inv_reachable: "tun_reachable s \<Longrightarrow> tun_inv s"
  by (induction rule: tun_reachable.induct) (auto intro: tun_inv_initial tun_inv_step)

text \<open>A handler whose callbacks may be used is the tunnel in force.\<close>

lemma live_in_force:
  assumes "tun_inv s" "live_callbacks s h = Some c"
  shows "ta_tun s = Some h" "ta_active s = Some h" "ta_phase s = Quiet" "in_force s \<noteq> None"
proof -
  obtain th where th: "ta_handlers s h = Some th" "th_listener th \<noteq> None"
    using assms(2) by (auto simp: live_callbacks_def split: option.splits if_splits)
  then have "th \<noteq> cleared" by (auto simp: cleared_def)
  then show tun: "ta_tun s = Some h" using assms(1) th(1) unfolding tun_inv_def by blast
  then show "ta_active s = Some h" "in_force s \<noteq> None"
    using assms(1) th by (auto simp: tun_inv_def in_force_def)
  show "ta_phase s = Quiet"
    using assms(1) tun th by (cases "ta_phase s") (auto simp: tun_inv_def current_ok_def)
qed

lemma protected_step:
  assumes "tun_step s s'"
  shows "ta_protected s' = ta_protected s \<or>
    (\<exists>h c fd. live_callbacks s h = Some c \<and> (h, fd) \<in> set (ta_dials s) \<and> ta_protected s' = ta_protected s @ [(c, fd)])"
  using assms
proof (cases rule: tun_step.cases)
  case (tun_protect h fd)
  have "live_callbacks (s\<lparr>ta_dials := ds\<rparr>) h = live_callbacks s h" for ds by (simp add: live_callbacks_def)
  then show ?thesis using tun_protect by (auto simp: handle_protect_def split: option.splits)
qed (auto simp: handle_stop_tun_def enter_start_def stop_tun_locked_def begin_start_def init_hook_def install_hooks_def
      finish_start_def clear_handler_def remove_hook_def Let_def split: option.splits)

lemma handle_start_reachable:
  assumes "tun_reachable s" "ta_phase s = Quiet" "\<forall>l. made = Some l \<longrightarrow> l \<notin> set (ta_opened s)"
  shows "tun_reachable (snd (handle_start_tun c fd made s))"
proof (cases "fd = 0")
  case True
  then show ?thesis
    using tun_more[OF assms(1) tun_enter[OF assms(2), of c fd]] by (simp add: handle_start_tun_def Let_def)
next
  case False
  let ?s1 = "enter_start c fd s"
  have "tun_reachable ?s1" by (rule tun_more[OF assms(1) tun_enter[OF assms(2)]])
  moreover have "ta_phase ?s1 = Entered c" using False by (simp add: enter_start_def)
  ultimately have r: "tun_reachable (begin_start c ?s1)" by (blast intro: tun_more tun_begin)
  have "ta_phase (begin_start c ?s1) = Starting (ta_next ?s1)"
    by (simp add: begin_start_def init_hook_def install_hooks_def Let_def)
  moreover have "ta_opened (begin_start c ?s1) = ta_opened s"
    by (simp add: begin_start_def init_hook_def install_hooks_def enter_start_def stop_tun_locked_def clear_handler_def
        remove_hook_def Let_def split: option.split)
  ultimately show ?thesis using tun_more[OF r tun_finish] assms(3) False by (simp add: handle_start_tun_def Let_def)
qed

lemma start_in_force:
  "fst (handle_start_tun c fd made s) \<longleftrightarrow> fd \<noteq> 0 \<and> made \<noteq> None"
  "in_force (snd (handle_start_tun c fd made s)) = (if fd = 0 then None else made)"
  "ta_phase (snd (handle_start_tun c fd made s)) = Quiet"
proof -
  have stopped: "in_force (stop_tun_locked s) = None"
    by (simp add: in_force_def stop_tun_locked_def split: option.split)
  show "fst (handle_start_tun c fd made s) \<longleftrightarrow> fd \<noteq> 0 \<and> made \<noteq> None"
    by (simp add: handle_start_tun_def Let_def)
  show "in_force (snd (handle_start_tun c fd made s)) = (if fd = 0 then None else made)"
    using stopped
    by (auto simp: handle_start_tun_def enter_start_def begin_start_def init_hook_def install_hooks_def finish_start_def
        in_force_def Let_def split: option.split)
  show "ta_phase (snd (handle_start_tun c fd made s)) = Quiet"
    by (auto simp: handle_start_tun_def enter_start_def finish_start_def Let_def split: option.split)
qed

lemma callbacks_in_force:
  assumes "tun_reachable s"
  shows "tun_step s s' \<Longrightarrow> ta_protected s' = ta_protected s \<or>
      (\<exists>h c fd. ta_tun s = Some h \<and> in_force s \<noteq> None \<and> live_callbacks s h = Some c \<and> ta_protected s' = ta_protected s @ [(c, fd)])"
    "handle_resolve_process sdk nt text s h source target \<noteq> (-1, []) \<Longrightarrow> ta_tun s = Some h"
    "ta_opened s = ta_closed s @ (case in_force s of None \<Rightarrow> [] | Some l \<Rightarrow> [l])" "distinct (ta_opened s)"
    "ta_active s = ta_tun s"
proof -
  have inv: "tun_inv s" by (rule tun_inv_reachable[OF assms])
  show "tun_step s s' \<Longrightarrow> ta_protected s' = ta_protected s \<or>
      (\<exists>h c fd. ta_tun s = Some h \<and> in_force s \<noteq> None \<and> live_callbacks s h = Some c \<and> ta_protected s' = ta_protected s @ [(c, fd)])"
    using protected_step[of s s'] live_in_force[OF inv] by blast
  show "handle_resolve_process sdk nt text s h source target \<noteq> (-1, []) \<Longrightarrow> ta_tun s = Some h"
    using live_in_force(1)[OF inv, of h] by (auto simp: handle_resolve_process_def split: option.splits)
  show "ta_opened s = ta_closed s @ (case in_force s of None \<Rightarrow> [] | Some l \<Rightarrow> [l])" "distinct (ta_opened s)"
    "ta_active s = ta_tun s" using inv unfolding tun_inv_def by blast+
qed

text \<open>C35. Whatever dials, starts and stops interleave, a socket is protected and a process resolved only by the
  callbacks of the tunnel in force, never by those of one that is starting, stopped or replaced, also when
  the dial loaded its handler before; the active handler is the tunnel's; and every listener opened is
  closed once, in order, except the one in force.\<close>

theorem tun_callbacks_in_force:
  assumes "tun_reachable s"
  shows "(tun_step s s' \<longrightarrow> ta_protected s' = ta_protected s \<or>
      (\<exists>h c fd. ta_tun s = Some h \<and> in_force s \<noteq> None \<and> live_callbacks s h = Some c \<and> ta_protected s' = ta_protected s @ [(c, fd)])) \<and>
    (handle_resolve_process sdk nt text s h source target \<noteq> (-1, []) \<longrightarrow> ta_tun s = Some h) \<and>
    ta_opened s = ta_closed s @ (case in_force s of None \<Rightarrow> [] | Some l \<Rightarrow> [l]) \<and> distinct (ta_opened s) \<and>
    ta_active s = ta_tun s"
  using callbacks_in_force[OF assms] by blast

lemmas tun_ops = handle_start_tun_def enter_start_def stop_tun_locked_def begin_start_def init_hook_def install_hooks_def
  finish_start_def clear_handler_def remove_hook_def tun_initial_def socket_hook_def handle_protect_def
  live_callbacks_def Let_def

definition demo_service :: service where
  "demo_service = \<lparr>sv_protect = (\<lambda>_. Some True), sv_uid = (\<lambda>_ _ _. Some 1000), sv_package = (\<lambda>_. Some ''app'')\<rparr>"

theorem tun_callbacks_in_force_witness:
  "\<exists>s s'. tun_reachable s \<and> tun_step s s' \<and> ta_closed s = [1] \<and> ta_opened s = [1, 2] \<and>
     ta_protected s' = [(demo_service, 40)] \<and> (\<exists>h. ta_tun s = Some h \<and> live_callbacks s h = Some demo_service)"
proof -
  let ?s1 = "snd (handle_start_tun demo_service 7 (Some 1) tun_initial)"
  let ?s2 = "snd (handle_start_tun demo_service 8 (Some 2) ?s1)"
  let ?s = "?s2\<lparr>ta_dials := [(1, 40)]\<rparr>"
  let ?s' = "handle_protect 1 40 (?s\<lparr>ta_dials := remove1 (1, 40) (ta_dials ?s)\<rparr>)"
  have 1: "ta_opened ?s1 = [1]" "ta_phase ?s1 = Quiet" "tun_reachable ?s1"
    by (simp add: tun_ops, simp add: tun_ops, rule handle_start_reachable[OF tun_zero]) (simp_all add: tun_initial_def)
  have "tun_reachable ?s2" by (rule handle_start_reachable[OF 1(3,2)]) (simp add: tun_ops)
  moreover have "socket_hook False ?s2 = Protecting 1" by (simp add: tun_ops)
  moreover have "ta_dials ?s2 = []" by (simp add: tun_ops)
  ultimately have r: "tun_reachable ?s" using tun_more[OF _ tun_dial[of False ?s2 1 40]] by simp
  have step: "tun_step ?s ?s'" by (rule tun_protect) simp
  have log: "ta_protected ?s = []" "ta_protected ?s' = [(demo_service, 40)]"
    by (simp_all add: tun_ops)
  have "ta_opened ?s = [1, 2]" "ta_closed ?s = [1]" by (simp_all add: tun_ops)
  moreover have "\<exists>h c fd. ta_tun ?s = Some h \<and> in_force ?s \<noteq> None \<and> live_callbacks ?s h = Some c \<and>
      ta_protected ?s' = ta_protected ?s @ [(c, fd)]"
    using tun_callbacks_in_force[OF r, of ?s'] step log by auto
  ultimately show ?thesis using r step log by fastforce
qed

end
