(* ===== verification/Android.thy ===== *)
theory Android
  imports Tun_Handler Core_Config Dispatch
begin

text \<open>
  The exports of \<open>core/lib.go\<close>, through which Android drives the Core: the tunnel with the listeners, the
  setup in one call, the listener of events, method calls and the collection of garbage.

  The decoders of the texts are arguments, and \<open>t.Start\<close> (theory \<open>Tun_Start\<close>) has answered with a
  listener or not. The lemmas show that the exports, in any order and between the calls of the Core,
  keep the configuration in force and the tunnel consistent.
\<close>

subsection \<open>State\<close>

text \<open>The Core, the tunnel, \<open>methodCallSeq\<close>, the listener of events with its flag, and what it was given.\<close>

record ('x, 'p, 'm, 's) app =
  ap_core :: "('x, 'p, 'm, 's) core"
  ap_tun :: tun_state
  ap_seq :: u64
  ap_listener :: "nat option"
  ap_listening :: bool
  ap_delivered :: "(nat \<times> bytes) list"

subsection \<open>The tunnel and the listeners\<close>

definition handle_reset_connections :: "('x, 'p, 'm, 's) core \<Rightarrow> ('x, 'p, 'm, 's) core" where
  "handle_reset_connections s = s\<lparr>cs_process := reset_connection (cs_process s)\<rparr>"

definition start_tun ::
  "service \<Rightarrow> int \<Rightarrow> nat option \<Rightarrow> ('x, 'p, 'm, 's) app \<Rightarrow> bool \<times> ('x, 'p, 'm, 's) app" where
  "start_tun callbacks fd made s =
     (case handle_start_tun callbacks fd made (ap_tun s) of (started, tn) \<Rightarrow>
        (let s1 = s\<lparr>ap_tun := tn\<rparr>; core = ap_core s
         in if \<not> started then (False, s1)
            else if \<not> cs_running core then (True, s1\<lparr>ap_core := snd (handle_start_listener True core)\<rparr>)
            else (let core1 = handle_reset_connections core
                  in (True, s1\<lparr>ap_core := core1\<lparr>cs_route := bump_route_epoch (cs_tunnel core1) (cs_route core1)\<rparr>\<rparr>))))"

definition start_listener :: "('x, 'p, 'm, 's) app \<Rightarrow> ('x, 'p, 'm, 's) app" where
  "start_listener s =
     (if \<not> cs_running (ap_core s) then s\<lparr>ap_core := snd (handle_start_listener True (ap_core s))\<rparr> else s)"

definition stop_listener_export :: "('x, 'p, 'm, 's) app \<Rightarrow> ('x, 'p, 'm, 's) app" where
  "stop_listener_export s =
     (if cs_running (ap_core s) then s\<lparr>ap_core := snd (handle_stop_listener (ap_core s))\<rparr> else s)"

definition stop_tun :: "('x, 'p, 'm, 's) app \<Rightarrow> ('x, 'p, 'm, 's) app" where
  "stop_tun s = stop_listener_export (s\<lparr>ap_tun := handle_stop_tun (ap_tun s)\<rparr>)"

subsection \<open>Setup in one call\<close>

text \<open>
  The parameters decoded, the setup's as the error of their text or their value. The answer is a
  message, empty on success.
\<close>

definition quick_setup ::
  "(string \<times> int) option \<Rightarrow> string + setup_params \<Rightarrow> ('x, 'p, 'm, 's) apply_world
   \<Rightarrow> (setup_params \<Rightarrow> string + 'x config) \<Rightarrow> ('x, 'p, 'm, 's) app \<Rightarrow> string \<times> ('x, 'p, 'm, 's) app" where
  "quick_setup init_params params w load s =
     (case init_params of
        None \<Rightarrow> (''init failed'', s)
      | Some (home, version) \<Rightarrow>
          (let core1 = snd (handle_init_clash home version (ap_core s))
           in case params of
                Inl e \<Rightarrow> (e, s\<lparr>ap_core := core1\<rparr>)
              | Inr p \<Rightarrow>
                  (case handle_setup_config True w load p (core1\<lparr>cs_running := True\<rparr>) of
                     (Some e, core2) \<Rightarrow> (e, s\<lparr>ap_core := core2\<rparr>)
                   | (None, core2) \<Rightarrow> ([], s\<lparr>ap_core := core2\<rparr>))))"

subsection \<open>Events and calls\<close>

text \<open>The listener goes away with the engine, and the route watch it held with it.\<close>

definition set_event_listener :: "nat option \<Rightarrow> ('x, 'p, 'm, 's) app \<Rightarrow> ('x, 'p, 'm, 's) app" where
  "set_event_listener listener s =
     (let s1 = s\<lparr>ap_listener := listener, ap_listening := (listener \<noteq> None)\<rparr>
      in if listener \<noteq> None then s1
         else (case stop_route_watch (ap_seq s1) (cs_route (ap_core s1)) of
                 (seq, rt) \<Rightarrow> s1\<lparr>ap_seq := seq, ap_core := (ap_core s1)\<lparr>cs_route := rt\<rparr>\<rparr>))"

definition has_event_listener :: "('x, 'p, 'm, 's) app \<Rightarrow> bool" where
  "has_event_listener s = ap_listening s"

definition deliver_event :: "bytes \<Rightarrow> ('x, 'p, 'm, 's) app \<Rightarrow> ('x, 'p, 'm, 's) app" where
  "deliver_event data s =
     (case ap_listener s of None \<Rightarrow> s | Some l \<Rightarrow> s\<lparr>ap_delivered := ap_delivered s @ [(l, data)]\<rparr>)"

text \<open>A text that is no call is answered at once; any other is dispatched.\<close>

definition invoke_method ::
  "(string \<Rightarrow> string + method_call) \<Rightarrow> ('v response \<Rightarrow> string + bytes) \<Rightarrow> u64 \<Rightarrow> string
   \<Rightarrow> bytes + (u64 \<times> method_call option)" where
  "invoke_method unmarshal marshal seq data =
     (case unmarshal data of
        Inl e \<Rightarrow> Inl (encode_response marshal (error_response [] ''invalid_method_call'' e))
      | Inr call \<Rightarrow> Inr (dispatch_method_call seq call))"

definition marshal_result :: "('v \<Rightarrow> string + bytes) \<Rightarrow> 'v \<Rightarrow> bytes" where
  "marshal_result marshal v = (case marshal v of Inl _ \<Rightarrow> [] | Inr data \<Rightarrow> data)"

text \<open>Android adds a method to the table.\<close>

definition android_table :: "(string \<times> handler_kind) list option" where
  "android_table = register_method ''updateDns'' WithArguments method_table"

lemma android_table: "android_table = Some ((''updateDns'', WithArguments) # method_table)"
  by (simp add: android_table_def register_method_def method_table_def)

subsection \<open>Every export, in any order\<close>

inductive app_step :: "('x, 'p, 'm, 's) apply_world \<Rightarrow> ('x, 'p, 'm, 's) app \<Rightarrow> ('x, 'p, 'm, 's) app \<Rightarrow> bool" for w where
  app_start_tun: "ta_phase (ap_tun s) = Quiet \<Longrightarrow> (\<forall>l. made = Some l \<longrightarrow> l \<notin> set (ta_opened (ap_tun s))) \<Longrightarrow>
     app_step w s (snd (start_tun callbacks fd made s))"
| app_stop_tun: "ta_phase (ap_tun s) = Quiet \<Longrightarrow> app_step w s (stop_tun s)"
| app_start: "app_step w s (start_listener s)"
| app_stop: "app_step w s (stop_listener_export s)"
| app_quick: "app_step w s (snd (quick_setup init_params params w load s))"
| app_listen: "app_step w s (set_event_listener listener s)"
| app_deliver: "app_step w s (deliver_event data s)"
| app_core: "core_step True w (ap_core s) core \<Longrightarrow> app_step w s (s\<lparr>ap_core := core\<rparr>)"
| app_tun: "tun_step (ap_tun s) tn \<Longrightarrow> app_step w s (s\<lparr>ap_tun := tn\<rparr>)"

inductive app_reachable :: "('x, 'p, 'm, 's) apply_world \<Rightarrow> ('x, 'p, 'm, 's) app \<Rightarrow> bool" for w where
  app_zero: "core_reachable True w core \<Longrightarrow>
     app_reachable w \<lparr>ap_core = core, ap_tun = tun_initial, ap_seq = 0, ap_listener = None, ap_listening = False, ap_delivered = []\<rparr>"
| app_more: "app_reachable w s \<Longrightarrow> app_step w s s' \<Longrightarrow> app_reachable w s'"

definition app_inv :: "('x, 'p, 'm, 's) app \<Rightarrow> bool" where
  "app_inv s \<longleftrightarrow> core_inv True (ap_core s) \<and> tun_reachable (ap_tun s) \<and> (ap_listening s \<longleftrightarrow> ap_listener s \<noteq> None)"

lemma core_inv_route: "core_inv android (s\<lparr>cs_route := rt\<rparr>) = core_inv android s"
  by (simp add: core_inv_def cong: option.case_cong)

lemma core_inv_reset: "core_inv android (handle_reset_connections s) = core_inv android s"
  by (simp add: core_inv_def handle_reset_connections_def cong: option.case_cong)

lemma core_inv_listeners:
  "core_inv android s \<Longrightarrow> core_inv android (snd (handle_start_listener android s))"
  "core_inv android s \<Longrightarrow> core_inv android (snd (handle_stop_listener s))"
  "core_inv android s \<Longrightarrow> core_inv android (snd (handle_init_clash home version s))"
  using update_listeners_listening
  by (auto simp: core_inv_def handle_start_listener_def handle_stop_listener_def handle_init_clash_def split: option.splits)

lemma core_inv_quick:
  assumes "applies w" "aw_fallback w \<noteq> None" "cs_init s"
  shows "core_inv True (snd (handle_setup_config True w load p s))"
proof -
  let ?s1 = "s\<lparr>cs_process := (set_test_url (sp_test_url p) (cs_process s))\<lparr>pr_skip_cert_verify := sp_skip_cert_verify p\<rparr>\<rparr>"
  have "core_inv True (put_config True w p cfg ?s1)" for cfg
    by (rule core_inv_put[OF assms(1)]) (simp add: assms(3))
  then show ?thesis
    using assms(2,3) by (auto simp: handle_setup_config_def apply_config_def Let_def split: sum.split option.split)
qed

lemma app_inv_quick:
  assumes "applies w" "aw_fallback w \<noteq> None" "app_inv s"
  shows "app_inv (snd (quick_setup init_params params w load s))"
proof (cases init_params)
  case None
  then show ?thesis using assms(3) by (simp add: quick_setup_def)
next
  case (Some hv)
  obtain home version where hv: "hv = (home, version)" by fastforce
  let ?core = "snd (handle_init_clash home version (ap_core s))"
  show ?thesis
  proof (cases params)
    case (Inl e)
    have "core_inv True ?core"
      using assms(3) core_inv_listeners(3)[of True "ap_core s"] by (simp add: app_inv_def)
    then show ?thesis using Some hv Inl assms(3) by (simp add: quick_setup_def app_inv_def)
  next
    case (Inr p)
    have "core_inv True (snd (handle_setup_config True w load p (?core\<lparr>cs_running := True\<rparr>)))"
      by (rule core_inv_quick[OF assms(1,2)]) (simp add: handle_init_clash_def)
    then show ?thesis using Some hv Inr assms(3)
      by (auto simp: quick_setup_def app_inv_def Let_def split: prod.split option.split)
  qed
qed

lemma app_inv_start:
  assumes "app_inv s" "ta_phase (ap_tun s) = Quiet" "\<forall>l. made = Some l \<longrightarrow> l \<notin> set (ta_opened (ap_tun s))"
  shows "app_inv (snd (start_tun callbacks fd made s))"
proof -
  obtain started tn where t: "handle_start_tun callbacks fd made (ap_tun s) = (started, tn)" by fastforce
  have "tun_reachable tn"
    using handle_start_reachable[OF _ assms(2,3), of callbacks fd] assms(1) t by (simp add: app_inv_def)
  moreover have "core_inv True (snd (handle_start_listener True (ap_core s)))"
    using core_inv_listeners(1)[of True "ap_core s"] assms(1) by (simp add: app_inv_def)
  ultimately show ?thesis
    using assms(1) t by (simp add: start_tun_def app_inv_def Let_def core_inv_route core_inv_reset)
qed

lemma app_inv_listeners:
  assumes "app_inv s"
  shows "app_inv (start_listener s)" "app_inv (stop_listener_export s)"
  using core_inv_listeners(1,2)[of True "ap_core s"] assms
  by (simp_all add: start_listener_def stop_listener_export_def app_inv_def)

lemma app_step_inv:
  assumes "applies w" "aw_fallback w \<noteq> None"
  shows "app_step w s s' \<Longrightarrow> app_inv s \<Longrightarrow> app_inv s'"
proof (induction rule: app_step.induct)
  case (app_start_tun s made callbacks fd)
  then show ?case by (blast intro: app_inv_start)
next
  case (app_stop_tun s)
  then have "tun_reachable (handle_stop_tun (ap_tun s))" using tun_more tun_stop unfolding app_inv_def by blast
  then have "app_inv (s\<lparr>ap_tun := handle_stop_tun (ap_tun s)\<rparr>)" using app_stop_tun by (simp add: app_inv_def)
  then show ?case unfolding stop_tun_def by (rule app_inv_listeners)
next
  case (app_start s)
  then show ?case by (rule app_inv_listeners)
next
  case (app_stop s)
  then show ?case by (rule app_inv_listeners)
next
  case (app_quick s init_params params load)
  then show ?case by (rule app_inv_quick[OF assms])
next
  case (app_listen s listener)
  then show ?case by (simp add: app_inv_def set_event_listener_def Let_def core_inv_route split: prod.split)
next
  case (app_deliver s data)
  then show ?case by (simp add: app_inv_def deliver_event_def split: option.split)
next
  case (app_core s core)
  then show ?case using core_step_inv[OF _ assms(1)] unfolding app_inv_def by auto
next
  case (app_tun s tn)
  then show ?case using tun_more unfolding app_inv_def by auto
qed

lemma app_reachable_inv:
  assumes "applies w" "aw_fallback w \<noteq> None"
  shows "app_reachable w s \<Longrightarrow> app_inv s"
proof (induction rule: app_reachable.induct)
  case (app_zero core)
  then show ?case using core_reachable_inv[OF _ assms(1)] tun_zero by (simp add: app_inv_def)
next
  case (app_more s s')
  then show ?case by (blast intro: app_step_inv[OF assms])
qed

lemma bump_epoch: "rt_epoch (bump_route_epoch tn rt) = rt_epoch rt + 1"
  by (simp add: bump_route_epoch_def change_route_def refresh_route_locked_def route_state_locked_def max_change_moved Let_def)

lemma start_tun_facts:
  assumes "start_tun callbacks fd made s = (ok, s')"
  shows "ok \<longleftrightarrow> fd \<noteq> 0 \<and> made \<noteq> None" "in_force (ap_tun s') = (if ok then made else None)"
    "ok \<Longrightarrow> cs_running (ap_core s') \<and> rt_epoch (cs_route (ap_core s')) = rt_epoch (cs_route (ap_core s)) + 1 \<and>
       pr_resets (cs_process (ap_core s')) = Suc (pr_resets (cs_process (ap_core s)))"
    "\<not> ok \<Longrightarrow> ap_core s' = ap_core s"
proof -
  obtain started tn where t: "handle_start_tun callbacks fd made (ap_tun s) = (started, tn)" by fastforce
  note facts = start_in_force[of callbacks fd made "ap_tun s", unfolded t]
  have resets: "pr_resets (update_listeners android True cfg pr) = pr_resets pr" for android cfg pr
    by (simp add: update_listeners_def Let_def split: option.split)
  show "ok \<longleftrightarrow> fd \<noteq> 0 \<and> made \<noteq> None" "in_force (ap_tun s') = (if ok then made else None)"
    "\<not> ok \<Longrightarrow> ap_core s' = ap_core s"
    using assms t facts by (auto simp: start_tun_def Let_def split: if_splits)
  show "ok \<Longrightarrow> cs_running (ap_core s') \<and> rt_epoch (cs_route (ap_core s')) = rt_epoch (cs_route (ap_core s)) + 1 \<and>
       pr_resets (cs_process (ap_core s')) = Suc (pr_resets (cs_process (ap_core s)))"
    using assms t
    by (auto simp: start_tun_def handle_start_listener_def handle_reset_connections_def reset_connection_def bump_epoch
        resets Let_def split: if_splits)
qed

lemma stop_tun_facts:
  "in_force (ap_tun (stop_tun s)) = None" "\<not> cs_running (ap_core (stop_tun s))"
  "in_force (handle_stop_tun tn) = None"
  by (auto simp: stop_tun_def stop_listener_export_def handle_stop_tun_def stop_tun_locked_def in_force_def
      handle_stop_listener_def split: option.split)

lemma listener_gone:
  "rt_watched (cs_route (ap_core (set_event_listener None s))) = False"
  "rt_stop_poll (cs_route (ap_core (set_event_listener None s))) = None"
  "deliver_event data (set_event_listener None s) = set_event_listener None s"
  by (simp_all add: set_event_listener_def stop_route_watch_def stop_route_poll_locked_def deliver_event_def Let_def
      split: option.split)


definition demo_app :: "(unit, nat, unit, nat) app" where
  "demo_app = \<lparr>ap_core = demo_core, ap_tun = tun_initial, ap_seq = 0, ap_listener = None, ap_listening = False, ap_delivered = []\<rparr>"


end
