(* ===== verification/Ownership.thy ===== *)
theory Ownership
  imports Go_Prelude
begin

text \<open>
  \<open>core/ownership_unix.go\<close>: a Core that runs with privileges gives the files it made under the user's
  home directory back to the user. Entries are listed first and re-owned later, through descriptors,
  because other processes may replace them in between.

  Inodes are kept apart from the paths that name them; what other processes do between two system
  calls is an argument, and so is what \<open>WalkDir\<close> visits. The lemmas show that whatever happens only
  listed inodes that are safe to give away change hands, and that undisturbed all of them do.
\<close>

subsection \<open>Inodes and paths\<close>

datatype file_kind = Directory | Regular | Symlink | Special

type_synonym inode_id = "u64 \<times> u64" \<comment> \<open>device and number\<close>

record inode =
  in_kind :: file_kind
  in_nlink :: u64
  in_uid :: u32
  in_gid :: u32

record file_system =
  fy_paths :: "string \<rightharpoonup> inode_id"
  fy_inodes :: "inode_id \<rightharpoonup> inode"

text \<open>What \<open>lstat\<close> and \<open>fstat\<close> tell.\<close>

record file_stat =
  st_id :: inode_id
  st_inode :: inode

definition lstat :: "file_system \<Rightarrow> string \<Rightarrow> file_stat option" where
  "lstat fs path =
     Option.bind (fy_paths fs path)
       (\<lambda>i. map_option (\<lambda>n. \<lparr>st_id = i, st_inode = n\<rparr>) (fy_inodes fs i))"

subsection \<open>Whether to give back\<close>

text \<open>The user and group behind the process, and the user it runs as.\<close>

record identity =
  id_uid :: int
  id_gid :: int
  id_euid :: int

definition is_elevated :: "identity \<Rightarrow> bool" where
  "is_elevated p \<longleftrightarrow> id_euid p = 0 \<and> id_uid p \<noteq> 0"

definition can_reclaim :: "file_system \<Rightarrow> string \<Rightarrow> int \<Rightarrow> bool" where
  "can_reclaim fs home uid \<longleftrightarrow>
     home \<noteq> [] \<and>
     (case lstat fs home of
        None \<Rightarrow> False
      | Some st \<Rightarrow> in_kind (st_inode st) = Directory \<and> uint (in_uid (st_inode st)) = uid)"

definition should_reclaim_entry :: "file_stat \<Rightarrow> int \<Rightarrow> bool" where
  "should_reclaim_entry info uid =
     (let n = st_inode info
      in if in_kind n = Symlink then False
         else if uint (in_uid n) = uid then False
         else in_kind n = Directory \<or> in_nlink n \<le> 1)"

record reclaim_target =
  rc_path :: string
  rc_id :: inode_id

text \<open>What the walk calls back with: a path, whether with an error, and what the entry's \<open>Info\<close> tells.\<close>

type_synonym visit = "string \<times> bool \<times> file_stat option"

definition collect_visit :: "int \<Rightarrow> visit \<Rightarrow> reclaim_target list" where
  "collect_visit uid v =
     (case v of (path, failed, info) \<Rightarrow>
        if failed then []
        else (case info of
                None \<Rightarrow> []
              | Some st \<Rightarrow> if \<not> should_reclaim_entry st uid then [] else [\<lparr>rc_path = path, rc_id = st_id st\<rparr>]))"

definition collect_reclaim_targets :: "file_system \<Rightarrow> visit list \<Rightarrow> string \<Rightarrow> int \<Rightarrow> reclaim_target list" where
  "collect_reclaim_targets fs visits home uid =
     (if \<not> can_reclaim fs home uid then [] else concat (map (collect_visit uid) visits))"

definition is_reclaimable_stat :: "inode \<Rightarrow> int \<Rightarrow> bool" where
  "is_reclaimable_stat n uid =
     (case in_kind n of
        Directory \<Rightarrow> uint (in_uid n) \<noteq> uid
      | Regular \<Rightarrow> if 1 < in_nlink n then False else uint (in_uid n) \<noteq> uid
      | _ \<Rightarrow> False)"

subsection \<open>Giving back\<close>

text \<open>
  What happens around one entry: what others do before the descriptor is opened, before it is examined
  and before its owner is changed, and which of the three calls the kernel refuses although it could
  serve them. A change of owner is logged with what the examination told.
\<close>

record around =
  ar_open :: "file_system \<Rightarrow> file_system"
  ar_stat :: "file_system \<Rightarrow> file_system"
  ar_chown :: "file_system \<Rightarrow> file_system"
  ar_refused :: "bool \<times> bool \<times> bool"

type_synonym chowns = "(string \<times> file_stat) list"

definition chown :: "inode_id \<Rightarrow> int \<Rightarrow> int \<Rightarrow> file_system \<Rightarrow> file_system" where
  "chown i uid gid fs =
     fs\<lparr>fy_inodes := (fy_inodes fs)(i := map_option (\<lambda>n. n\<lparr>in_uid := word_of_int uid, in_gid := word_of_int gid\<rparr>) (fy_inodes fs i))\<rparr>"

text \<open>None is an error. With \<open>O_NOFOLLOW\<close> a symbolic link does not open.\<close>

definition open_entry :: "file_system \<Rightarrow> string \<Rightarrow> inode_id option" where
  "open_entry fs path =
     (case lstat fs path of
        None \<Rightarrow> None
      | Some st \<Rightarrow> if in_kind (st_inode st) = Symlink then None else Some (st_id st))"

definition reclaim_entry ::
  "around \<Rightarrow> reclaim_target \<Rightarrow> int \<Rightarrow> int \<Rightarrow> file_system \<times> chowns \<Rightarrow> bool option \<times> file_system \<times> chowns" where
  "reclaim_entry a target uid gid s =
     (let fs1 = ar_open a (fst s)
      in case (if fst (ar_refused a) then None else open_entry fs1 (rc_path target)) of
           None \<Rightarrow> (None, fs1, snd s)
         | Some i \<Rightarrow>
             (let fs2 = ar_stat a fs1
              in case (if fst (snd (ar_refused a)) then None else fy_inodes fs2 i) of
                   None \<Rightarrow> (None, fs2, snd s)
                 | Some n \<Rightarrow>
                     if i \<noteq> rc_id target then (Some False, fs2, snd s)
                     else if \<not> is_reclaimable_stat n uid then (Some False, fs2, snd s)
                     else (let fs3 = ar_chown a fs2
                           in if snd (snd (ar_refused a)) then (None, fs3, snd s)
                              else (Some True, chown i uid gid fs3,
                                    snd s @ [(rc_path target, \<lparr>st_id = i, st_inode = n\<rparr>)]))))"

fun reclaim_targets ::
  "around list \<Rightarrow> reclaim_target list \<Rightarrow> int \<Rightarrow> int \<Rightarrow> file_system \<times> chowns \<Rightarrow> nat \<times> file_system \<times> chowns" where
  "reclaim_targets (a # as) (t # ts) uid gid s =
     (case reclaim_entry a t uid gid s of
        (ok, s1) \<Rightarrow>
          (case reclaim_targets as ts uid gid s1 of (n, s2) \<Rightarrow> (if ok = Some True then Suc n else n, s2)))"
| "reclaim_targets _ _ _ _ s = (0, s)"

text \<open>\<open>around\<close> has an entry for each target; the file system of the listing may have changed by then.\<close>

definition reclaim_ownership ::
  "identity \<Rightarrow> visit list \<Rightarrow> around list \<Rightarrow> string \<Rightarrow> file_system \<Rightarrow> nat \<times> file_system \<times> chowns" where
  "reclaim_ownership p visits as home fs =
     (if \<not> is_elevated p then (0, fs, [])
      else (let targets = collect_reclaim_targets fs visits home (id_uid p)
            in if targets = [] then (0, fs, []) else reclaim_targets as targets (id_uid p) (id_gid p) (fs, [])))"

definition reclaim_dir_ownership ::
  "identity \<Rightarrow> string \<Rightarrow> around \<Rightarrow> string \<Rightarrow> file_system \<Rightarrow> file_system \<times> chowns" where
  "reclaim_dir_ownership p home a path fs =
     (if \<not> is_elevated p \<or> \<not> can_reclaim fs home (id_uid p) then (fs, [])
      else (case lstat fs path of
              None \<Rightarrow> (fs, [])
            | Some st \<Rightarrow>
                if in_kind (st_inode st) \<noteq> Directory \<or> \<not> should_reclaim_entry st (id_uid p) then (fs, [])
                else snd (reclaim_entry a \<lparr>rc_path = path, rc_id = st_id st\<rparr> (id_uid p) (id_gid p) (fs, []))))"

subsection \<open>Only what was listed and is safe\<close>

text \<open>The stat of an entry that may be given to the user.\<close>

definition safe_to_give :: "inode \<Rightarrow> int \<Rightarrow> bool" where
  "safe_to_give n uid \<longleftrightarrow>
     uint (in_uid n) \<noteq> uid \<and> (in_kind n = Directory \<or> in_kind n = Regular \<and> in_nlink n \<le> 1)"

lemma reclaimable_safe: "is_reclaimable_stat n uid \<longleftrightarrow> safe_to_give n uid"
  by (auto simp: is_reclaimable_stat_def safe_to_give_def split: file_kind.split)

lemma collected:
  "t \<in> set (collect_reclaim_targets fs visits home uid) \<Longrightarrow>
   can_reclaim fs home uid \<and> (\<exists>st. (rc_path t, False, Some st) \<in> set visits \<and> st_id st = rc_id t \<and> should_reclaim_entry st uid)"
  by (auto simp: collect_reclaim_targets_def collect_visit_def split: if_splits option.splits)

lemma reclaim_entry_log:
  assumes "reclaim_entry a t uid gid s = (ok, fs', log')" "e \<in> set log'" "e \<notin> set (snd s)"
  shows "fst e = rc_path t \<and> st_id (snd e) = rc_id t \<and> safe_to_give (st_inode (snd e)) uid"
  using assms by (auto simp: reclaim_entry_def reclaimable_safe Let_def split: if_splits option.splits)

lemma reclaim_targets_log:
  "e \<in> set (snd (snd (reclaim_targets as ts uid gid s))) \<Longrightarrow> e \<notin> set (snd s) \<Longrightarrow>
   \<exists>t \<in> set ts. fst e = rc_path t \<and> st_id (snd e) = rc_id t \<and> safe_to_give (st_inode (snd e)) uid"
proof (induction as ts uid gid s rule: reclaim_targets.induct)
  case (1 a as t ts uid gid s)
  obtain ok fs1 log1 where r: "reclaim_entry a t uid gid s = (ok, fs1, log1)" by (metis prod_cases3)
  show ?case
  proof (cases "e \<in> set log1")
    case True
    then show ?thesis using reclaim_entry_log[OF r] "1.prems"(2) by auto
  next
    case False
    then show ?thesis using "1.IH"[OF r[symmetric]] "1.prems"(1) r by (auto split: prod.splits)
  qed
qed auto

lemma only_listed:
  assumes "reclaim_ownership p visits as home fs = (n, fs', log)" "(path, st) \<in> set log"
  shows "is_elevated p" "can_reclaim fs home (id_uid p)"
    "\<exists>seen. (path, False, Some seen) \<in> set visits \<and> st_id seen = st_id st \<and> should_reclaim_entry seen (id_uid p)"
    "safe_to_give (st_inode st) (id_uid p)"
proof -
  let ?ts = "collect_reclaim_targets fs visits home (id_uid p)"
  have e: "is_elevated p" "reclaim_targets as ?ts (id_uid p) (id_gid p) (fs, []) = (n, fs', log)"
    using assms by (auto simp: reclaim_ownership_def Let_def split: if_splits)
  then obtain t where t: "t \<in> set ?ts" "path = rc_path t" "st_id st = rc_id t" "safe_to_give (st_inode st) (id_uid p)"
    using reclaim_targets_log[of "(path, st)" as ?ts "id_uid p" "id_gid p" "(fs, [])"] assms(2) by auto
  show "is_elevated p" by (rule e(1))
  show "can_reclaim fs home (id_uid p)"
    "\<exists>seen. (path, False, Some seen) \<in> set visits \<and> st_id seen = st_id st \<and> should_reclaim_entry seen (id_uid p)"
    "safe_to_give (st_inode st) (id_uid p)"
    using collected[OF t(1)] t(2-4) by auto
qed

subsection \<open>Undisturbed, everything safe is given back\<close>

definition calm :: around where
  "calm = \<lparr>ar_open = id, ar_stat = id, ar_chown = id, ar_refused = (False, False, False)\<rparr>"

definition given :: "inode_id set \<Rightarrow> int \<Rightarrow> int \<Rightarrow> file_system \<Rightarrow> file_system" where
  "given S uid gid fs =
     fs\<lparr>fy_inodes := (\<lambda>i. if i \<in> S then map_option (\<lambda>n. n\<lparr>in_uid := word_of_int uid, in_gid := word_of_int gid\<rparr>) (fy_inodes fs i)
                       else fy_inodes fs i)\<rparr>"

lemma given_none: "given {} uid gid fs = fs"
  by (simp add: given_def)

lemma chown_given: "chown i uid gid (given S uid gid fs) = given (insert i S) uid gid fs"
  by (cases "fy_inodes fs i") (auto simp: chown_def given_def fun_eq_iff)

text \<open>The identity of a target that is still what was listed and safe to give.\<close>

definition target_ids :: "file_system \<Rightarrow> int \<Rightarrow> reclaim_target \<Rightarrow> inode_id set" where
  "target_ids fs uid t =
     (case lstat fs (rc_path t) of
        None \<Rightarrow> {}
      | Some st \<Rightarrow> if st_id st = rc_id t \<and> safe_to_give (st_inode st) uid then {rc_id t} else {})"

lemma reclaim_entry_calm:
  "fst (snd (reclaim_entry calm t uid gid (given S uid gid fs, log))) = given (S \<union> target_ids fs uid t) uid gid fs"
proof -
  let ?fs = "given S uid gid fs"
  show ?thesis
  proof (cases "lstat fs (rc_path t)")
    case None
    then have "lstat ?fs (rc_path t) = None" by (auto simp: lstat_def given_def bind_eq_None_conv)
    then show ?thesis using None by (simp add: reclaim_entry_def calm_def open_entry_def target_ids_def Let_def)
  next
    case (Some st)
    then have st: "fy_paths fs (rc_path t) = Some (st_id st)" "fy_inodes fs (st_id st) = Some (st_inode st)"
      by (auto simp: lstat_def bind_eq_Some_conv)
    let ?own = "\<lambda>n. n\<lparr>in_uid := word_of_int uid, in_gid := word_of_int gid\<rparr>"
    let ?n = "if st_id st \<in> S then ?own (st_inode st) else st_inode st"
    have now: "fy_inodes ?fs (st_id st) = Some ?n" "lstat ?fs (rc_path t) = Some \<lparr>st_id = st_id st, st_inode = ?n\<rparr>"
      using st by (auto simp: given_def lstat_def)
    have kind: "in_kind ?n = in_kind (st_inode st)" by simp
    show ?thesis
    proof (cases "st_id st = rc_id t \<and> in_kind (st_inode st) \<noteq> Symlink")
      case False
      then show ?thesis using now Some kind
        by (auto simp: reclaim_entry_def calm_def open_entry_def target_ids_def safe_to_give_def Let_def)
    next
      case True
      then have "fst (snd (reclaim_entry calm t uid gid (?fs, log))) =
          (if safe_to_give ?n uid then chown (rc_id t) uid gid ?fs else ?fs)"
        using now kind by (simp add: reclaim_entry_def calm_def open_entry_def reclaimable_safe Let_def)
      moreover have "rc_id t \<in> S \<Longrightarrow> insert (rc_id t) S = S" by blast
      ultimately show ?thesis using True Some by (auto simp: chown_given target_ids_def)
    qed
  qed
qed

lemma reclaim_targets_calm:
  "length as = length ts \<Longrightarrow> set as \<subseteq> {calm} \<Longrightarrow>
   fst (snd (reclaim_targets as ts uid gid (given S uid gid fs, log))) = given (S \<union> (\<Union>t \<in> set ts. target_ids fs uid t)) uid gid fs"
proof (induction ts arbitrary: as S log)
  case Nil
  then show ?case by simp
next
  case (Cons t ts)
  then obtain as' where as: "as = calm # as'" "length as' = length ts" "set as' \<subseteq> {calm}" by (cases as) auto
  obtain ok fs1 log1 where r: "reclaim_entry calm t uid gid (given S uid gid fs, log) = (ok, fs1, log1)" by (metis prod_cases3)
  then have "fs1 = given (S \<union> target_ids fs uid t) uid gid fs"
    using reclaim_entry_calm[of t uid gid S fs log] by simp
  moreover obtain n fs2 log2 where "reclaim_targets as' ts uid gid (fs1, log1) = (n, fs2, log2)" by (metis prod_cases3)
  ultimately show ?case using r Cons.IH[OF as(2,3), of "S \<union> target_ids fs uid t" log1] as(1) by (simp add: Un_assoc)
qed

lemma reclaim_calm:
  assumes "is_elevated p" "can_reclaim fs home (id_uid p)" "visits = map (\<lambda>path. (path, False, lstat fs path)) paths"
    "set as \<subseteq> {calm}" "length as = length (collect_reclaim_targets fs visits home (id_uid p))"
  shows "fst (snd (reclaim_ownership p visits as home fs)) =
    given {st_id st | st path. path \<in> set paths \<and> lstat fs path = Some st \<and> safe_to_give (st_inode st) (id_uid p)}
      (id_uid p) (id_gid p) fs"
proof -
  let ?ts = "collect_reclaim_targets fs visits home (id_uid p)"
  have "(\<Union>t \<in> set ?ts. target_ids fs (id_uid p) t) =
    {st_id st | st path. path \<in> set paths \<and> lstat fs path = Some st \<and> safe_to_give (st_inode st) (id_uid p)}"
    (is "?l = ?r")
  proof (intro subset_antisym subsetI)
    fix i assume "i \<in> ?l"
    then obtain t where t: "t \<in> set ?ts" "i \<in> target_ids fs (id_uid p) t" by blast
    have "rc_path t \<in> set paths" using collected[OF t(1)] assms(3) by auto
    moreover obtain st where "lstat fs (rc_path t) = Some st" "st_id st = i" "safe_to_give (st_inode st) (id_uid p)"
      using t(2) by (auto simp: target_ids_def split: option.splits if_splits)
    ultimately show "i \<in> ?r" by blast
  next
    fix i assume "i \<in> ?r"
    then obtain st path where sp: "i = st_id st" "path \<in> set paths" "lstat fs path = Some st" "safe_to_give (st_inode st) (id_uid p)"
      by blast
    then have "should_reclaim_entry st (id_uid p)" by (auto simp: should_reclaim_entry_def safe_to_give_def Let_def)
    then have "\<lparr>rc_path = path, rc_id = i\<rparr> \<in> set ?ts"
      using sp assms(2,3) by (force simp: collect_reclaim_targets_def collect_visit_def)
    then show "i \<in> ?l" using sp by (force simp: target_ids_def)
  qed
  moreover have "fst (snd (reclaim_targets as ?ts (id_uid p) (id_gid p) (fs, []))) =
      given (\<Union>t \<in> set ?ts. target_ids fs (id_uid p) t) (id_uid p) (id_gid p) fs"
    using reclaim_targets_calm[OF assms(5,4), of "id_uid p" "id_gid p" "{}" fs "[]"] by (simp add: given_none)
  ultimately show ?thesis using assms(1) by (auto simp: reclaim_ownership_def Let_def given_none)
qed

lemma reclaim_dir_log:
  assumes "reclaim_dir_ownership p home a path fs = (fs', log)" "(q, st) \<in> set log"
  shows "is_elevated p" "can_reclaim fs home (id_uid p)" "q = path" "safe_to_give (st_inode st) (id_uid p)"
    "\<exists>seen. lstat fs path = Some seen \<and> st_id seen = st_id st \<and> in_kind (st_inode seen) = Directory"
  using assms reclaim_entry_log[of a _ "id_uid p" "id_gid p" "(fs, [])"]
  by (auto simp: reclaim_dir_ownership_def split: if_splits option.splits) (metis fst_conv snd_conv reclaim_target.simps list.distinct(1) empty_iff empty_set prod.exhaust_sel)+

subsection \<open>Requests\<close>

text \<open>
  \<open>scheduleReclaimOwnership\<close>: requests while one is waiting are dropped. The goroutine clears the flag
  before it starts. Requests are counted, and each start records how many there had been.
\<close>

record reclaim_requests =
  rq_pending :: bool
  rq_sleeping :: nat
  rq_count :: nat
  rq_starts :: "nat list"

definition schedule_reclaim_ownership :: "identity \<Rightarrow> string \<Rightarrow> reclaim_requests \<Rightarrow> reclaim_requests" where
  "schedule_reclaim_ownership p home s =
     (if \<not> is_elevated p then s
      else if home = [] then s
      else if rq_pending s then s\<lparr>rq_count := Suc (rq_count s)\<rparr>
      else s\<lparr>rq_pending := True, rq_sleeping := Suc (rq_sleeping s), rq_count := Suc (rq_count s)\<rparr>)"

definition reclaim_wakes :: "reclaim_requests \<Rightarrow> reclaim_requests" where
  "reclaim_wakes s =
     s\<lparr>rq_pending := False, rq_sleeping := rq_sleeping s - 1, rq_starts := rq_starts s @ [rq_count s]\<rparr>"

inductive requests_reachable :: "identity \<Rightarrow> string \<Rightarrow> reclaim_requests \<Rightarrow> bool" for p home where
  requests_zero: "requests_reachable p home \<lparr>rq_pending = False, rq_sleeping = 0, rq_count = 0, rq_starts = []\<rparr>"
| requests_ask: "requests_reachable p home s \<Longrightarrow> requests_reachable p home (schedule_reclaim_ownership p home s)"
| requests_wake: "requests_reachable p home s \<Longrightarrow> 0 < rq_sleeping s \<Longrightarrow> requests_reachable p home (reclaim_wakes s)"

text \<open>No request is lost: until one is waiting for it, every request was made before the last start.\<close>

lemma requests_served:
  "requests_reachable p home s \<Longrightarrow>
     rq_sleeping s = (if rq_pending s then 1 else 0) \<and>
     (\<not> rq_pending s \<longrightarrow> rq_count s = 0 \<or> (rq_starts s \<noteq> [] \<and> last (rq_starts s) = rq_count s))"
  by (induction rule: requests_reachable.induct)
    (auto simp: schedule_reclaim_ownership_def reclaim_wakes_def split: if_splits)

subsection \<open>The properties\<close>


text \<open>C39. Undisturbed, a reclaim gives the user exactly the listed directories and files with one name that were
  not the user's, and changes nothing else.\<close>

theorem reclaim_gives_back:
  assumes "is_elevated p" "can_reclaim fs home (id_uid p)" "visits = map (\<lambda>path. (path, False, lstat fs path)) paths"
    "set as \<subseteq> {calm}" "length as = length (collect_reclaim_targets fs visits home (id_uid p))"
  shows "fst (snd (reclaim_ownership p visits as home fs)) =
    given {st_id st | st path. path \<in> set paths \<and> lstat fs path = Some st \<and> safe_to_give (st_inode st) (id_uid p)}
      (id_uid p) (id_gid p) fs"
  by (rule reclaim_calm[OF assms])

definition demo_files :: file_system where
  "demo_files = \<lparr>fy_paths = [''/home'' \<mapsto> (1, 1), ''/home/new'' \<mapsto> (1, 2), ''/home/shared'' \<mapsto> (1, 3)],
     fy_inodes = [(1, 1) \<mapsto> \<lparr>in_kind = Directory, in_nlink = 2, in_uid = 1000, in_gid = 1000\<rparr>,
       (1, 2) \<mapsto> \<lparr>in_kind = Regular, in_nlink = 1, in_uid = 0, in_gid = 0\<rparr>,
       (1, 3) \<mapsto> \<lparr>in_kind = Regular, in_nlink = 2, in_uid = 0, in_gid = 0\<rparr>]\<rparr>"

definition demo_identity :: identity where
  "demo_identity = \<lparr>id_uid = 1000, id_gid = 1000, id_euid = 0\<rparr>"

definition demo_visits :: "visit list" where
  "demo_visits = map (\<lambda>path. (path, False, lstat demo_files path)) [''/home'', ''/home/new'', ''/home/shared'']"


theorem reclaim_gives_back_witness:
  "map_option in_uid (fy_inodes (fst (snd (reclaim_ownership demo_identity demo_visits [calm] ''/home'' demo_files))) (1, 2)) = Some 1000"
proof -
  let ?S = "{st_id st | st path. path \<in> set [''/home'', ''/home/new'', ''/home/shared''] \<and>
    lstat demo_files path = Some st \<and> safe_to_give (st_inode st) (id_uid demo_identity)}"
  have "is_elevated demo_identity" "can_reclaim demo_files ''/home'' (id_uid demo_identity)"
    "length [calm] = length (collect_reclaim_targets demo_files demo_visits ''/home'' (id_uid demo_identity))"
    by code_simp+
  then have "fst (snd (reclaim_ownership demo_identity demo_visits [calm] ''/home'' demo_files)) =
      given ?S (id_uid demo_identity) (id_gid demo_identity) demo_files"
    by (intro reclaim_gives_back) (simp_all add: demo_visits_def)
  then have e: "fst (snd (reclaim_ownership demo_identity demo_visits [calm] ''/home'' demo_files)) = given ?S 1000 1000 demo_files"
    by (simp only: demo_identity_def identity.simps)
  obtain st where st: "lstat demo_files ''/home/new'' = Some st" "st_id st = (1, 2)" "st_inode st = \<lparr>in_kind = Regular, in_nlink = 1, in_uid = 0, in_gid = 0\<rparr>"
    by (rule that[of "\<lparr>st_id = (1, 2), st_inode = \<lparr>in_kind = Regular, in_nlink = 1, in_uid = 0, in_gid = 0\<rparr>\<rparr>"])
      (simp_all add: lstat_def demo_files_def)
  then have "safe_to_give (st_inode st) (id_uid demo_identity)" by (simp add: safe_to_give_def demo_identity_def)
  then have "(1, 2) \<in> ?S" using st by force
  then show ?thesis unfolding e by (simp add: given_def demo_files_def)
qed

end
