(* ===== verification/Delays.thy ===== *)
theory Delays
  imports Slots
begin

text \<open>
  \<open>core/delay.go\<close> and the report of \<open>core/hooks.go\<close>: the test of a proxy's delay, what its answer says, and
  the two reports that a burst of failures makes only once in a while.

  mihomo's URL test and the clock are arguments. The lemmas show what an answer's value means, and how
  far apart two reports are.
\<close>

subsection \<open>The test\<close>

record delay_answer =
  dl_name :: string
  dl_url :: string
  dl_value :: int

definition delay_timed_out :: int where "delay_timed_out = -1"
definition delay_failed :: int where "delay_failed = -2"

definition default_delay_test_timeout :: int where
  "default_delay_test_timeout = 5 * 1000000000"

definition delay_test_concurrency :: nat where
  "delay_test_concurrency = 50"

definition delay_value :: "16 word \<Rightarrow> bool \<Rightarrow> int" where
  "delay_value delay timed_out =
     (if 0 < delay then uint delay else if timed_out then delay_timed_out else delay_failed)"

text \<open>
  The URL test answers within its timeout with a delay or an error, and whether the context had ended
  by then. Besides the answer the handler tells whether the proxy is missing.
\<close>

record 'p delay_world =
  dw_lookup :: "string \<Rightarrow> 'p option"
  dw_current_url :: string
  dw_acquire :: "int \<Rightarrow> bool"
  dw_test :: "'p \<Rightarrow> int \<Rightarrow> string \<Rightarrow> 16 word option \<times> bool"

definition handle_test_delay :: "'p delay_world \<Rightarrow> string \<Rightarrow> string \<Rightarrow> int \<Rightarrow> delay_answer option \<times> bool" where
  "handle_test_delay w name test_url millis =
     (let url = (if test_url = [] then dw_current_url w else test_url);
          result = \<lparr>dl_name = name, dl_url = url, dl_value = delay_failed\<rparr>
      in case dw_lookup w name of
           None \<Rightarrow> (Some result, True)
         | Some proxy \<Rightarrow>
             (let timeout = timeout_from_millis millis default_delay_test_timeout
              in if \<not> dw_acquire w timeout then (None, False)
                 else (case dw_test w proxy timeout url of
                         (answered, ended) \<Rightarrow>
                           (let delay = (case answered of None \<Rightarrow> 0 | Some d \<Rightarrow> d)
                            in (Some (result\<lparr>dl_value := delay_value delay ended\<rparr>), False)))))"

lemma delay_value_cases:
  "delay_value d t > 0 \<longleftrightarrow> 0 < d" "delay_value d t \<in> {-2, -1} \<union> {1..65535}"
  "delay_value d t = -1 \<longleftrightarrow> d = 0 \<and> t" "delay_value d t = -2 \<longleftrightarrow> d = 0 \<and> \<not> t"
proof -
  have "uint d < 2 ^ 16" using uint_bounded[of d] by simp
  moreover have "0 < d \<longleftrightarrow> 0 < uint d" by (simp add: word_less_def)
  moreover have "0 < d \<longleftrightarrow> d \<noteq> 0" by (rule word_neq_0_conv[symmetric])
  ultimately show "delay_value d t > 0 \<longleftrightarrow> 0 < d" "delay_value d t \<in> {-2, -1} \<union> {1..65535}"
    "delay_value d t = -1 \<longleftrightarrow> d = 0 \<and> t" "delay_value d t = -2 \<longleftrightarrow> d = 0 \<and> \<not> t"
    by (auto simp: delay_value_def delay_timed_out_def delay_failed_def)
qed

text \<open>No answer says nothing of the proxy: it is known and only a slot was missing.\<close>

lemma test_delay_outcome:
  "fst (handle_test_delay w name test_url millis) = None \<longleftrightarrow>
     dw_lookup w name \<noteq> None \<and> \<not> dw_acquire w (timeout_from_millis millis default_delay_test_timeout)"
  "snd (handle_test_delay w name test_url millis) \<longleftrightarrow> dw_lookup w name = None"
  "fst (handle_test_delay w name test_url millis) = Some a \<Longrightarrow> 0 < dl_value a \<Longrightarrow>
     \<exists>p d t. dw_lookup w name = Some p \<and> dl_value a = uint d \<and>
       dw_test w p (timeout_from_millis millis default_delay_test_timeout) (dl_url a) = (Some d, t)"
  by (auto simp: handle_test_delay_def Let_def delay_value_def delay_failed_def delay_timed_out_def
      split: option.splits prod.splits if_splits)

subsection \<open>The report of a missing proxy\<close>

text \<open>
  Each caller reads the time of the last report, and replaces it by its own if nobody else has since.
  Who has read waits with both times; the times reported are recorded.
\<close>

record missing_reports =
  mr_last :: int
  mr_read :: "(int \<times> int) list"
  mr_reported :: "int list"

definition missing_read :: "int \<Rightarrow> missing_reports \<Rightarrow> missing_reports" where
  "missing_read now s =
     (let l = mr_last s in if l \<noteq> 0 \<and> now - l < 1000000000 then s else s\<lparr>mr_read := (now, l) # mr_read s\<rparr>)"

definition missing_swap :: "int \<Rightarrow> int \<Rightarrow> missing_reports \<Rightarrow> missing_reports" where
  "missing_swap now l s =
     (let s1 = s\<lparr>mr_read := remove1 (now, l) (mr_read s)\<rparr>
      in if mr_last s1 \<noteq> l then s1 else s1\<lparr>mr_last := now, mr_reported := mr_reported s1 @ [now]\<rparr>)"

inductive missing_reachable :: "missing_reports \<Rightarrow> bool" where
  missing_zero: "missing_reachable \<lparr>mr_last = 0, mr_read = [], mr_reported = []\<rparr>"
| missing_reads: "missing_reachable s \<Longrightarrow> 0 < now \<Longrightarrow> missing_reachable (missing_read now s)"
| missing_swaps: "missing_reachable s \<Longrightarrow> (now, l) \<in> set (mr_read s) \<Longrightarrow> missing_reachable (missing_swap now l s)"

definition missing_inv :: "missing_reports \<Rightarrow> bool" where
  "missing_inv s \<longleftrightarrow>
     mr_last s = (if mr_reported s = [] then 0 else last (mr_reported s)) \<and>
     (\<forall>t \<in> set (mr_reported s). 0 < t \<and> t \<le> mr_last s) \<and>
     (\<forall>(now, l) \<in> set (mr_read s). 0 < now \<and> (l \<noteq> 0 \<longrightarrow> 1000000000 \<le> now - l)) \<and>
     sorted_wrt (\<lambda>a b. 1000000000 \<le> b - a) (mr_reported s)"

lemma missing_inv_swap:
  assumes "missing_inv s" "(now, l) \<in> set (mr_read s)"
  shows "missing_inv (missing_swap now l s)"
proof -
  have read: "\<forall>(n, k) \<in> set (remove1 (now, l) (mr_read s)). 0 < n \<and> (k \<noteq> 0 \<longrightarrow> 1000000000 \<le> n - k)"
    using assms(1) set_remove1_subset[of "(now, l)" "mr_read s"] unfolding missing_inv_def by blast
  have mine: "0 < now" "l \<noteq> 0 \<Longrightarrow> 1000000000 \<le> now - l" using assms by (auto simp: missing_inv_def)
  have "1000000000 \<le> now - t" "t \<le> now" if "t \<in> set (mr_reported s)" "mr_last s = l" for t
    using assms(1) mine that by (force simp: missing_inv_def)+
  then show ?thesis
    using assms(1) mine read
    by (auto simp: missing_inv_def missing_swap_def Let_def sorted_wrt_append)
qed

text \<open>However the callers interleave, two reports are a second apart.\<close>

lemma missing_reports_spaced:
  "missing_reachable s \<Longrightarrow> sorted_wrt (\<lambda>a b. 1000000000 \<le> b - a) (mr_reported s)"
proof -
  assume "missing_reachable s"
  then have "missing_inv s"
  proof (induction rule: missing_reachable.induct)
    case missing_zero
    then show ?case by (simp add: missing_inv_def)
  next
    case (missing_reads s now)
    then show ?case by (auto simp: missing_inv_def missing_read_def Let_def)
  next
    case (missing_swaps s now l)
    then show ?case by (blast intro: missing_inv_swap)
  qed
  then show ?thesis by (simp add: missing_inv_def)
qed

subsection \<open>The report of a dialer loop\<close>

text \<open>Here the last time is read and replaced in two steps, each on its own.\<close>

record loop_reports =
  lr_last :: "string \<rightharpoonup> int"
  lr_reported :: "(string \<times> int) list"

definition dialer_loop_report_interval :: int where
  "dialer_loop_report_interval = 3 * 1000000000"

definition loop_is_recent :: "string \<Rightarrow> int \<Rightarrow> loop_reports \<Rightarrow> bool" where
  "loop_is_recent name now s \<longleftrightarrow>
     (case lr_last s name of None \<Rightarrow> False | Some l \<Rightarrow> now - l < dialer_loop_report_interval)"

definition loop_store :: "string \<Rightarrow> int \<Rightarrow> loop_reports \<Rightarrow> loop_reports" where
  "loop_store name now s = s\<lparr>lr_last := (lr_last s)(name \<mapsto> now), lr_reported := lr_reported s @ [(name, now)]\<rparr>"

definition report_dialer_loop :: "string \<Rightarrow> int \<Rightarrow> loop_reports \<Rightarrow> loop_reports" where
  "report_dialer_loop name now s = (if loop_is_recent name now s then s else loop_store name now s)"

text \<open>One dial after the other, the reports of a name are three seconds apart.\<close>

definition loops_spaced :: "loop_reports \<Rightarrow> bool" where
  "loops_spaced s \<longleftrightarrow>
     (\<forall>name. let ts = map snd (filter (\<lambda>r. fst r = name) (lr_reported s))
             in sorted_wrt (\<lambda>a b. dialer_loop_report_interval \<le> b - a) ts \<and>
                lr_last s name = (if ts = [] then None else Some (last ts)))"

lemma sorted_gap_last:
  assumes "sorted_wrt (\<lambda>a b. (d :: int) \<le> b - a) ts" "0 \<le> d" "t \<in> set ts"
  shows "t \<le> last ts"
proof -
  obtain us where us: "ts = us @ [last ts]" using assms(3) by (metis append_butlast_last_id empty_iff empty_set)
  then have "t = last ts \<or> t \<in> set us" using assms(3) by (metis Un_iff empty_iff empty_set insert_iff list.simps(15) set_append)
  moreover have "\<forall>u \<in> set us. d \<le> last ts - u" using assms(1) us by (metis (no_types, lifting) list.set_intros(1) sorted_wrt_append)
  ultimately show ?thesis using assms(2) by force
qed

lemma loops_spaced_report: "loops_spaced s \<Longrightarrow> loops_spaced (report_dialer_loop name now s)"
proof -
  assume inv: "loops_spaced s"
  let ?ts = "map snd (filter (\<lambda>r. fst r = name) (lr_reported s))"
  have facts: "sorted_wrt (\<lambda>a b. dialer_loop_report_interval \<le> b - a) ?ts"
    "lr_last s name = (if ?ts = [] then None else Some (last ?ts))"
    using inv by (simp_all add: loops_spaced_def Let_def)
  show ?thesis
  proof (cases "loop_is_recent name now s")
    case True
    then show ?thesis using inv by (simp add: report_dialer_loop_def)
  next
    case False
    have "dialer_loop_report_interval \<le> now - t" if "t \<in> set ?ts" for t
    proof -
      have "t \<le> last ?ts" by (rule sorted_gap_last[OF facts(1) _ that]) (simp add: dialer_loop_report_interval_def)
      moreover have "lr_last s name = Some (last ?ts)" using facts(2) that by (metis empty_iff empty_set)
      then have "dialer_loop_report_interval \<le> now - last ?ts"
        using False by (simp only: loop_is_recent_def option.case not_less)
      ultimately show ?thesis by linarith
    qed
    then have "sorted_wrt (\<lambda>a b. dialer_loop_report_interval \<le> b - a) (?ts @ [now])"
      using facts(1) by (auto simp: sorted_wrt_append)
    then show ?thesis
      using False inv by (auto simp: report_dialer_loop_def loop_store_def loops_spaced_def Let_def)
  qed
qed

text \<open>Two dials that both read before either stores report at once.\<close>

lemma loop_reported_twice:
  assumes "\<not> loop_is_recent name now s"
  shows "lr_reported (loop_store name now (loop_store name now s)) = lr_reported s @ [(name, now), (name, now)]"
  by (simp add: loop_store_def)

end
