(* ===== verification/Log_Pump.thy ===== *)
theory Log_Pump
  imports Go_Prelude
begin

text \<open>
  \<open>core/log.go\<close>: log events go from mihomo to the host through a pump that can be replaced. A pump that is
  stopped goes on reading until its subscription is closed, or mihomo would block on its full buffer.

  mihomo gives every event to every open subscription. Events are numbered as they are emitted. The
  lemmas show that at most one pump is subscribed, that no event is sent twice, and that a stopped pump
  sends nothing and empties its buffer.
\<close>

subsection \<open>Pumps\<close>

text \<open>An event is its number and level. A pump: whether it is stopped, whether subscribed, and its buffer.\<close>

type_synonym log_event = "nat \<times> int"

record log_pump =
  pu_stopped :: bool
  pu_open :: bool
  pu_buffer :: "log_event list"

record log_state =
  lg_pumps :: "nat \<Rightarrow> log_pump option"
  lg_next :: nat
  lg_active :: "nat option"
  lg_emitted :: nat
  lg_sent :: "log_event list"

definition log_initial :: log_state where
  "log_initial = \<lparr>lg_pumps = (\<lambda>_. None), lg_next = 0, lg_active = None, lg_emitted = 0, lg_sent = []\<rparr>"

definition pump_stop :: "nat \<Rightarrow> log_state \<Rightarrow> log_state" where
  "pump_stop p s =
     s\<lparr>lg_pumps := (lg_pumps s)(p := map_option (\<lambda>u. u\<lparr>pu_stopped := True, pu_open := False\<rparr>) (lg_pumps s p))\<rparr>"

definition handle_start_log :: "log_state \<Rightarrow> log_state" where
  "handle_start_log s =
     (let s1 = (case lg_active s of None \<Rightarrow> s | Some p \<Rightarrow> pump_stop p s); p = lg_next s1
      in s1\<lparr>lg_pumps := (lg_pumps s1)(p \<mapsto> \<lparr>pu_stopped = False, pu_open = True, pu_buffer = []\<rparr>),
            lg_next := Suc p, lg_active := Some p\<rparr>)"

definition handle_stop_log :: "log_state \<Rightarrow> log_state" where
  "handle_stop_log s = (case lg_active s of None \<Rightarrow> s | Some p \<Rightarrow> (pump_stop p s)\<lparr>lg_active := None\<rparr>)"

text \<open>One round of \<open>run\<close>, with the level in force.\<close>

definition pump_round :: "int \<Rightarrow> nat \<Rightarrow> log_state \<Rightarrow> log_state" where
  "pump_round level p s =
     (case lg_pumps s p of
        None \<Rightarrow> s
      | Some u \<Rightarrow>
          (case pu_buffer u of
             [] \<Rightarrow> s
           | e # es \<Rightarrow>
               (let s1 = s\<lparr>lg_pumps := (lg_pumps s)(p \<mapsto> u\<lparr>pu_buffer := es\<rparr>)\<rparr>
                in if pu_stopped u \<or> snd e < level then s1 else s1\<lparr>lg_sent := lg_sent s1 @ [e]\<rparr>)))"

definition log_emit :: "int \<Rightarrow> log_state \<Rightarrow> log_state" where
  "log_emit level s =
     s\<lparr>lg_pumps := (\<lambda>p. map_option (\<lambda>u. if pu_open u then u\<lparr>pu_buffer := pu_buffer u @ [(lg_emitted s, level)]\<rparr> else u) (lg_pumps s p)),
       lg_emitted := Suc (lg_emitted s)\<rparr>"

inductive log_reachable :: "log_state \<Rightarrow> bool" where
  log_zero: "log_reachable log_initial"
| log_start: "log_reachable s \<Longrightarrow> log_reachable (handle_start_log s)"
| log_stop: "log_reachable s \<Longrightarrow> log_reachable (handle_stop_log s)"
| log_round: "log_reachable s \<Longrightarrow> log_reachable (pump_round level p s)"
| log_event: "log_reachable s \<Longrightarrow> log_reachable (log_emit level s)"

subsection \<open>One subscription\<close>

definition pump_ok :: "log_state \<Rightarrow> nat \<Rightarrow> log_pump \<Rightarrow> bool" where
  "pump_ok s p u \<longleftrightarrow> p < lg_next s \<and> (pu_open u \<longleftrightarrow> lg_active s = Some p) \<and> (pu_stopped u \<longleftrightarrow> \<not> pu_open u)"

definition pumps_ok :: "log_state \<Rightarrow> bool" where
  "pumps_ok s \<longleftrightarrow> (\<forall>p u. lg_pumps s p = Some u \<longrightarrow> pump_ok s p u) \<and> (\<forall>p. lg_active s = Some p \<longrightarrow> lg_pumps s p \<noteq> None)"

lemma pumps_okI:
  assumes "\<And>p u. lg_pumps s p = Some u \<Longrightarrow> pump_ok s p u" "\<And>p. lg_active s = Some p \<Longrightarrow> lg_pumps s p \<noteq> None"
  shows "pumps_ok s"
  using assms by (simp add: pumps_ok_def)

lemma pumps_okD: "pumps_ok s \<Longrightarrow> lg_pumps s p = Some u \<Longrightarrow> pump_ok s p u"
  by (simp add: pumps_ok_def)

lemma pumps_ok_active: "pumps_ok s \<Longrightarrow> lg_active s = Some p \<Longrightarrow> lg_pumps s p \<noteq> None"
  unfolding pumps_ok_def by blast

lemma pumps_ok_fresh: "pumps_ok s \<Longrightarrow> lg_pumps s (lg_next s) = None"
  using pumps_okD[of s "lg_next s"] by (cases "lg_pumps s (lg_next s)") (auto simp: pump_ok_def)

definition quieted :: "log_state \<Rightarrow> log_state" where
  "quieted s = (case lg_active s of None \<Rightarrow> s | Some p \<Rightarrow> (pump_stop p s)\<lparr>lg_active := None\<rparr>)"

definition opened :: "log_state \<Rightarrow> log_state" where
  "opened s = s\<lparr>lg_pumps := (lg_pumps s)(lg_next s \<mapsto> \<lparr>pu_stopped = False, pu_open = True, pu_buffer = []\<rparr>),
     lg_next := Suc (lg_next s), lg_active := Some (lg_next s)\<rparr>"

lemma start_stop_forms: "handle_stop_log s = quieted s" "handle_start_log s = opened (quieted s)"
  by (auto simp: handle_stop_log_def handle_start_log_def quieted_def opened_def Let_def split: option.split)

lemma pumps_ok_quieted: "pumps_ok s \<Longrightarrow> pumps_ok (quieted s)" "lg_active (quieted s) = None"
proof -
  assume ok: "pumps_ok s"
  show "pumps_ok (quieted s)"
  proof (cases "lg_active s")
    case None
    then show ?thesis using ok by (simp add: quieted_def)
  next
    case (Some p)
    have "pump_ok (quieted s) q u" if u: "lg_pumps (quieted s) q = Some u" for q u
    proof (cases "q = p")
      case True
      then obtain v where "lg_pumps s p = Some v" "u = v\<lparr>pu_stopped := True, pu_open := False\<rparr>"
        using u Some by (auto simp: quieted_def pump_stop_def)
      then show ?thesis using pumps_okD[OF ok, of p] Some True by (auto simp: pump_ok_def quieted_def pump_stop_def)
    next
      case False
      then have "lg_pumps s q = Some u" using u Some by (simp add: quieted_def pump_stop_def)
      then show ?thesis using pumps_okD[OF ok, of q] Some False by (auto simp: pump_ok_def quieted_def pump_stop_def)
    qed
    then show ?thesis by (rule pumps_okI) (simp_all add: quieted_def Some)
  qed
qed (simp add: quieted_def split: option.split)

lemma pumps_ok_opened: "pumps_ok s \<Longrightarrow> lg_active s = None \<Longrightarrow> pumps_ok (opened s)"
  using pumps_ok_fresh[of s]
  by (intro pumps_okI) (auto simp: opened_def pump_ok_def pumps_ok_def intro: less_SucI split: if_splits)

lemma pumps_ok_same:
  assumes "pumps_ok s" "lg_next t = lg_next s" "lg_active t = lg_active s"
    "\<And>p. map_option (\<lambda>u. (pu_stopped u, pu_open u)) (lg_pumps t p) = map_option (\<lambda>u. (pu_stopped u, pu_open u)) (lg_pumps s p)"
  shows "pumps_ok t"
proof (rule pumps_okI)
  fix p u assume "lg_pumps t p = Some u"
  then obtain v where "lg_pumps s p = Some v" "pu_stopped v = pu_stopped u" "pu_open v = pu_open u"
    using assms(4)[of p] by (cases "lg_pumps s p") auto
  then show "pump_ok t p u" using pumps_okD[OF assms(1)] assms(2,3) by (auto simp: pump_ok_def)
next
  fix p assume "lg_active t = Some p"
  then have "lg_pumps s p \<noteq> None" using pumps_ok_active[OF assms(1)] assms(3) by simp
  then show "lg_pumps t p \<noteq> None" using assms(4)[of p] by (cases "lg_pumps t p") auto
qed

lemma pumps_ok_reachable: "log_reachable s \<Longrightarrow> pumps_ok s"
proof (induction rule: log_reachable.induct)
  case log_zero
  then show ?case by (simp add: pumps_ok_def log_initial_def)
next
  case (log_start s)
  then show ?case unfolding start_stop_forms by (intro pumps_ok_opened pumps_ok_quieted)
next
  case (log_stop s)
  then show ?case unfolding start_stop_forms by (intro pumps_ok_quieted)
next
  case (log_round s level p)
  show ?case
    by (rule pumps_ok_same[OF log_round.IH]) (auto simp: pump_round_def Let_def split: option.split list.split)
next
  case (log_event s level)
  show ?case
    by (rule pumps_ok_same[OF log_event.IH]) (auto simp: log_emit_def option.map_comp comp_def intro!: option.map_cong split: if_splits)
qed

subsection \<open>No event twice\<close>

text \<open>The numbers of the events in a buffer, and of those sent.\<close>

definition numbers :: "log_state \<Rightarrow> nat \<Rightarrow> nat list" where
  "numbers s p = (case lg_pumps s p of None \<Rightarrow> [] | Some u \<Rightarrow> map fst (pu_buffer u))"

definition sent_numbers :: "log_state \<Rightarrow> nat list" where
  "sent_numbers s = map fst (lg_sent s)"

definition apart :: "nat \<Rightarrow> (nat \<Rightarrow> nat list) \<Rightarrow> nat list \<Rightarrow> bool" where
  "apart n bufs sent \<longleftrightarrow>
     distinct sent \<and> set sent \<subseteq> {..<n} \<and>
     (\<forall>p. distinct (bufs p) \<and> set (bufs p) \<subseteq> {..<n} \<and> set (bufs p) \<inter> set sent = {}) \<and>
     (\<forall>p q. p \<noteq> q \<longrightarrow> set (bufs p) \<inter> set (bufs q) = {})"

lemma apart_drop: "apart n bufs sent \<Longrightarrow> bufs p = e # es \<Longrightarrow> apart n (bufs(p := es)) sent"
proof -
  assume a: "apart n bufs sent" "bufs p = e # es"
  have "set ((bufs(p := es)) q) \<subseteq> set (bufs q)" "distinct (bufs q) \<Longrightarrow> distinct ((bufs(p := es)) q)" for q
    using a(2) by auto
  then show ?thesis using a(1) unfolding apart_def by blast
qed

lemma apart_send: "apart n bufs sent \<Longrightarrow> bufs p = e # es \<Longrightarrow> apart n (bufs(p := es)) (sent @ [e])"
proof -
  assume a: "apart n bufs sent" "bufs p = e # es"
  have "apart n (bufs(p := es)) sent" by (rule apart_drop[OF a])
  moreover have "distinct (e # es)" "e \<notin> set sent" "e < n" "\<forall>q. q \<noteq> p \<longrightarrow> e \<notin> set (bufs q)"
    using a unfolding apart_def by (metis, metis disjoint_iff list.set_intros(1), metis lessThan_iff list.set_intros(1) subsetD,
        metis disjoint_iff list.set_intros(1))
  ultimately show ?thesis unfolding apart_def by auto
qed

lemma apart_emit: "apart n bufs sent \<Longrightarrow> apart (Suc n) (\<lambda>q. if act = Some q then bufs q @ [n] else bufs q) sent"
proof -
  assume a: "apart n bufs sent"
  then have new: "n \<notin> set (bufs q)" "n \<notin> set sent" for q unfolding apart_def by blast+
  have less: "\<And>m. m < n \<Longrightarrow> m < Suc n" by simp
  show ?thesis using a new less unfolding apart_def by (auto simp: subset_iff disjoint_iff intro: less_SucI)
qed

lemma numbers_forms:
  "numbers (quieted s) = numbers s" "sent_numbers (quieted s) = sent_numbers s" "lg_emitted (quieted s) = lg_emitted s"
  "pumps_ok s \<Longrightarrow> numbers (opened s) = numbers s" "sent_numbers (opened s) = sent_numbers s" "lg_emitted (opened s) = lg_emitted s"
  using pumps_ok_fresh[of s]
  by (auto simp: numbers_def sent_numbers_def quieted_def opened_def pump_stop_def fun_eq_iff split: option.split)

lemma numbers_emit:
  "pumps_ok s \<Longrightarrow> numbers (log_emit level s) = (\<lambda>q. if lg_active s = Some q then numbers s q @ [lg_emitted s] else numbers s q)"
proof
  fix q assume ok: "pumps_ok s"
  show "numbers (log_emit level s) q = (if lg_active s = Some q then numbers s q @ [lg_emitted s] else numbers s q)"
  proof (cases "lg_pumps s q")
    case None
    then show ?thesis using pumps_ok_active[OF ok, of q] by (auto simp: numbers_def log_emit_def)
  next
    case (Some u)
    then show ?thesis using pumps_okD[OF ok Some] by (simp add: numbers_def log_emit_def pump_ok_def)
  qed
qed

lemma apart_reachable: "log_reachable s \<Longrightarrow> apart (lg_emitted s) (numbers s) (sent_numbers s)"
proof (induction rule: log_reachable.induct)
  case log_zero
  then show ?case by (simp add: apart_def numbers_def sent_numbers_def log_initial_def)
next
  case (log_start s)
  then show ?case using pumps_ok_quieted(1)[OF pumps_ok_reachable[OF log_start.hyps]] unfolding start_stop_forms
    by (simp add: numbers_forms)
next
  case (log_stop s)
  then show ?case unfolding start_stop_forms by (simp add: numbers_forms)
next
  case (log_round s level p)
  show ?case
  proof (cases "numbers s p")
    case Nil
    then have "pump_round level p s = s" by (auto simp: numbers_def pump_round_def split: option.splits list.splits)
    then show ?thesis using log_round.IH by simp
  next
    case (Cons e es)
    then obtain u l us where u: "lg_pumps s p = Some u" "pu_buffer u = (e, l) # us" "map fst us = es"
      by (auto simp: numbers_def split: option.splits)
    have "numbers (pump_round level p s) = (numbers s)(p := es)" "lg_emitted (pump_round level p s) = lg_emitted s"
      "sent_numbers (pump_round level p s) = sent_numbers s \<or> sent_numbers (pump_round level p s) = sent_numbers s @ [e]"
      using u by (auto simp: pump_round_def numbers_def sent_numbers_def Let_def fun_eq_iff)
    then show ?thesis using apart_drop[OF log_round.IH Cons] apart_send[OF log_round.IH Cons] by metis
  qed
next
  case (log_event s level)
  have "sent_numbers (log_emit level s) = sent_numbers s" "lg_emitted (log_emit level s) = Suc (lg_emitted s)"
    by (simp_all add: sent_numbers_def log_emit_def)
  then show ?case using apart_emit[OF log_event.IH] numbers_emit[OF pumps_ok_reachable[OF log_event.hyps]] by simp
qed

text \<open>No event is sent twice, and at most one pump is subscribed.\<close>

lemma log_sent_once:
  assumes "log_reachable s"
  shows "distinct (map fst (lg_sent s))"
    "lg_pumps s p = Some u \<Longrightarrow> pu_open u \<Longrightarrow> lg_pumps s q = Some v \<Longrightarrow> pu_open v \<Longrightarrow> p = q"
proof -
  show "distinct (map fst (lg_sent s))" using apart_reachable[OF assms] unfolding apart_def sent_numbers_def by blast
  show "lg_pumps s p = Some u \<Longrightarrow> pu_open u \<Longrightarrow> lg_pumps s q = Some v \<Longrightarrow> pu_open v \<Longrightarrow> p = q"
    using pumps_okD[OF pumps_ok_reachable[OF assms], of p u] pumps_okD[OF pumps_ok_reachable[OF assms], of q v]
    by (simp add: pump_ok_def)
qed

text \<open>A stopped pump sends nothing, and its rounds empty its buffer, which no event enters any more.\<close>

lemma stopped_pump_drains:
  assumes "log_reachable s" "lg_pumps s p = Some u" "pu_stopped u"
  shows "lg_sent (pump_round level p s) = lg_sent s"
    "length (numbers (pump_round level p s) p) = length (numbers s p) - 1"
    "numbers (log_emit level s) p = numbers s p"
proof -
  have "\<not> pu_open u" "lg_active s \<noteq> Some p" using pumps_okD[OF pumps_ok_reachable[OF assms(1)] assms(2)] assms(3) unfolding pump_ok_def by blast+
  then show "lg_sent (pump_round level p s) = lg_sent s"
    "length (numbers (pump_round level p s) p) = length (numbers s p) - 1"
    "numbers (log_emit level s) p = numbers s p"
    using assms(2,3) by (simp_all add: pump_round_def numbers_def log_emit_def Let_def split: list.split)
qed

end
