(* ===== verification/Connections.thy ===== *)
theory Connections
  imports Go_Prelude
begin

text \<open>
  The smaller parts of the Core: connections (\<open>core/connection.go\<close>), DNS queries told to the host
  (\<open>core/dns_query.go\<close>), filters (\<open>core/filter.go\<close>), certificates (\<open>core/certificate.go\<close>), the end of the
  process (\<open>core/exit.go\<close>), and the figures and timers of memory (\<open>core/lifecycle.go\<close>, \<open>core/lib.go\<close>).

  mihomo's manager, the X.509 and regular-expression libraries and the runtime are arguments.
\<close>

subsection \<open>Connections\<close>

text \<open>mihomo's manager: the trackers by id, which of them are closed, its counters, and how often the DNS
  caches were cleared and the statistics reset.\<close>

record manager =
  mg_trackers :: "string list"
  mg_closed :: "string set"
  mg_now :: "bool \<Rightarrow> int \<times> int"
  mg_total :: "bool \<Rightarrow> int \<times> int"
  mg_cache_clears :: nat
  mg_resets :: nat

definition handle_get_traffic :: "manager \<Rightarrow> bool \<Rightarrow> int \<times> int" where
  "handle_get_traffic m only_proxy = (case mg_now m only_proxy of (up, down) \<Rightarrow> (up, down))"

definition handle_get_total_traffic :: "manager \<Rightarrow> bool \<Rightarrow> int \<times> int" where
  "handle_get_total_traffic m only_proxy = (case mg_total m only_proxy of (up, down) \<Rightarrow> (up, down))"

definition handle_reset_traffic :: "manager \<Rightarrow> manager" where
  "handle_reset_traffic m = m\<lparr>mg_resets := Suc (mg_resets m)\<rparr>"

definition handle_get_connection_count :: "manager \<Rightarrow> nat" where
  "handle_get_connection_count m = foldl (\<lambda>count _. Suc count) 0 (mg_trackers m)"

definition close_tracker :: "string \<Rightarrow> manager \<Rightarrow> manager" where
  "close_tracker c m = m\<lparr>mg_closed := insert c (mg_closed m)\<rparr>"

definition handle_close_connections :: "manager \<Rightarrow> bool \<times> manager" where
  "handle_close_connections m = (True, foldl (\<lambda>m c. close_tracker c m) m (mg_trackers m))"

definition handle_close_connection :: "string \<Rightarrow> manager \<Rightarrow> bool \<times> manager" where
  "handle_close_connection i m = (if i \<notin> set (mg_trackers m) then (False, m) else (True, close_tracker i m))"

definition handle_clear_dns_cache :: "manager \<Rightarrow> manager" where
  "handle_clear_dns_cache m = m\<lparr>mg_cache_clears := Suc (mg_cache_clears m)\<rparr>"

definition handle_reset_network :: "manager \<Rightarrow> manager" where
  "handle_reset_network m = handle_clear_dns_cache (snd (handle_close_connections m))"

lemma connection_count: "handle_get_connection_count m = length (mg_trackers m)"
proof -
  have "foldl (\<lambda>count _. Suc count) n xs = n + length xs" for n and xs :: "string list"
    by (induction xs arbitrary: n) simp_all
  then show ?thesis by (simp add: handle_get_connection_count_def)
qed

lemma close_all:
  "foldl (\<lambda>m c. close_tracker c m) m cs = m\<lparr>mg_closed := mg_closed m \<union> set cs\<rparr>"
  by (induction cs arbitrary: m) (simp_all add: close_tracker_def)

lemma reset_network_closes:
  "set (mg_trackers m) \<subseteq> mg_closed (handle_reset_network m)"
  "mg_cache_clears (handle_reset_network m) = Suc (mg_cache_clears m)"
  by (simp_all add: handle_reset_network_def handle_close_connections_def handle_clear_dns_cache_def close_all)

lemma close_connection_one:
  "handle_close_connection i m = (b, m') \<Longrightarrow>
     (b \<longleftrightarrow> i \<in> set (mg_trackers m)) \<and> mg_closed m' = mg_closed m \<union> (if b then {i} else {}) \<and> mg_trackers m' = mg_trackers m"
  by (auto simp: handle_close_connection_def close_tracker_def split: if_splits)

subsection \<open>DNS queries\<close>

text \<open>A resource record by its type, any other by its text and the text of its header.\<close>

datatype resource = A_record string | AAAA_record string | CNAME_record string | Other_record string string

record query_record =
  qr_name :: string
  qr_type :: "16 word"
  qr_initiator :: string
  qr_upstream :: string
  qr_cached :: bool
  qr_start :: int
  qr_error :: "string option"
  qr_msg :: "(int \<times> resource list) option"

record dns_query =
  dq_domain :: string
  dq_type :: string
  dq_initiator :: string
  dq_upstream :: string
  dq_cached :: bool
  dq_answers :: "string list"
  dq_rcode :: string
  dq_error :: string
  dq_delay :: int
  dq_time :: int

definition trim_dot :: "string \<Rightarrow> string" where
  "trim_dot s = (if s \<noteq> [] \<and> last s = CHR ''.'' then butlast s else s)"

definition trim_prefix :: "string \<Rightarrow> string \<Rightarrow> string" where
  "trim_prefix s p = (if prefix p s then drop (length p) s else s)"

definition dns_answer_value :: "resource \<Rightarrow> string" where
  "dns_answer_value rr =
     (case rr of
        A_record a \<Rightarrow> a
      | AAAA_record a \<Rightarrow> a
      | CNAME_record target \<Rightarrow> trim_dot target
      | Other_record text header \<Rightarrow> trim_space (trim_prefix text header))"

definition new_dns_query :: "(16 word \<Rightarrow> string) \<Rightarrow> (int \<Rightarrow> string) \<Rightarrow> int \<Rightarrow> query_record \<Rightarrow> dns_query" where
  "new_dns_query type_name rcode_name now r =
     (let query = \<lparr>dq_domain = trim_dot (qr_name r), dq_type = type_name (qr_type r), dq_initiator = qr_initiator r,
            dq_upstream = qr_upstream r, dq_cached = qr_cached r, dq_answers = [], dq_rcode = [],
            dq_error = (case qr_error r of None \<Rightarrow> [] | Some e \<Rightarrow> e), dq_delay = (now - qr_start r) div 1000000,
            dq_time = qr_start r\<rparr>
      in case qr_msg r of
           None \<Rightarrow> query
         | Some (rcode, answers) \<Rightarrow>
             query\<lparr>dq_rcode := rcode_name rcode,
                   dq_answers := foldl (\<lambda>as rr. as @ [dns_answer_value rr]) (dq_answers query) answers\<rparr>)"

lemma answers_in_order:
  "qr_msg r = Some (rcode, answers) \<Longrightarrow>
     dq_answers (new_dns_query type_name rcode_name now r) = map dns_answer_value answers"
proof -
  assume m: "qr_msg r = Some (rcode, answers)"
  have "foldl (\<lambda>as rr. as @ [dns_answer_value rr]) us answers = us @ map dns_answer_value answers" for us
    by (induction answers arbitrary: us) simp_all
  then show ?thesis using m by (simp add: new_dns_query_def Let_def)
qed

subsection \<open>Filters\<close>

text \<open>The first part of a filter that does not compile gives its error.\<close>

fun first_error :: "(string \<Rightarrow> string option) \<Rightarrow> string list \<Rightarrow> string" where
  "first_error compile [] = []"
| "first_error compile (part # parts) =
     (case compile part of Some e \<Rightarrow> e | None \<Rightarrow> first_error compile parts)"

definition handle_validate_filters :: "(string \<Rightarrow> string option) \<Rightarrow> string list \<Rightarrow> string list" where
  "handle_validate_filters compile filters = map (\<lambda>f. first_error compile (split_on CHR 0x60 f)) filters"

lemma filter_valid:
  assumes "\<And>p e. compile p = Some e \<Longrightarrow> e \<noteq> []"
  shows "length (handle_validate_filters compile filters) = length filters"
    "i < length filters \<Longrightarrow> handle_validate_filters compile filters ! i = [] \<longleftrightarrow>
       (\<forall>p \<in> set (split_on CHR 0x60 (filters ! i)). compile p = None)"
proof -
  have "first_error compile ps = [] \<longleftrightarrow> (\<forall>p \<in> set ps. compile p = None)" for ps
    using assms by (induction ps) (auto split: option.splits)
  then show "length (handle_validate_filters compile filters) = length filters"
    "i < length filters \<Longrightarrow> handle_validate_filters compile filters ! i = [] \<longleftrightarrow>
       (\<forall>p \<in> set (split_on CHR 0x60 (filters ! i)). compile p = None)"
    by (simp_all add: handle_validate_filters_def)
qed

subsection \<open>Certificates\<close>

text \<open>
  A TLS configuration: whether it skips Go's verification, the roots, and the check of a connection,
  which answers with an error and whether it warned. X.509 verification is an argument, of the roots,
  the name, the leaf and the intermediates.
\<close>

record 'c tls_state =
  ts_peers :: "'c list"
  ts_server :: string

record 'c tls_config =
  tc_insecure :: bool
  tc_roots :: string
  tc_verify :: "('c tls_state \<Rightarrow> string option \<times> bool) option"

definition verify_peer ::
  "(string \<Rightarrow> string \<Rightarrow> 'c \<Rightarrow> 'c list \<Rightarrow> string option) \<Rightarrow> 'c tls_config \<Rightarrow> 'c tls_state \<Rightarrow> string option" where
  "verify_peer x509 cfg st = x509 (tc_roots cfg) (ts_server st) (hd (ts_peers st)) (tl (ts_peers st))"

definition relax_cert_verify ::
  "(string \<Rightarrow> string \<Rightarrow> 'c \<Rightarrow> 'c list \<Rightarrow> string option) \<Rightarrow> bool \<Rightarrow> 'c tls_config \<Rightarrow> 'c tls_config" where
  "relax_cert_verify x509 skip cfg =
     (if \<not> skip then cfg
      else (let cfg1 = cfg\<lparr>tc_insecure := True\<rparr>
            in cfg1\<lparr>tc_verify := Some (\<lambda>st.
                 if ts_peers st = [] then (None, False) else (None, verify_peer x509 cfg1 st \<noteq> None))\<rparr>))"

text \<open>Checked, a configuration is left alone; unchecked, every connection is accepted, with a warning when it would not verify.\<close>

lemma relaxed_accepts:
  "relax_cert_verify x509 False cfg = cfg"
  "tc_verify (relax_cert_verify x509 True cfg) = Some v \<Longrightarrow>
     fst (v st) = None \<and> (snd (v st) \<longleftrightarrow> ts_peers st \<noteq> [] \<and> x509 (tc_roots cfg) (ts_server st) (hd (ts_peers st)) (tl (ts_peers st)) \<noteq> None)"
  by (auto simp: relax_cert_verify_def verify_peer_def Let_def split: if_splits)

subsection \<open>Memory\<close>

record mem_stats =
  ms_heap_inuse :: u64
  ms_heap_idle :: u64
  ms_heap_released :: u64
  ms_stack_inuse :: u64
  ms_mspan :: u64
  ms_mcache :: u64
  ms_buck_hash :: u64
  ms_gc_sys :: u64
  ms_other_sys :: u64

record memory_stats =
  my_rss :: u64
  my_heap_inuse :: u64
  my_heap_idle :: u64
  my_stack_inuse :: u64
  my_runtime_other :: u64

definition handle_get_memory_stats :: "u64 \<Rightarrow> mem_stats \<Rightarrow> memory_stats" where
  "handle_get_memory_stats rss ms =
     \<lparr>my_rss = rss, my_heap_inuse = ms_heap_inuse ms, my_heap_idle = ms_heap_idle ms - ms_heap_released ms,
      my_stack_inuse = ms_stack_inuse ms,
      my_runtime_other = ms_mspan ms + ms_mcache ms + ms_buck_hash ms + ms_gc_sys ms + ms_other_sys ms\<rparr>"

text \<open>The runtime releases idle spans only, so the difference does not wrap.\<close>

lemma heap_idle_exact:
  "ms_heap_released ms \<le> ms_heap_idle ms \<Longrightarrow>
     unat (my_heap_idle (handle_get_memory_stats rss ms)) = unat (ms_heap_idle ms) - unat (ms_heap_released ms)"
  by (simp add: handle_get_memory_stats_def unat_sub word_le_nat_alt)

text \<open>
  The memory of a load is released by a timer that every load sets back: the time it fires at, and the
  releases so far.
\<close>

record load_release =
  ll_fires_at :: "int option"
  ll_made :: bool
  ll_released :: "int list"

definition load_release_delay :: int where
  "load_release_delay = 2 * 1000000000"

definition schedule_load_memory_release :: "int \<Rightarrow> load_release \<Rightarrow> load_release" where
  "schedule_load_memory_release now s =
     (if \<not> ll_made s then s\<lparr>ll_made := True, ll_fires_at := Some (now + load_release_delay)\<rparr>
      else s\<lparr>ll_fires_at := Some (now + load_release_delay)\<rparr>)"

definition load_timer_fires :: "load_release \<Rightarrow> load_release" where
  "load_timer_fires s =
     (case ll_fires_at s of None \<Rightarrow> s | Some t \<Rightarrow> s\<lparr>ll_fires_at := None, ll_released := ll_released s @ [t]\<rparr>)"

text \<open>A burst of loads releases once, two seconds after its last load.\<close>

lemma burst_releases_once:
  assumes "loads \<noteq> []"
  shows "ll_released (load_timer_fires (foldl (\<lambda>s now. schedule_load_memory_release now s) s loads)) =
    ll_released s @ [last loads + load_release_delay]"
proof -
  have "loads \<noteq> [] \<Longrightarrow> ll_fires_at (foldl (\<lambda>s now. schedule_load_memory_release now s) s loads) = Some (last loads + load_release_delay)"
    for s by (induction loads arbitrary: s) (auto simp: schedule_load_memory_release_def)
  moreover have "ll_released (foldl (\<lambda>s now. schedule_load_memory_release now s) s loads) = ll_released s" for s
    by (induction loads arbitrary: s) (simp_all add: schedule_load_memory_release_def)
  ultimately show ?thesis using assms by (simp add: load_timer_fires_def)
qed

text \<open>\<open>ForceGC\<close>: a request while a collection is under way is dropped.\<close>

record force_gc =
  gc_pending :: bool
  gc_running :: nat
  gc_done :: nat

definition force_gc_request :: "force_gc \<Rightarrow> force_gc" where
  "force_gc_request s = (if gc_pending s then s else s\<lparr>gc_pending := True, gc_running := Suc (gc_running s)\<rparr>)"

definition force_gc_ends :: "force_gc \<Rightarrow> force_gc" where
  "force_gc_ends s = s\<lparr>gc_pending := False, gc_running := gc_running s - 1, gc_done := Suc (gc_done s)\<rparr>"

inductive gc_reachable :: "force_gc \<Rightarrow> bool" where
  gc_zero: "gc_reachable \<lparr>gc_pending = False, gc_running = 0, gc_done = 0\<rparr>"
| gc_request: "gc_reachable s \<Longrightarrow> gc_reachable (force_gc_request s)"
| gc_end: "gc_reachable s \<Longrightarrow> 0 < gc_running s \<Longrightarrow> gc_reachable (force_gc_ends s)"

lemma gc_one_at_a_time: "gc_reachable s \<Longrightarrow> gc_running s = (if gc_pending s then 1 else 0)"
  by (induction rule: gc_reachable.induct) (auto simp: force_gc_request_def force_gc_ends_def split: if_splits)

subsection \<open>The end of the process\<close>

text \<open>
  A signal ends the process once the Core is shut down or three seconds have passed; a Core that was
  never initialised is not shut down. The shutdown takes the time given, None if it never ends.
\<close>

datatype exit_outcome = NothingToRelease | Released int | GaveUp int

definition exit_cleanup_timeout :: int where
  "exit_cleanup_timeout = 3 * 1000000000"

definition release_on_exit :: "bool \<Rightarrow> int option \<Rightarrow> exit_outcome" where
  "release_on_exit initialised shutdown_takes =
     (if \<not> initialised then NothingToRelease
      else (case shutdown_takes of
              None \<Rightarrow> GaveUp exit_cleanup_timeout
            | Some t \<Rightarrow> if t \<le> exit_cleanup_timeout then Released t else GaveUp exit_cleanup_timeout))"

definition exit_delay :: "exit_outcome \<Rightarrow> int" where
  "exit_delay x = (case x of NothingToRelease \<Rightarrow> 0 | Released t \<Rightarrow> t | GaveUp t \<Rightarrow> t)"

lemma exit_in_time: "exit_delay (release_on_exit initialised takes) \<le> exit_cleanup_timeout"
  by (simp add: release_on_exit_def exit_delay_def exit_cleanup_timeout_def split: option.split)

end
