(* ===== verification/Config_Reads.thy ===== *)
theory Config_Reads
  imports Dispatch Connections
begin

text \<open>
  What the host only reads (\<open>core/config.go\<close>, \<open>core/proxy.go\<close>): a configuration, the definition of a proxy, the
  check of a file, a decrypted text and converted links; and the names of \<open>core/protocol.go\<close> against
  the table of handlers. The decoders, the files and mihomo's providers are arguments.
\<close>

subsection \<open>Reading a configuration\<close>

text \<open>
  Whatever comes of it, reading a configuration sets the release of its memory back (theory
  \<open>Connections\<close>); \<open>now\<close> is the time at which the handler returns.
\<close>

definition handle_get_config ::
  "(string \<Rightarrow> string + bytes) \<Rightarrow> (bytes \<Rightarrow> string + 'raw) \<Rightarrow> int \<Rightarrow> string \<Rightarrow> load_release
   \<Rightarrow> (string + 'raw) \<times> load_release" where
  "handle_get_config read unmarshal now path m =
     (case read path of
        Inl e \<Rightarrow> (Inl e, schedule_load_memory_release now m)
      | Inr buf \<Rightarrow> (unmarshal buf, schedule_load_memory_release now m))"

definition handle_validate_config ::
  "(string \<Rightarrow> string + bytes) \<Rightarrow> (bytes \<Rightarrow> string + 'raw) \<Rightarrow> int \<Rightarrow> string \<Rightarrow> load_release
   \<Rightarrow> string option \<times> load_release" where
  "handle_validate_config read unmarshal now path m =
     (case handle_get_config read unmarshal now path m of
        (Inl e, m1) \<Rightarrow> (Some e, m1)
      | (Inr _, m1) \<Rightarrow> (None, m1))"

definition handle_decrypt_config ::
  "(string \<Rightarrow> string + bytes) \<Rightarrow> (bytes \<Rightarrow> string \<Rightarrow> string + bytes) \<Rightarrow> string \<Rightarrow> string \<Rightarrow> string + string" where
  "handle_decrypt_config read decrypt path secret =
     (case read path of
        Inl e \<Rightarrow> Inl e
      | Inr buf \<Rightarrow> (case decrypt buf secret of Inl e \<Rightarrow> Inl e | Inr text \<Rightarrow> Inr text))"

definition handle_convert_proxies ::
  "(string \<Rightarrow> string + bytes) \<Rightarrow> (bytes \<Rightarrow> string + 'map list) \<Rightarrow> string \<Rightarrow> string + 'map list" where
  "handle_convert_proxies read convert path =
     (case read path of Inl e \<Rightarrow> Inl e | Inr buf \<Rightarrow> convert buf)"

subsection \<open>The definition of a proxy\<close>

text \<open>The members of a raw configuration that are read, and what the tunnel and mihomo's providers answer.\<close>

record ('map, 'decl) raw_members =
  rw_proxies :: "'map list"
  rw_providers :: "string \<Rightarrow> 'decl option"

record ('map, 'decl, 'pd) definitions_world =
  df_provider_of :: "string \<Rightarrow> string option" \<comment> \<open>the provider's name of a known proxy, empty for none\<close>
  df_running :: "string \<Rightarrow> 'pd option"
  df_mapping :: "'pd \<Rightarrow> 'decl \<Rightarrow> string \<Rightarrow> string + 'map option"
  df_name :: "'map \<Rightarrow> string option"

definition proxy_definition ::
  "('map, 'decl, 'pd) definitions_world \<Rightarrow> ('map, 'decl) raw_members \<Rightarrow> string \<Rightarrow> string + 'map option" where
  "proxy_definition w raw name =
     (case df_provider_of w name of
        Some (c # cs) \<Rightarrow>
          (case (df_running w (c # cs), rw_providers raw (c # cs)) of
             (Some pd, Some mapping) \<Rightarrow> df_mapping w pd mapping name
           | _ \<Rightarrow> Inr None)
      | _ \<Rightarrow> Inr (find (\<lambda>m. df_name w m = Some name) (rw_proxies raw)))"

definition handle_get_proxy_definition ::
  "('map, 'decl, 'pd) definitions_world \<Rightarrow> (string \<Rightarrow> string + bytes)
   \<Rightarrow> (bytes \<Rightarrow> string + ('map, 'decl) raw_members) \<Rightarrow> int \<Rightarrow> string \<Rightarrow> string \<Rightarrow> load_release
   \<Rightarrow> (string + 'map option) \<times> load_release" where
  "handle_get_proxy_definition w read unmarshal now running_path name m =
     (case handle_get_config read unmarshal now running_path m of
        (Inl e, m1) \<Rightarrow> (Inl e, m1)
      | (Inr raw, m1) \<Rightarrow> (proxy_definition w raw name, m1))"

text \<open>A definition read from the configuration itself has the name asked for and is the first of that name.\<close>

lemma definition_by_name:
  assumes "proxy_definition w raw name = Inr (Some m)" "df_provider_of w name \<in> {None, Some []}"
  shows "\<exists>us vs. rw_proxies raw = us @ m # vs \<and> df_name w m = Some name \<and> (\<forall>u \<in> set us. df_name w u \<noteq> Some name)"
proof -
  have f: "find (\<lambda>m. df_name w m = Some name) (rw_proxies raw) = Some m"
    using assms by (auto simp: proxy_definition_def)
  have "find (\<lambda>m. df_name w m = Some name) ms = Some m \<Longrightarrow>
      \<exists>us vs. ms = us @ m # vs \<and> df_name w m = Some name \<and> (\<forall>u \<in> set us. df_name w u \<noteq> Some name)" for ms
  proof (induction ms)
    case Nil
    then show ?case by simp
  next
    case (Cons x xs)
    show ?case
    proof (cases "df_name w x = Some name")
      case True
      then show ?thesis using Cons.prems by fastforce
    next
      case False
      then obtain us vs where "xs = us @ m # vs" "df_name w m = Some name" "\<forall>u \<in> set us. df_name w u \<noteq> Some name"
        using Cons by auto
      then show ?thesis using False by (intro exI[of _ "x # us"] exI[of _ vs]) auto
    qed
  qed
  then show ?thesis using f by blast
qed

text \<open>A proxy of a provider is never answered from the proxies of the configuration, which may hold another of its name.\<close>

lemma definition_of_provider:
  assumes "df_provider_of w name = Some pd" "pd \<noteq> []"
  shows "proxy_definition w raw name =
    (case (df_running w pd, rw_providers raw pd) of
       (Some p, Some mapping) \<Rightarrow> df_mapping w p mapping name | _ \<Rightarrow> Inr None)"
  using assms by (cases pd) (simp_all add: proxy_definition_def)

text \<open>Each of the three sets the release back exactly once, whether or not it fails.\<close>

lemma reads_release_memory:
  "snd (handle_get_config read unmarshal now path m) = schedule_load_memory_release now m"
  "snd (handle_validate_config read unmarshal now path m) = schedule_load_memory_release now m"
  "snd (handle_get_proxy_definition w read unmarshal now path name m) = schedule_load_memory_release now m"
  by (simp_all add: handle_get_config_def handle_validate_config_def handle_get_proxy_definition_def split: sum.splits)

lemma valid_iff_read:
  "fst (handle_validate_config read unmarshal now path m) = None \<longleftrightarrow>
     (\<exists>raw. fst (handle_get_config read unmarshal now path m) = Inr raw)"
  by (auto simp: handle_get_config_def handle_validate_config_def split: sum.splits)

subsection \<open>The names of the protocol\<close>

definition core_methods :: "string list" where
  "core_methods =
   [''message'', ''initClash'', ''getIsInit'', ''forceGc'', ''shutdown'', ''validateConfig'', ''decryptConfig'',
    ''validateProxies'', ''validateFilters'', ''convertProxies'', ''encodeShareLinks'', ''decodeShareLinks'',
    ''updateConfig'', ''getProxies'', ''changeProxy'', ''getTraffic'', ''getTotalTraffic'', ''resetTraffic'',
    ''asyncTestDelay'', ''probe'', ''outboundIp'', ''serviceCheck'', ''getConnections'', ''getConnectionCount'',
    ''closeConnections'', ''resetConnections'', ''clearDnsCache'', ''closeConnection'', ''getExternalProviders'',
    ''getExternalProvider'', ''getMemoryStats'', ''updateGeoData'', ''updateExternalProvider'',
    ''sideLoadExternalProvider'', ''startLog'', ''stopLog'', ''startListener'', ''stopListener'', ''updateDns'',
    ''crash'', ''setupConfig'', ''getConfig'', ''getProfileBase'', ''getProfileOutbounds'', ''getProxyDefinition'',
    ''buildProfile'', ''dumpRuleSet'', ''compileRuleSet'', ''clearEffect'', ''watchRoute'', ''checkRoutes'']"

text \<open>
  Every method of the protocol has one handler, except the batch of events the Core sends, the crash
  that no handler sees, and the method only Android registers.
\<close>

lemma core_methods_distinct: "distinct core_methods"
  unfolding core_methods_def by code_simp

lemma method_table_distinct: "distinct (map fst method_table)"
  unfolding method_table_def by code_simp

lemma methods_in_table:
  "\<forall>m \<in> set core_methods. m \<in> set (map fst method_table) \<longleftrightarrow> m \<notin> set [''message'', ''crash'', ''updateDns'']"
  unfolding core_methods_def method_table_def by code_simp

lemma table_in_methods: "set (map fst method_table) \<subseteq> set core_methods"
  unfolding core_methods_def method_table_def by code_simp

lemma every_method_handled:
  "set (map fst method_table) = set core_methods - set [''message'', ''crash'', ''updateDns'']"
  using methods_in_table table_in_methods by blast

end
