(* ===== verification/Event_Delivery.thy ===== *)
theory Event_Delivery
  imports Messages Ipc
begin

text \<open>
  The way of an event to the host: the batcher (theory \<open>Messages\<close>) hands a batch to \<open>sendMessageBatch\<close>,
  whose text travels among the replies over a connection that may accept a part of a write or fail
  (theory \<open>Ipc\<close>). The JSON codec of both sides is an argument.
\<close>

subsection \<open>A batch as a text\<close>

text \<open>None is a batch that could not be encoded and is dropped.\<close>

definition send_message_batch :: "('m list \<Rightarrow> string + bytes) \<Rightarrow> 'm list \<Rightarrow> bytes option" where
  "send_message_batch marshal messages =
     (case marshal messages of Inl _ \<Rightarrow> None | Inr data \<Rightarrow> Some data)"

definition event_texts :: "('m list \<Rightarrow> string + bytes) \<Rightarrow> 'm list list \<Rightarrow> bytes list" where
  "event_texts marshal batches = List.map_filter (send_message_batch marshal) batches"

text \<open>The host decodes a batch of events from a text, and None from any other; it reads what was encoded.\<close>

definition event_codec :: "('m list \<Rightarrow> string + bytes) \<Rightarrow> (bytes \<Rightarrow> 'm list option) \<Rightarrow> bool" where
  "event_codec marshal decode \<longleftrightarrow> (\<forall>b d. marshal b = Inr d \<longrightarrow> decode d = Some b)"

subsection \<open>Subsequences\<close>

lemma subseq_concat: "subseq xss yss \<Longrightarrow> subseq (concat xss) (concat yss)"
proof (induction rule: list_emb.induct)
  case (list_emb_Cons xss yss ys)
  then show ?case by (simp add: list_emb_append2)
next
  case (list_emb_Cons2 xs ys xss yss)
  then show ?case by (simp add: list_emb_append_mono)
qed simp

lemma subseq_map_filter: "subseq xs ys \<Longrightarrow> subseq (List.map_filter f xs) (List.map_filter f ys)"
  unfolding map_filter_def by (intro subseq_map subseq_filter)

lemma decoded_events:
  "event_codec marshal decode \<Longrightarrow>
   List.map_filter decode (event_texts marshal batches) = filter (\<lambda>b. send_message_batch marshal b \<noteq> None) batches"
  by (induction batches)
    (auto simp: event_texts_def map_filter_simps send_message_batch_def event_codec_def split: sum.splits)

lemma decoded_mixed:
  assumes "texts \<in> shuffles events replies" "\<forall>r \<in> set replies. decode r = None"
  shows "List.map_filter decode texts = List.map_filter decode events"
proof -
  let ?P = "\<lambda>x. decode x \<noteq> None"
  have "filter ?P replies = []" using assms(2) by (simp add: filter_empty_conv)
  then have "filter ?P ` shuffles events replies = {filter ?P events}" by (simp add: filter_shuffles)
  then have "filter ?P texts = filter ?P events" using assms(1) by blast
  then show ?thesis by (simp add: map_filter_def)
qed

lemma subseq_members: "subseq xs ys \<Longrightarrow> set xs \<subseteq> set ys"
  by (induction rule: list_emb.induct) auto

subsection \<open>From the queues to the host\<close>

lemma host_reads_batches:
  assumes "batcher_reachable s" "event_codec marshal decode"
    "map fst msgs \<in> shuffles (event_texts marshal (sent s)) replies" "\<forall>r \<in> set replies. decode r = None"
    "send_all env msgs t = Some t'" "c \<notin> closed t'" "wire_of t c = []"
  shows "\<exists>texts. serve_loop Some (wire_of t' c) = (texts, ReadEOF) \<and>
    subseq (List.map_filter decode texts) (sent s) \<and>
    subseq (concat (List.map_filter decode texts)) (map snd (consumed s)) \<and>
    (\<forall>b \<in> set (List.map_filter decode texts). 1 \<le> length b \<and> length b \<le> message_batch_size)"
proof -
  obtain texts where texts: "subseq texts (map fst msgs)" "\<forall>d \<in> set texts. length d \<le> max_ipc_frame_size" "wire_of t' c = frames texts"
    using send_all_wire[OF assms(5,6)] assms(7) by auto
  have "List.map_filter Some texts = texts" by (induction texts) (auto simp: map_filter_simps)
  then have read: "serve_loop Some (wire_of t' c) = (texts, ReadEOF)"
    using texts serve_loop_frames[OF texts(2), of Some] by auto
  have "List.map_filter decode (map fst msgs) = filter (\<lambda>b. send_message_batch marshal b \<noteq> None) (sent s)"
    using decoded_mixed[OF assms(3,4)] decoded_events[OF assms(2)] by simp
  then have batches: "subseq (List.map_filter decode texts) (sent s)"
    using subseq_map_filter[OF texts(1), of decode] by (metis subseq_filter_left subseq_order.order_trans)
  have inv: "batch_inv s" by (rule batch_inv_reachable[OF assms(1)])
  have all: "concat (sent s) @ batch s = map snd (consumed s)"
    and sizes: "\<forall>b \<in> set (sent s). b \<noteq> [] \<and> length b \<le> message_batch_size"
    using inv unfolding batch_inv_def by blast+
  have "subseq (concat (sent s)) (map snd (consumed s))"
    unfolding all[symmetric] by (rule subseq_rev_drop_many[OF subseq_order.order_refl])
  then have order: "subseq (concat (List.map_filter decode texts)) (map snd (consumed s))"
    by (rule subseq_order.order_trans[OF subseq_concat[OF batches]])
  have "\<forall>b \<in> set (List.map_filter decode texts). 1 \<le> length b \<and> length b \<le> message_batch_size"
    using sizes subseq_members[OF batches] by (auto simp: Suc_le_eq)
  then show ?thesis using read batches order by blast
qed

text \<open>C2. Every batch the host decodes from what the connection carried is one the batcher gave to the
  transport, whole and in its order, whatever replies travel between them and however writes are cut, resumed or
  given up: the events it reads are a subsequence of those taken from the queues, in batches of one to
  thirty-two.\<close>

theorem events_reach_host:
  assumes "batcher_reachable s" "event_codec marshal decode"
    "map fst msgs \<in> shuffles (event_texts marshal (sent s)) replies" "\<forall>r \<in> set replies. decode r = None"
    "send_all env msgs t = Some t'" "c \<notin> closed t'" "wire_of t c = []"
  shows "\<exists>texts. serve_loop Some (wire_of t' c) = (texts, ReadEOF) \<and>
    subseq (List.map_filter decode texts) (sent s) \<and>
    subseq (concat (List.map_filter decode texts)) (map snd (consumed s)) \<and>
    (\<forall>b \<in> set (List.map_filter decode texts). 1 \<le> length b \<and> length b \<le> message_batch_size)"
  by (rule host_reads_batches[OF assms])

primrec run_alone :: "nat \<Rightarrow> 'm batcher \<Rightarrow> 'm batcher option" where
  "run_alone 0 s = Some s"
| "run_alone (Suc k) s = (case batcher_next Deadline s of None \<Rightarrow> None | Some s1 \<Rightarrow> run_alone k s1)"

lemma run_alone_reachable: "batcher_reachable s \<Longrightarrow> run_alone k s = Some s' \<Longrightarrow> batcher_reachable s'"
  by (induction k arbitrary: s) (auto split: option.splits dest: batcher_reachable.step[OF _ batcher_step.own])

lemma demo_batch_sent: "\<exists>s. run_alone 5 demo_busy = Some s \<and> sent s = [[7]]"
  by (simp add: eval_nat_numeral batcher_next_def select_step_def flush_def demo_busy_def batcher_start_def ready_def
      take_from_def Let_def message_batch_size_def message_priority_burst_def)

definition demo_marshal :: "nat list \<Rightarrow> string + bytes" where
  "demo_marshal b = (if b = [7] then Inr ''hi'' else Inl ''unsupported value'')"

definition demo_decode :: "bytes \<Rightarrow> nat list option" where
  "demo_decode d = (if d = ''hi'' then Some [7] else None)"

theorem events_reach_host_witness:
  "\<exists>(s :: nat batcher) t' texts. batcher_reachable s \<and> sent s = [[7]] \<and> send_all demo_env [(''hi'', id)] demo_transport = Some t' \<and>
     serve_loop Some (wire_of t' 0) = (texts, ReadEOF) \<and> subseq (List.map_filter demo_decode texts) [[7]]"
proof -
  obtain s :: "nat batcher" where s: "batcher_reachable s" "sent s = [[7]]"
    using demo_batch_sent run_alone_reachable[OF demo_busy_reachable] by blast
  obtain t' where t: "send_all demo_env [(''hi'', id)] demo_transport = Some t'" "0 \<notin> closed t'"
    using demo_send by blast
  have codec: "event_codec demo_marshal demo_decode" by (simp add: event_codec_def demo_marshal_def demo_decode_def)
  have mixed: "map fst [(''hi'', id :: nat option \<Rightarrow> nat option)] \<in> shuffles (event_texts demo_marshal (sent s)) []"
    by (simp add: s event_texts_def map_filter_simps send_message_batch_def demo_marshal_def)
  have wire: "wire_of demo_transport 0 = []" by (simp add: demo_transport_def wire_of_def)
  show ?thesis
    using events_reach_host[OF s(1) codec mixed _ t wire] s t(1) by auto
qed

end
