(* ===== verification/Hooks.thy ===== *)
theory Hooks
  imports Messages Request_Traffic Probes Delays Connections Providers Ownership
begin

text \<open>
  What mihomo calls back and what the host then learns (\<open>core/hooks.go\<close>, the hooks of \<open>core/geo.go\<close>,
  \<open>core/route.go\<close>, \<open>core/log.go\<close> and the goroutine of \<open>core/request_traffic.go\<close>): every callback over one
  state, made of the components it touches, and the queues its events go through. A callback is one
  step; the batcher, the host and the timers step between them.
\<close>

subsection \<open>The events\<close>

datatype 't event =
  DelayEvent delay_answer | RequestEvent 't | DnsEvent dns_query | LoadedEvent string
| GeoEvent geo_update_status | RouteEvent route_state | LoopEvent string
| TrafficEvent "traffic_report list" | LogEvent string

text \<open>The type the host decodes an event by.\<close>

fun event_type :: "'t event \<Rightarrow> message_type" where
  "event_type (DelayEvent _) = DelayMessage"
| "event_type (RequestEvent _) = RequestMessage"
| "event_type (DnsEvent _) = DnsMessage"
| "event_type (LoadedEvent _) = LoadedMessage"
| "event_type (GeoEvent _) = GeoUpdateMessage"
| "event_type (RouteEvent _) = RouteChangedMessage"
| "event_type (LoopEvent _) = DialerLoopMessage"
| "event_type (TrafficEvent _) = RequestTrafficMessage"
| "event_type (LogEvent _) = LogMessage"

text \<open>
  \<open>hk_watchers\<close> counts the goroutines that report request traffic. The other fields are the state of
  the components a callback changes.
\<close>

record ('t, 's) hooks =
  hk_listening :: bool
  hk_queues :: "'t event message queues"
  hk_traffic :: "'t traffic_watch"
  hk_watchers :: nat
  hk_dialer :: probe_dialer
  hk_route :: "'s route_tracker"
  hk_claims :: update_claims
  hk_reclaims :: reclaim_requests
  hk_memory :: load_release
  hk_loops :: loop_reports

definition event_message :: "message_type \<Rightarrow> 't event \<Rightarrow> 't event message" where
  "event_message ty e = \<lparr>msg_type = ty, msg_data = e\<rparr>"

definition tell_host :: "message_type \<Rightarrow> 't event \<Rightarrow> ('t, 's) hooks \<Rightarrow> ('t, 's) hooks" where
  "tell_host ty e s =
     s\<lparr>hk_queues := snd (send_message (hk_listening s) (event_message ty e) (hk_queues s))\<rparr>"

subsection \<open>The callbacks\<close>

definition url_test_hook :: "string \<Rightarrow> string \<Rightarrow> 16 word \<Rightarrow> bool \<Rightarrow> ('t, 's) hooks \<Rightarrow> ('t, 's) hooks" where
  "url_test_hook url name delay timed_out s =
     tell_host DelayMessage
       (DelayEvent \<lparr>dl_name = name, dl_url = url, dl_value = delay_value delay timed_out\<rparr>) s"

text \<open>A request the tunnel opened: its id, its tracker, its route, and the pending probe dial it belongs to.\<close>

record 't request =
  ri_id :: string
  ri_tracker :: 't
  ri_route :: probe_route
  ri_dial :: "nat option"

definition watch_request_traffic ::
  "('t \<Rightarrow> int \<times> int) \<Rightarrow> 't request \<Rightarrow> ('t, 's) hooks \<Rightarrow> ('t, 's) hooks" where
  "watch_request_traffic totals r s =
     (case traffic_add totals (ri_id r) (ri_tracker r) (hk_traffic s) of
        (start, w) \<Rightarrow> s\<lparr>hk_traffic := w, hk_watchers := hk_watchers s + (if start then 1 else 0)\<rparr>)"

definition request_notify :: "('t \<Rightarrow> int \<times> int) \<Rightarrow> 't request \<Rightarrow> ('t, 's) hooks \<Rightarrow> ('t, 's) hooks" where
  "request_notify totals r s =
     (let s1 = (case ri_dial r of
                  None \<Rightarrow> s
                | Some i \<Rightarrow> s\<lparr>hk_dialer := notify_probe_route (ri_route r) i (hk_dialer s)\<rparr>)
      in if \<not> hk_listening s1 then s1
         else watch_request_traffic totals r (tell_host RequestMessage (RequestEvent (ri_tracker r)) s1))"

definition query_notify ::
  "(16 word \<Rightarrow> string) \<Rightarrow> (int \<Rightarrow> string) \<Rightarrow> int \<Rightarrow> query_record \<Rightarrow> ('t, 's) hooks \<Rightarrow> ('t, 's) hooks" where
  "query_notify type_name rcode_name now r s =
     (if \<not> hk_listening s then s
      else tell_host DnsMessage (DnsEvent (new_dns_query type_name rcode_name now r)) s)"

definition provider_loaded_hook ::
  "identity \<Rightarrow> string \<Rightarrow> int \<Rightarrow> string \<Rightarrow> ('t, 's) hooks \<Rightarrow> ('t, 's) hooks" where
  "provider_loaded_hook p home now name s =
     tell_host LoadedMessage (LoadedEvent name)
       (s\<lparr>hk_reclaims := schedule_reclaim_ownership p home (hk_reclaims s),
          hk_memory := schedule_load_memory_release now (hk_memory s)\<rparr>)"

text \<open>\<open>changeRoute\<close> tells the host each state that theory \<open>Routes\<close> publishes.\<close>

definition publish_route :: "route_state \<Rightarrow> ('t, 's) hooks \<Rightarrow> ('t, 's) hooks" where
  "publish_route state s = tell_host RouteChangedMessage (RouteEvent state) s"

definition move_route :: "('p, 'm, 's) tunnel \<Rightarrow> route_change \<Rightarrow> ('t, 's) hooks \<Rightarrow> ('t, 's) hooks" where
  "move_route tn change s =
     (let rt = change_route tn change (hk_route s)
      in fold publish_route (drop (length (rt_published (hk_route s))) (rt_published rt)) (s\<lparr>hk_route := rt\<rparr>))"

definition geo_update_hook ::
  "('p, 'm, 's) tunnel \<Rightarrow> identity \<Rightarrow> string \<Rightarrow> string \<Rightarrow> bool \<Rightarrow> bool \<Rightarrow> string option
   \<Rightarrow> ('t, 's) hooks \<Rightarrow> ('t, 's) hooks" where
  "geo_update_hook tn p home geo_type updating skipped err s =
     (case on_geo_update geo_type updating skipped err (hk_claims s) of
        (moved, status, claims) \<Rightarrow>
          (let s1 = s\<lparr>hk_claims := claims\<rparr>;
               s2 = (if updating then s1
                     else s1\<lparr>hk_reclaims := schedule_reclaim_ownership p home (hk_reclaims s1)\<rparr>);
               s3 = (if moved then move_route tn RouteMoved s2 else s2)
           in tell_host GeoUpdateMessage (GeoEvent status) s3))"

definition loop_notify :: "string \<Rightarrow> int \<Rightarrow> ('t, 's) hooks \<Rightarrow> ('t, 's) hooks" where
  "loop_notify name now s =
     (if loop_is_recent name now (hk_loops s) then s
      else tell_host DialerLoopMessage (LoopEvent name) (s\<lparr>hk_loops := loop_store name now (hk_loops s)\<rparr>))"

definition log_notify :: "string \<Rightarrow> ('t, 's) hooks \<Rightarrow> ('t, 's) hooks" where
  "log_notify text s = tell_host LogMessage (LogEvent text) s"

datatype 't callback =
  UrlTested string string "16 word" bool
| RequestOpened "'t \<Rightarrow> int \<times> int" "'t request"
| QueryDone "16 word \<Rightarrow> string" "int \<Rightarrow> string" int query_record
| ProviderLoaded int string
| GeoUpdated string bool bool "string option"
| DialerLooped string int
| EventLogged string
| RouteChanges route_change

fun call_back ::
  "('p, 'm, 's) tunnel \<Rightarrow> identity \<Rightarrow> string \<Rightarrow> 't callback \<Rightarrow> ('t, 's) hooks \<Rightarrow> ('t, 's) hooks" where
  "call_back tn p home (UrlTested url name delay timed_out) s = url_test_hook url name delay timed_out s"
| "call_back tn p home (RequestOpened totals r) s = request_notify totals r s"
| "call_back tn p home (QueryDone type_name rcode_name now r) s = query_notify type_name rcode_name now r s"
| "call_back tn p home (ProviderLoaded now name) s = provider_loaded_hook p home now name s"
| "call_back tn p home (GeoUpdated geo_type updating skipped err) s = geo_update_hook tn p home geo_type updating skipped err s"
| "call_back tn p home (DialerLooped name now) s = loop_notify name now s"
| "call_back tn p home (EventLogged text) s = log_notify text s"
| "call_back tn p home (RouteChanges change) s = move_route tn change s"

text \<open>
  One tick of the goroutine that reports traffic. The round sends at most one report, and learns
  whether it was queued.
\<close>

definition report_traffic ::
  "('t \<Rightarrow> int \<times> int) \<Rightarrow> (string \<Rightarrow> bool) \<Rightarrow> ('t, 's) hooks \<Rightarrow> ('t, 's) hooks" where
  "report_traffic totals is_open s =
     (let queue = (\<lambda>changed. fst (send_message (hk_listening s)
             (event_message RequestTrafficMessage (TrafficEvent changed)) (hk_queues s)));
          changed = traffic_changed totals (map (visit_request is_open) (tw_requests (hk_traffic s)));
          s1 = (if hk_listening s \<and> changed \<noteq> [] then tell_host RequestTrafficMessage (TrafficEvent changed) s else s)
      in case traffic_tick (hk_listening s) totals is_open queue (hk_traffic s) of
           (watching, w) \<Rightarrow> s1\<lparr>hk_traffic := w, hk_watchers := (if watching then hk_watchers s else hk_watchers s - 1)\<rparr>)"

subsection \<open>Reachable states\<close>

text \<open>
  The batcher takes the oldest message of a queue, the host starts and stops listening, the goroutine
  that reports traffic ticks while there is one, and the other handlers change the components that
  are theirs. \<open>tns\<close> holds the tunnels met along the way.
\<close>

definition take_message :: "chan \<Rightarrow> 'm queues \<Rightarrow> 'm queues" where
  "take_message c qs =
     (case c of
        StateQ \<Rightarrow> qs\<lparr>state_queue := tl (state_queue qs)\<rparr>
      | PriorityQ \<Rightarrow> qs\<lparr>priority_queue := tl (priority_queue qs)\<rparr>
      | BulkQ \<Rightarrow> qs\<lparr>bulk_queue := tl (bulk_queue qs)\<rparr>)"

definition elsewhere ::
  "probe_dialer \<Rightarrow> 's route_tracker \<Rightarrow> update_claims \<Rightarrow> reclaim_requests \<Rightarrow> load_release
   \<Rightarrow> ('t, 's) hooks \<Rightarrow> ('t, 's) hooks" where
  "elsewhere d rt claims rq m s =
     s\<lparr>hk_dialer := d, hk_route := rt, hk_claims := claims, hk_reclaims := rq, hk_memory := m\<rparr>"

definition hooks_start :: "('t, 's) hooks" where
  "hooks_start =
     \<lparr>hk_listening = False, hk_queues = \<lparr>state_queue = [], priority_queue = [], bulk_queue = []\<rparr>,
      hk_traffic = traffic_start, hk_watchers = 0, hk_dialer = new_dialer False, hk_route = initial_tracker,
      hk_claims = Map.empty, hk_reclaims = \<lparr>rq_pending = False, rq_sleeping = 0, rq_count = 0, rq_starts = []\<rparr>,
      hk_memory = \<lparr>ll_fires_at = None, ll_made = False, ll_released = []\<rparr>,
      hk_loops = \<lparr>lr_last = Map.empty, lr_reported = []\<rparr>\<rparr>"

inductive hooks_reachable ::
  "(nat \<Rightarrow> ('p, 'm, 's) tunnel) \<Rightarrow> identity \<Rightarrow> string \<Rightarrow> ('t, 's) hooks \<Rightarrow> bool" for tns p home where
  hooks_zero: "hooks_reachable tns p home hooks_start"
| hooks_call: "hooks_reachable tns p home s \<Longrightarrow> hooks_reachable tns p home (call_back (tns k) p home call s)"
| hooks_tick: "hooks_reachable tns p home s \<Longrightarrow> 0 < hk_watchers s \<Longrightarrow>
    hooks_reachable tns p home (report_traffic totals is_open s)"
| hooks_take: "hooks_reachable tns p home s \<Longrightarrow> hooks_reachable tns p home (s\<lparr>hk_queues := take_message c (hk_queues s)\<rparr>)"
| hooks_listen: "hooks_reachable tns p home s \<Longrightarrow> hooks_reachable tns p home (s\<lparr>hk_listening := on\<rparr>)"
| hooks_else: "hooks_reachable tns p home s \<Longrightarrow> hooks_reachable tns p home (elsewhere d rt claims rq m s)"

subsection \<open>What a callback does to the queues\<close>

lemma tell_host_fields [simp]:
  "hk_listening (tell_host ty e s) = hk_listening s" "hk_traffic (tell_host ty e s) = hk_traffic s"
  "hk_watchers (tell_host ty e s) = hk_watchers s" "hk_loops (tell_host ty e s) = hk_loops s"
  by (simp_all add: tell_host_def)

text \<open>Each queue holds messages of its classes only, under the type of their data.\<close>

fun chan_of_class :: "message_class \<Rightarrow> chan" where
  "chan_of_class StateMessageClass = StateQ"
| "chan_of_class PriorityMessageClass = PriorityQ"
| "chan_of_class BulkMessageClass = BulkQ"
| "chan_of_class YieldingBulkMessageClass = BulkQ"

definition belongs :: "chan \<Rightarrow> 't event message \<Rightarrow> bool" where
  "belongs c m \<longleftrightarrow> msg_type m = event_type (msg_data m) \<and> chan_of_class (class_of_message m) = c"

definition queues_typed :: "'t event message queues \<Rightarrow> bool" where
  "queues_typed qs \<longleftrightarrow> queues_bounded qs \<and> list_all (belongs StateQ) (state_queue qs) \<and>
     list_all (belongs PriorityQ) (priority_queue qs) \<and> list_all (belongs BulkQ) (bulk_queue qs)"

lemma list_all_put [simp]: "list_all P q \<Longrightarrow> list_all P (tl q)"
  by (cases q) auto

lemma send_typed:
  assumes "queues_typed qs" "ty = event_type e"
  shows "queues_typed (snd (send_message l (event_message ty e) qs))"
  using assms
  by (auto simp: queues_typed_def queues_bounded_def send_message_def enqueue_latest_alone enqueue_state_def
      belongs_def event_message_def message_queue_size_def split: message_class.splits if_splits)

lemma send_keeps_state: "prefix (state_queue qs) (state_queue (snd (send_message l m qs)))"
  by (auto simp: send_message_def enqueue_state_def split: message_class.splits prod.splits)

text \<open>A callback keeps the queues typed, evicts no state event, and does nothing to them unheard.\<close>

definition keeps_queues :: "('t, 's) hooks \<Rightarrow> ('t, 's) hooks \<Rightarrow> bool" where
  "keeps_queues s s' \<longleftrightarrow> hk_listening s' = hk_listening s \<and>
     (queues_typed (hk_queues s) \<longrightarrow> queues_typed (hk_queues s')) \<and>
     prefix (state_queue (hk_queues s)) (state_queue (hk_queues s')) \<and>
     (\<not> hk_listening s \<longrightarrow> hk_queues s' = hk_queues s)"

lemma keeps_queues_trans: "keeps_queues s s' \<Longrightarrow> keeps_queues s' s'' \<Longrightarrow> keeps_queues s s''"
  unfolding keeps_queues_def using prefix_order.order_trans by metis

lemma keeps_queues_same:
  "hk_listening s' = hk_listening s \<Longrightarrow> hk_queues s' = hk_queues s \<Longrightarrow> keeps_queues s s'"
  by (simp add: keeps_queues_def)

lemma keeps_queues_tell: "ty = event_type e \<Longrightarrow> keeps_queues s (tell_host ty e s)"
  by (simp add: keeps_queues_def tell_host_def send_typed send_keeps_state) (simp add: send_message_def)

lemma keeps_queues_told:
  "hk_listening s' = hk_listening s \<Longrightarrow> hk_queues s' = hk_queues s \<Longrightarrow> ty = event_type e \<Longrightarrow>
     keeps_queues s (tell_host ty e s')"
  by (blast intro: keeps_queues_trans keeps_queues_same keeps_queues_tell)

lemma keeps_queues_publish: "keeps_queues s (fold publish_route states s)"
proof (induction states arbitrary: s)
  case Nil
  then show ?case by (simp add: keeps_queues_same)
next
  case (Cons state states)
  have "keeps_queues s (publish_route state s)" by (simp add: publish_route_def keeps_queues_tell)
  from keeps_queues_trans[OF this Cons.IH] show ?case by simp
qed

lemma publish_fields [simp]:
  "hk_traffic (fold publish_route states s) = hk_traffic s" "hk_watchers (fold publish_route states s) = hk_watchers s"
  "hk_loops (fold publish_route states s) = hk_loops s"
  by (induction states arbitrary: s) (simp_all add: publish_route_def)

lemma move_route_fields [simp]:
  "hk_traffic (move_route tn change s) = hk_traffic s" "hk_watchers (move_route tn change s) = hk_watchers s"
  "hk_loops (move_route tn change s) = hk_loops s"
  by (simp_all add: move_route_def Let_def)

lemma keeps_queues_move: "keeps_queues s (move_route tn change s)"
  unfolding move_route_def Let_def
  by (rule keeps_queues_trans[OF _ keeps_queues_publish]) (simp add: keeps_queues_same)

lemma keeps_queues_ext:
  "keeps_queues s s' \<Longrightarrow> hk_listening s'' = hk_listening s' \<Longrightarrow> hk_queues s'' = hk_queues s' \<Longrightarrow> keeps_queues s s''"
  by (simp add: keeps_queues_def)

lemma watch_request_fields [simp]:
  "hk_listening (watch_request_traffic totals r s) = hk_listening s"
  "hk_queues (watch_request_traffic totals r s) = hk_queues s" "hk_loops (watch_request_traffic totals r s) = hk_loops s"
  by (simp_all add: watch_request_traffic_def split: prod.splits)

lemma keeps_queues_request: "keeps_queues s (request_notify totals r s)"
proof -
  define s1 where "s1 = (case ri_dial r of
      None \<Rightarrow> s | Some i \<Rightarrow> s\<lparr>hk_dialer := notify_probe_route (ri_route r) i (hk_dialer s)\<rparr>)"
  have s1: "hk_listening s1 = hk_listening s" "hk_queues s1 = hk_queues s" by (simp_all add: s1_def split: option.splits)
  have form: "request_notify totals r s = (if \<not> hk_listening s1 then s1
      else watch_request_traffic totals r (tell_host RequestMessage (RequestEvent (ri_tracker r)) s1))"
    by (simp add: request_notify_def Let_def s1_def)
  have told: "keeps_queues s (tell_host RequestMessage (RequestEvent (ri_tracker r)) s1)"
    by (rule keeps_queues_told[OF s1]) simp
  show ?thesis unfolding form using keeps_queues_same[OF s1] keeps_queues_ext[OF told] by simp
qed

lemma keeps_queues_geo: "keeps_queues s (geo_update_hook tn p home geo_type updating skipped err s)"
proof -
  have "keeps_queues s (tell_host GeoUpdateMessage (GeoEvent status) (if moved then move_route tn RouteMoved s' else s'))"
    if "hk_listening s' = hk_listening s" "hk_queues s' = hk_queues s" for s' status moved
  proof -
    have "keeps_queues s (if moved then move_route tn RouteMoved s' else s')"
      using keeps_queues_same[OF that] keeps_queues_trans[OF keeps_queues_same[OF that] keeps_queues_move[of _ tn RouteMoved]] by simp
    then show ?thesis by (rule keeps_queues_trans[OF _ keeps_queues_tell]) simp
  qed
  then show ?thesis
    by (simp add: geo_update_hook_def Let_def split: prod.splits)
qed

lemma call_back_keeps_queues: "keeps_queues s (call_back tn p home call s)"
proof (cases call)
  case (RequestOpened totals r)
  then show ?thesis by (simp add: keeps_queues_request)
next
  case (GeoUpdated geo_type updating skipped err)
  then show ?thesis by (simp add: keeps_queues_geo)
next
  case (RouteChanges change)
  then show ?thesis by (simp add: keeps_queues_move)
qed (auto simp: url_test_hook_def query_notify_def provider_loaded_hook_def loop_notify_def log_notify_def
    intro: keeps_queues_tell keeps_queues_told keeps_queues_same)

lemma report_keeps_queues: "keeps_queues s (report_traffic totals is_open s)"
proof -
  let ?changed = "traffic_changed totals (map (visit_request is_open) (tw_requests (hk_traffic s)))"
  define s1 where "s1 = (if hk_listening s \<and> ?changed \<noteq> []
      then tell_host RequestTrafficMessage (TrafficEvent ?changed) s else s)"
  have "keeps_queues s s1" by (simp add: s1_def keeps_queues_tell keeps_queues_same)
  moreover have "hk_listening (report_traffic totals is_open s) = hk_listening s1"
    "hk_queues (report_traffic totals is_open s) = hk_queues s1"
    by (simp_all add: report_traffic_def Let_def s1_def split: prod.splits)
  ultimately show ?thesis by (rule keeps_queues_ext)
qed

subsection \<open>One reporter of traffic\<close>

definition watch_ok :: "('t, 's) hooks \<Rightarrow> bool" where
  "watch_ok s \<longleftrightarrow> (tw_running (hk_traffic s) \<longleftrightarrow> tw_requests (hk_traffic s) \<noteq> []) \<and>
     hk_watchers s = (if tw_running (hk_traffic s) then 1 else 0)"

lemma watch_ok_fields [simp]:
  "watch_ok (tell_host ty e s) = watch_ok s" "watch_ok (move_route tn change s) = watch_ok s"
  "watch_ok (s\<lparr>hk_dialer := d\<rparr>) = watch_ok s" "watch_ok (s\<lparr>hk_claims := claims\<rparr>) = watch_ok s"
  "watch_ok (s\<lparr>hk_reclaims := rq\<rparr>) = watch_ok s" "watch_ok (s\<lparr>hk_memory := m\<rparr>) = watch_ok s"
  "watch_ok (s\<lparr>hk_loops := l\<rparr>) = watch_ok s"
  by (simp_all add: watch_ok_def)

lemma watch_ok_request: "watch_ok s \<Longrightarrow> watch_ok (watch_request_traffic totals r s)"
  by (auto simp: watch_ok_def watch_request_traffic_def traffic_add_def split: if_splits)

lemma watch_ok_notify: "watch_ok s \<Longrightarrow> watch_ok (request_notify totals r s)"
  by (auto simp: request_notify_def Let_def intro!: watch_ok_request split: option.splits)

lemma watch_ok_call: "watch_ok s \<Longrightarrow> watch_ok (call_back tn p home call s)"
  by (cases call)
    (simp_all add: watch_ok_notify url_test_hook_def query_notify_def
      provider_loaded_hook_def geo_update_hook_def loop_notify_def log_notify_def Let_def split: prod.splits)

lemma watch_ok_report:
  assumes "watch_ok s" "0 < hk_watchers s"
  shows "watch_ok (report_traffic totals is_open s)"
proof -
  have one: "hk_watchers s = 1" using assms by (auto simp: watch_ok_def split: if_splits)
  obtain watching w where w: "traffic_tick (hk_listening s) totals is_open (\<lambda>changed. fst (send_message (hk_listening s)
      (event_message RequestTrafficMessage (TrafficEvent changed)) (hk_queues s))) (hk_traffic s) = (watching, w)" by fastforce
  have "watching = (tw_requests w \<noteq> []) \<and> tw_running w = watching"
    using w by (auto simp: traffic_tick_def traffic_clear_def dest: collect_watching split: if_splits)
  then show ?thesis using one w by (simp add: watch_ok_def report_traffic_def Let_def)
qed

lemma loops_spaced_call:
  "loops_spaced (hk_loops s) \<Longrightarrow> loops_spaced (hk_loops (call_back tn p home call s))"
proof (cases call)
  case (DialerLooped name now)
  assume inv: "loops_spaced (hk_loops s)"
  have "hk_loops (loop_notify name now s) = report_dialer_loop name now (hk_loops s)"
    by (simp add: loop_notify_def report_dialer_loop_def)
  then show ?thesis using DialerLooped loops_spaced_report[OF inv, of name now] by simp
next
  case (RequestOpened totals r)
  assume "loops_spaced (hk_loops s)"
  then show ?thesis using RequestOpened by (simp add: request_notify_def Let_def split: option.splits)
qed (simp_all add: url_test_hook_def query_notify_def provider_loaded_hook_def geo_update_hook_def log_notify_def
    Let_def split: prod.splits)

subsection \<open>Every reachable state\<close>

definition hooks_inv :: "('t, 's) hooks \<Rightarrow> bool" where
  "hooks_inv s \<longleftrightarrow> queues_typed (hk_queues s) \<and> watch_ok s \<and> loops_spaced (hk_loops s)"

lemma hooks_inv_start: "hooks_inv hooks_start"
  by (simp add: hooks_inv_def hooks_start_def queues_typed_def queues_bounded_def watch_ok_def traffic_start_def
      loops_spaced_def)

lemma hooks_inv_call: "hooks_inv s \<Longrightarrow> hooks_inv (call_back tn p home call s)"
  using call_back_keeps_queues[of s tn p home call] watch_ok_call[of s tn p home call] loops_spaced_call[of s tn p home call]
  unfolding hooks_inv_def keeps_queues_def by blast

lemma report_loops [simp]: "hk_loops (report_traffic totals is_open s) = hk_loops s"
  by (simp add: report_traffic_def Let_def split: prod.splits)

lemma hooks_inv_report: "hooks_inv s \<Longrightarrow> 0 < hk_watchers s \<Longrightarrow> hooks_inv (report_traffic totals is_open s)"
  using report_keeps_queues[of s totals is_open] watch_ok_report[of s totals is_open]
  unfolding hooks_inv_def keeps_queues_def by simp

lemma take_message_typed: "queues_typed qs \<Longrightarrow> queues_typed (take_message c qs)"
  by (auto simp: queues_typed_def queues_bounded_def take_message_def split: chan.splits)

lemma hooks_inv_reachable: "hooks_reachable tns p home s \<Longrightarrow> hooks_inv s"
proof (induction rule: hooks_reachable.induct)
  case (hooks_take s c)
  then show ?case by (simp add: hooks_inv_def take_message_typed watch_ok_def)
next
  case (hooks_listen s on)
  then show ?case by (simp add: hooks_inv_def watch_ok_def)
next
  case (hooks_else s d rt claims rq m)
  then show ?case by (simp add: hooks_inv_def watch_ok_def elsewhere_def)
qed (auto intro: hooks_inv_start hooks_inv_call hooks_inv_report)

lemma callbacks_tell:
  assumes "hooks_reachable tns p home s"
  shows "queues_bounded (hk_queues s) \<and> list_all (belongs StateQ) (state_queue (hk_queues s)) \<and>
    list_all (belongs PriorityQ) (priority_queue (hk_queues s)) \<and> list_all (belongs BulkQ) (bulk_queue (hk_queues s)) \<and>
    hk_watchers s = (if tw_requests (hk_traffic s) = [] then 0 else 1) \<and>
    loops_spaced (hk_loops s) \<and>
    prefix (state_queue (hk_queues s)) (state_queue (hk_queues (call_back tn p home call s))) \<and>
    (hk_listening s \<or> hk_queues (call_back tn p home call s) = hk_queues s)"
  using hooks_inv_reachable[OF assms] call_back_keeps_queues[of s tn p home call]
  unfolding hooks_inv_def queues_typed_def keeps_queues_def watch_ok_def by (cases "hk_listening s") simp_all


definition demo_request :: "nat request" where
  "demo_request = \<lparr>ri_id = ''r1'', ri_tracker = 0, ri_route = \<lparr>pr_chains = [], pr_rule = [], pr_rule_payload = []\<rparr>, ri_dial = None\<rparr>"

definition demo_hooks :: "(nat, nat) hooks" where
  "demo_hooks = request_notify (\<lambda>_. (0, 0)) demo_request (hooks_start\<lparr>hk_listening := True\<rparr>)"

lemma demo_hooks_reachable: "hooks_reachable tns p home demo_hooks"
proof -
  have "hooks_reachable tns p home (hooks_start\<lparr>hk_listening := True\<rparr> :: (nat, nat) hooks)"
    by (rule hooks_listen[OF hooks_zero])
  from hooks_call[OF this, of _ "RequestOpened (\<lambda>_. (0, 0)) demo_request"] show ?thesis
    by (simp add: demo_hooks_def)
qed

lemma demo_hooks_fields:
  "hk_watchers demo_hooks = 1" "bulk_queue (hk_queues demo_hooks) = [event_message RequestMessage (RequestEvent 0)]"
  by (simp_all add: demo_hooks_def hooks_start_def request_notify_def watch_request_traffic_def traffic_add_def Let_def
      traffic_start_def demo_request_def tell_host_def send_message_def event_message_def class_of_message_def
      enqueue_latest_alone message_queue_size_def)


end
