(* ===== verification/Edges.thy ===== *)
theory Edges
  imports Android Connections Ipc
begin

text \<open>
  The edges of the Core: the wait of a probe for a tunnel that is being configured (\<open>awaitTunnel\<close> of
  \<open>core/probe.go\<close>), a loop that need not end, and the exports of \<open>core/lib.go\<close> that answer a text,
  with the recovery that keeps a panic from ending the application; and the process from its argument
  to its exit (\<open>dial_socket.go\<close>, \<open>dial_pipe.go\<close>, \<open>server.go\<close>, \<open>exit.go\<close>, \<open>cmd/core/main.go\<close>).
\<close>

subsection \<open>Waiting for the tunnel\<close>

text \<open>
  \<open>susp k\<close>: the tunnel is suspended at poll \<open>k\<close>. \<open>ended k\<close>: the select after it takes the end of the
  context, with its error, rather than the timer. The value is the number of the last poll and the
  error; a wait that goes on for ever has none.
\<close>

partial_function (option) await_tunnel ::
  "(nat \<Rightarrow> bool) \<Rightarrow> (nat \<Rightarrow> string option) \<Rightarrow> nat \<Rightarrow> (nat \<times> string option) option" where
  "await_tunnel susp ended k =
     (if \<not> susp k then Some (k, None)
      else (case ended k of Some e \<Rightarrow> Some (k, Some e) | None \<Rightarrow> await_tunnel susp ended (Suc k)))"

lemma await_tunnel_simps:
  "\<not> susp k \<Longrightarrow> await_tunnel susp ended k = Some (k, None)"
  "susp k \<Longrightarrow> ended k = Some e \<Longrightarrow> await_tunnel susp ended k = Some (k, Some e)"
  "susp k \<Longrightarrow> ended k = None \<Longrightarrow> await_tunnel susp ended k = await_tunnel susp ended (Suc k)"
  by (simp_all add: await_tunnel.simps)

text \<open>The wait ends at the first poll that finds the tunnel going or the context ended.\<close>

lemma await_tunnel_skips:
  "\<forall>i. k \<le> i \<and> i < k + n \<longrightarrow> susp i \<and> ended i = None \<Longrightarrow> await_tunnel susp ended k = await_tunnel susp ended (k + n)"
proof (induction n arbitrary: k)
  case (Suc n)
  have "await_tunnel susp ended k = await_tunnel susp ended (Suc k)"
    using Suc.prems[rule_format, of k] by (simp add: await_tunnel_simps)
  also have "\<dots> = await_tunnel susp ended (Suc k + n)" by (rule Suc.IH) (use Suc.prems in auto)
  finally show ?case by simp
qed simp

definition wait_ended :: "(nat \<Rightarrow> bool) \<Rightarrow> (nat \<Rightarrow> string option) \<Rightarrow> nat \<Rightarrow> nat \<times> string option \<Rightarrow> bool" where
  "wait_ended susp ended k r \<longleftrightarrow> k \<le> fst r \<and> (snd r = None \<longleftrightarrow> \<not> susp (fst r)) \<and>
     (snd r = None \<or> ended (fst r) = snd r) \<and> (\<forall>i. k \<le> i \<and> i < fst r \<longrightarrow> susp i \<and> ended i = None)"

lemma wait_ended_later:
  assumes "wait_ended susp ended (Suc k) r" "susp k" "ended k = None"
  shows "wait_ended susp ended k r"
proof -
  have "susp i \<and> ended i = None" if "k \<le> i" "i < fst r" for i
    using assms that unfolding wait_ended_def by (metis le_antisym not_less_eq_eq)
  then show ?thesis using assms(1) unfolding wait_ended_def by (meson Suc_leD)
qed

lemma await_tunnel_result: "await_tunnel susp ended k = Some r \<Longrightarrow> wait_ended susp ended k r"
proof (rule await_tunnel.raw_induct[of wait_ended])
  fix f susp ended k r
  assume ih: "\<And>susp ended k r. f susp ended k = Some r \<Longrightarrow> wait_ended susp ended k r"
    and now: "(if \<not> susp k then Some (k, None)
      else (case ended k of Some e \<Rightarrow> Some (k, Some e) | None \<Rightarrow> f susp ended (Suc k))) = Some r"
  show "wait_ended susp ended k r"
  proof (cases "susp k \<and> ended k = None")
    case True
    then show ?thesis using ih[of susp ended "Suc k" r] now by (auto intro: wait_ended_later)
  next
    case False
    then show ?thesis using now by (auto simp: wait_ended_def split: if_splits option.splits)
  qed
qed

text \<open>A context that ends, or a tunnel that goes on, ends the wait: a probe is never held for ever.\<close>

lemma await_tunnel_returns:
  assumes "k \<le> j" "\<not> susp j \<or> ended j \<noteq> None"
  shows "\<exists>i e. await_tunnel susp ended k = Some (i, e) \<and> i \<le> j"
proof -
  let ?stop = "\<lambda>n. \<not> susp (k + n) \<or> ended (k + n) \<noteq> None"
  define n where "n = (LEAST n. ?stop n)"
  have "?stop (j - k)" using assms by simp
  then have stop: "?stop n" and le: "n \<le> j - k" unfolding n_def by (rule LeastI, rule Least_le)
  have "susp i \<and> ended i = None" if "k \<le> i" "i < k + n" for i
    using not_less_Least[of "i - k" ?stop] that unfolding n_def by auto
  then have "await_tunnel susp ended k = await_tunnel susp ended (k + n)" by (intro await_tunnel_skips) blast
  moreover have "\<exists>e. await_tunnel susp ended (k + n) = Some (k + n, e)"
    using stop by (cases "susp (k + n)") (auto simp: await_tunnel_simps)
  ultimately show ?thesis using le assms(1) by fastforce
qed

subsection \<open>Exports that answer a text\<close>

text \<open>
  The body of an export ends with its value or a panic (Inl), which is recorded and answered with the
  zero value of its type. The stack in the record is left out.
\<close>

definition recover_export :: "string \<Rightarrow> 'a \<Rightarrow> string + 'a \<Rightarrow> string list \<Rightarrow> 'a \<times> string list" where
  "recover_export name zero outcome logs =
     (case outcome of
        Inr v \<Rightarrow> (v, logs)
      | Inl r \<Rightarrow> (zero, logs @ [''panic in '' @ name @ '': '' @ r]))"

text \<open>mihomo's manager answers the figures or panics.\<close>

definition get_total_traffic_export ::
  "(int \<times> int \<Rightarrow> string + bytes) \<Rightarrow> string + manager \<Rightarrow> bool \<Rightarrow> string list \<Rightarrow> bytes \<times> string list" where
  "get_total_traffic_export marshal m only_proxy logs =
     recover_export ''getTotalTraffic'' []
       (map_sum id (\<lambda>m. marshal_result marshal (handle_get_total_traffic m only_proxy)) m) logs"

definition get_traffic_export ::
  "(int \<times> int \<Rightarrow> string + bytes) \<Rightarrow> string + manager \<Rightarrow> bool \<Rightarrow> string list \<Rightarrow> bytes \<times> string list" where
  "get_traffic_export marshal m only_proxy logs =
     recover_export ''getTraffic'' []
       (map_sum id (\<lambda>m. marshal_result marshal (handle_get_traffic m only_proxy)) m) logs"

text \<open>The answer is the text of the figures, or empty; a panic adds one line to the log.\<close>

lemma traffic_export_answers:
  "get_traffic_export marshal (Inr m) only logs =
     ((case marshal (handle_get_traffic m only) of Inr d \<Rightarrow> d | Inl _ \<Rightarrow> []), logs)"
  "fst (get_traffic_export marshal (Inl r) only logs) = []"
  "length (snd (get_traffic_export marshal (Inl r) only logs)) = Suc (length logs)"
  by (simp_all add: get_traffic_export_def recover_export_def marshal_result_def split: sum.splits)

subsection \<open>The process\<close>

text \<open>Where the argument says the host listens: a number is a port of the loopback, any other text a socket's path.\<close>

datatype host_address = UnixSocket string | TcpAddress string

definition dial_address :: "string \<Rightarrow> host_address" where
  "dial_address arg =
     (case atoi arg of None \<Rightarrow> UnixSocket arg | Some _ \<Rightarrow> TcpAddress (''127.0.0.1:'' @ arg))"

lemma dials_loopback_only: "dial_address arg = TcpAddress a \<Longrightarrow> \<exists>n. a = ''127.0.0.1:'' @ arg \<and> atoi arg = Some n"
  by (auto simp: dial_address_def split: option.splits)

text \<open>
  What \<open>serve\<close> leaves: the calls read, why reading ended, the transport, and what became of the
  cleanup. \<open>meanwhile\<close> is what the sends did to the transport.
\<close>

record 'c served =
  sv_calls :: "'c list"
  sv_error :: read_err
  sv_transport :: transport
  sv_cleanup :: exit_outcome

definition serve :: "(nat \<Rightarrow> bytes) \<Rightarrow> (bytes \<Rightarrow> 'c option) \<Rightarrow> (transport \<Rightarrow> transport) \<Rightarrow> bool \<Rightarrow> int option
   \<Rightarrow> nat \<Rightarrow> transport \<Rightarrow> 'c served" where
  "serve input decode meanwhile initialised takes dialed t =
     (case serve_loop decode (input dialed) of
        (calls, e) \<Rightarrow> \<lparr>sv_calls = calls, sv_error = e, sv_transport = serve_end (meanwhile (serve_start dialed t)),
                       sv_cleanup = release_on_exit initialised takes\<rparr>)"

text \<open>A host that cannot be dialed is a panic (Inl).\<close>

definition start_server ::
  "(host_address \<Rightarrow> string + nat) \<Rightarrow> (nat \<Rightarrow> bytes) \<Rightarrow> (bytes \<Rightarrow> 'c option) \<Rightarrow> (transport \<Rightarrow> transport)
   \<Rightarrow> bool \<Rightarrow> int option \<Rightarrow> string \<Rightarrow> transport \<Rightarrow> string + 'c served" where
  "start_server dial input decode meanwhile initialised takes arg t =
     (case dial (dial_address arg) of
        Inl e \<Rightarrow> Inl e
      | Inr c \<Rightarrow> Inr (serve input decode meanwhile initialised takes c t))"

datatype 'c main_result = ArgumentsError nat | MainPanics string | MainReturns "'c served"

definition core_main ::
  "(string \<Rightarrow> string + 'c served) \<Rightarrow> string list \<Rightarrow> 'c main_result" where
  "core_main start args =
     (if length args \<le> 1 then ArgumentsError 1
      else (case start (args ! 1) of Inl e \<Rightarrow> MainPanics e | Inr s \<Rightarrow> MainReturns s))"

text \<open>The goroutine that waits for the signals it asked for; others never reach it.\<close>

datatype exit_signal = Interrupt | Terminate | OtherSignal nat

fun exit_on_termination :: "bool \<Rightarrow> int option \<Rightarrow> exit_signal list \<Rightarrow> (exit_outcome \<times> nat) option" where
  "exit_on_termination initialised takes [] = None"
| "exit_on_termination initialised takes (OtherSignal _ # ss) = exit_on_termination initialised takes ss"
| "exit_on_termination initialised takes (_ # ss) = Some (release_on_exit initialised takes, 0)"

lemma exits_on_termination:
  "exit_on_termination initialised takes ss =
     (if Interrupt \<in> set ss \<or> Terminate \<in> set ss then Some (release_on_exit initialised takes, 0) else None)"
  by (induction initialised takes ss rule: exit_on_termination.induct) auto

text \<open>A process that ends leaves no connection behind, and takes at most the three seconds of its cleanup.\<close>

lemma main_lets_go:
  assumes "core_main (\<lambda>arg. start_server dial input decode meanwhile initialised takes arg t) args = MainReturns s"
  shows "conn (sv_transport s) = None \<and> exit_delay (sv_cleanup s) \<le> exit_cleanup_timeout \<and>
    (\<exists>c. dial (dial_address (args ! 1)) = Inr c \<and> serve_loop decode (input c) = (sv_calls s, sv_error s))"
proof -
  obtain c where c: "dial (dial_address (args ! 1)) = Inr c" "s = serve input decode meanwhile initialised takes c t"
    using assms by (auto simp: core_main_def start_server_def split: if_splits sum.splits)
  obtain calls e where r: "serve_loop decode (input c) = (calls, e)" by fastforce
  show ?thesis unfolding c(2) using c(1) r exit_in_time[of initialised takes]
    by (auto simp: serve_def serve_end_def split: option.splits)
qed

end
