(* ===== verification/Spec2Isabelle.thy ===== *)
theory Spec2Isabelle
  imports Go_Prelude Regions Ipc Messages Routes Slots Probes Request_Traffic Outbound_Ip Service_Rules
    Rule_Sets Config_Updates Dispatch Share_Links Profile_Documents Procfs Fd_Limit Tun_Start Dns_Updates Android Ownership
    Delays Log_Pump Connections Config_Reads Event_Delivery Hooks Edges
begin

text \<open>
  A verification library for the core of YuClash, the Go code of \<open>src/core\<close>.

  \<^bold>\<open>The program.\<close> The host (a Flutter application) starts the core as a process, or loads it as a
  library on Android, and speaks to it in method calls and events. A call is read off the connection
  (\<open>server.go\<close>), dispatched by its name to a handler (\<open>method.go\<close>), and answered under its id, through a
  file when the answer is long (\<open>spill.go\<close>). Events go the other way through bounded queues that a
  batcher empties (\<open>message.go\<close>). Between the two the core keeps a configuration in force in the proxy
  library mihomo (\<open>config.go\<close>, \<open>lifecycle.go\<close>), lets the host select proxies (\<open>proxy.go\<close>), tracks which
  route a connection takes (\<open>route.go\<close>), probes services and addresses through it (\<open>probe.go\<close>,
  \<open>service_check.go\<close>, \<open>service_rules.go\<close>, \<open>outbound_ip.go\<close>), reports the traffic of requests
  (\<open>request_traffic.go\<close>), updates providers, geo data and rule sets (\<open>provider.go\<close>, \<open>geo.go\<close>,
  \<open>rule_set.go\<close>) and writes share links (\<open>share_link.go\<close>). It merges profiles (\<open>profile_base.go\<close>,
  \<open>short_id.go\<close>) and gives files made with privileges back to their user (\<open>ownership_unix.go\<close>). On Android
  it is driven through exports (\<open>lib.go\<close>, \<open>mobile/mobile.go\<close>), which hand it a tunnel descriptor
  (\<open>tun/tun.go\<close>), and it guards its sockets (\<open>platform/limit.go\<close>, \<open>platform/procfs.go\<close>). mihomo, the JSON, YAML, HTTP and URL
  libraries, the file system, the network and the clock are not under \<open>src\<close>: they are arguments of the
  definitions, and a property names what it needs of them as a hypothesis.

  \<^bold>\<open>The theories.\<close>
  \<^item> \<open>Go_Prelude\<close>: Go's string and byte functions, binary search, little-endian integers, and the
    collections of rules the components share. \<open>Go_Netip\<close>: \<open>net/netip\<close> addresses and prefixes, read and
    written. \<open>Go_Regexp\<close>: the fragment of \<open>regexp\<close> the rules use, as an executable matcher.
  \<^item> \<open>Regions\<close> (\<open>region.go\<close>): the packed ISO 3166 table and its search, equal to a lookup.
  \<^item> \<open>Ipc\<close> (\<open>server.go\<close>): frames, the writer that resumes after a short write, \<open>send\<close> and the read
    loop; a connection carries whole frames only, and \<open>send\<close> returns.
  \<^item> \<open>Messages\<close> (\<open>message.go\<close>): the policies of the queues, and the batcher as a step relation with its
    bounds, its conservation of messages, its fairness and its end.
  \<^item> \<open>Routes\<close> (\<open>route.go\<close>): the tracker, its refresh and epoch, the watch protocol under any interleaving,
    and the check of routes with its memo.
  \<^item> \<open>Slots\<close> (\<open>slots.go\<close>, \<open>protocol.go\<close>): the counting semaphore of probes and tests.
  \<^item> \<open>Probes\<close> (\<open>probe.go\<close>): the recording dialer, the bounded and scanned body, the outcome of a probe.
  \<^item> \<open>Request_Traffic\<close> (\<open>request_traffic.go\<close>): the watched requests and the rounds that report them.
  \<^item> \<open>Outbound_Ip\<close> (\<open>outbound_ip.go\<close>): the race of sources, and which address a body mentions.
  \<^item> \<open>Service_Check\<close>, \<open>Service_Rules\<close> (\<open>service_check.go\<close>, \<open>service_rules.go\<close>): a run of a rule with its
    retry and request budget, the claims of services, and the thirteen rules.
  \<^item> \<open>Providers\<close> (\<open>provider.go\<close>, \<open>geo.go\<close>): lookups, updates with their claims, links, clearing.
    \<open>Rule_Sets\<close> (\<open>rule_set.go\<close>): classification and compilation.
  \<^item> \<open>Proxies\<close> (\<open>proxy.go\<close>), \<open>Core_Config\<close> (\<open>config.go\<close>, \<open>lifecycle.go\<close>): selection, setup, updates in
    place, listeners, shutdown. \<open>Config_Updates\<close>: the abstract specification of an update, one
    assignment at a time, and the refinement.
  \<^item> \<open>Dispatch\<close> (\<open>method.go\<close>, \<open>spill.go\<close>): the table of handlers, errors and panics, answers and files.
  \<^item> \<open>Share_Links\<close> (\<open>share_link.go\<close>): the encoders, and readers of their forms.
  \<^item> \<open>Yaml_Nodes\<close>: the nodes of the YAML library on a heap, aliases, and writing aliases out.
    \<open>Short_Ids\<close> (\<open>short_id.go\<close>): retagging. \<open>Profile_Base\<close>, \<open>Profile_Documents\<close> (\<open>profile_base.go\<close>): the
    merge of overlay and profile, when it returns, and the replacement of the configuration file.
  \<^item> \<open>Procfs\<close> (\<open>platform/procfs.go\<close>): the owner of a socket. \<open>Fd_Limit\<close> (\<open>platform/limit.go\<close>): the valve that
    refuses connections when descriptors run out.
  \<^item> \<open>Tun_Start\<close> (\<open>tun/tun.go\<close>): the settings of the tunnel and the descriptors. \<open>Tun_Handler\<close> (\<open>lib.go\<close>,
    \<open>mobile/mobile.go\<close>): the tunnel in force and its callbacks under any interleaving of dials.
    \<open>Dns_Updates\<close>: the newest name servers win. \<open>Android\<close>: the exports over the Core.
  \<^item> \<open>Ownership\<close> (\<open>ownership_unix.go\<close>): what is given back, whatever other processes do, and what
    undisturbed.
  \<^item> \<open>Delays\<close> (\<open>delay.go\<close>, \<open>hooks.go\<close>): the test of a delay and the reports that are spaced. \<open>Log_Pump\<close>
    (\<open>log.go\<close>): the pumps, no event sent twice. \<open>Connections\<close> (\<open>connection.go\<close>, \<open>dns_query.go\<close>,
    \<open>filter.go\<close>, \<open>certificate.go\<close>, \<open>exit.go\<close>): the smaller parts. \<open>Config_Reads\<close> (\<open>config.go\<close>,
    \<open>protocol.go\<close>): what is only read, and every method of the protocol has its handler.
  \<^item> \<open>Hooks\<close> (\<open>hooks.go\<close>, and the hooks of \<open>geo.go\<close>, \<open>route.go\<close>, \<open>log.go\<close>, \<open>request_traffic.go\<close>): every callback
    of mihomo over one state made of those components, and the events it queues. \<open>Event_Delivery\<close>: from the
    queues through the batcher and the connection to what the host decodes.
  \<^item> \<open>Edges\<close>: the wait of a probe for a suspended tunnel (\<open>probe.go\<close>), the exports that answer a text, and
    the process from its argument to its exit (\<open>exit.go\<close>, \<open>dial_socket.go\<close>, \<open>cmd/core/main.go\<close>).

  \<^bold>\<open>State and steps.\<close> What the code keeps in package variables is a record per component, and an
  operation takes the record and returns it. Where goroutines meet (the batcher, the watch calls, the
  race of sources, the claims of services and updates, the dispatcher, the slots) the steps are an
  inductive relation whose every step is one critical section or one channel operation of the code, and
  a property is an invariant of the reachable states or a measure on them. Errors are values: the left
  of a sum, an option, or the empty string where the code returns an empty text.

  \<^bold>\<open>Locales.\<close> An interface is a locale, interpreted on the definitions that provide it, in the theory
  of the provider: a sorted table searched by bisection and an update under distinct keys
  (\<open>Go_Prelude\<close>), a writer of bytes (\<open>Ipc\<close>), the policies of a queue (\<open>Messages\<close>), and claims held by
  one owner at a time (\<open>Providers\<close>).

  \<^bold>\<open>Bounds and fuel.\<close> The walk through nested groups in \<open>Routes\<close> and the loops of the writer in \<open>Ipc\<close> may
  run forever (groups that select each other, a writer that takes no bytes): they are partial functions
  over \<open>option\<close>, as is the wait for the tunnel in \<open>Edges\<close>, and \<open>exit_through_returns\<close>, \<open>send_returns\<close> and
  \<open>await_tunnel_returns\<close> state when they return. The readers
  of bodies recurse on what is left to read. The walks over YAML nodes, which may be cyclic through
  aliases, take fuel \<open>k\<close>; \<open>merge_returns\<close>, \<open>inline_aliases_returns\<close> and \<open>mapping_value_returns\<close> show that enough
  exists for every document a parser makes. Counters of 64 bits (calls of the host, name servers) are
  words, and a property of their order excludes a wrap-around in its steps.

  \<^bold>\<open>Not modelled.\<close> The text of log lines and of most error
  messages of libraries, the pacing of timers (a tick is a step that may happen at any time) and the data
  races the Go memory model would allow outside the locks and atomics of the code. The socket and
  named-pipe libraries and the delivery of signals belong to the operating system and are arguments.
  A callback of mihomo is one step of \<open>Hooks\<close>, though the listener may change between its two looks at it.
  Panics are modelled where they are answered (\<open>Dispatch\<close>) or recovered with a value (\<open>Edges\<close>), not in every
  export of Android. The log lines of the exports, and the adapters of \<open>mobile/mobile.go\<close> that only pass a call on,
  are left out.
\<close>

end
